(* ===== verification/MEFSC_Prelude.thy ===== *)
theory MEFSC_Prelude
  imports Main "HOL-Library.Word"
begin

text \<open>
  What every component of the development shares: the machine types of the program, the
  outcome of running a piece of C++ code (it returns, it faults, or it never returns), the
  little-endian layout of integers in memory and on the wire, C strings and buffers that are
  partly overwritten, and the generic lemmas about them.
\<close>

section \<open>Collections of facts\<close>

named_theorems run_simps \<open>evaluation of sequenced code\<close>
named_theorems bytes_simps \<open>layout of integers and buffers as bytes\<close>

section \<open>Machine types\<close>

text \<open>
  \<open>unsigned char\<close> is an octet, \<open>unsigned long long\<close>, \<open>uint64_t\<close> and \<open>size_t\<close> have 64
  bits, \<open>int\<close> has 32. A \<open>std::string\<close> is a sequence of octets.
\<close>

type_synonym byte = "8 word"
type_synonym u64 = "64 word"
type_synonym i32 = "32 word"
type_synonym cpp_string = "byte list"

definition str :: "string \<Rightarrow> cpp_string" where
  "str s = map of_char s"

section \<open>The outcome of running code\<close>

text \<open>
  A fault ends the process: an access outside a buffer, an exception nobody catches, a call of
  \<open>exit\<close>. Code that never returns (a loop that spins, a call that blocks for ever) is
  \<open>None\<close>.
\<close>

datatype fault = Out_Of_Bounds | Uncaught_Exception | Exit_Process i32

type_synonym 'a run = "(fault + 'a) option"

definition ret :: "'a \<Rightarrow> 'a run" where
  "ret x = Some (Inr x)"

definition fails :: "fault \<Rightarrow> 'a run" where
  "fails f = Some (Inl f)"

definition andthen :: "'a run \<Rightarrow> ('a \<Rightarrow> 'b run) \<Rightarrow> 'b run" where
  "andthen m k = (case m of None \<Rightarrow> None | Some (Inl f) \<Rightarrow> Some (Inl f) | Some (Inr x) \<Rightarrow> k x)"

definition returns :: "'a run \<Rightarrow> bool" where
  "returns m \<longleftrightarrow> m \<noteq> None"

lemma andthen_ret [simp, run_simps]: "andthen (ret x) k = k x"
  by (simp add: andthen_def ret_def)

lemma andthen_fails [simp, run_simps]: "andthen (fails f) k = fails f"
  by (simp add: andthen_def fails_def)

lemma andthen_None [simp, run_simps]: "andthen None k = None"
  by (simp add: andthen_def)

lemma ret_inject [simp]: "ret x = ret y \<longleftrightarrow> x = y"
  by (simp add: ret_def)

lemma ret_not_None [simp]: "ret x \<noteq> None" "None \<noteq> ret x"
  by (simp_all add: ret_def)

lemma fails_not_None [simp]: "fails f \<noteq> None" "None \<noteq> fails f"
  by (simp_all add: fails_def)

lemma ret_not_fails [simp]: "ret x \<noteq> fails f" "fails f \<noteq> ret x"
  by (simp_all add: ret_def fails_def)

lemma fails_inject [simp]: "(fails f = fails g) = (f = g)"
  by (simp add: fails_def)

lemma ret_eq_Some [simp]: "ret x = Some r \<longleftrightarrow> r = Inr x" "fails f = Some r' \<longleftrightarrow> r' = Inl f"
  by (auto simp: ret_def fails_def)

lemma returns_simps [simp]: "returns (ret x)" "returns (fails f)" "\<not> returns None"
  by (simp_all add: returns_def)

lemma run_cases [case_names hangs faulty returned]:
  obtains "m = None" | f where "m = fails f" | x where "m = ret x"
  unfolding ret_def fails_def by (metis option.exhaust sum.exhaust)

lemma andthen_eq_ret_iff: "andthen m k = ret y \<longleftrightarrow> (\<exists>x. m = ret x \<and> k x = ret y)"
  by (cases m rule: run_cases) auto

lemma andthen_assoc [run_simps]: "andthen (andthen m k) h = andthen m (\<lambda>x. andthen (k x) h)"
  by (cases m rule: run_cases) auto

lemma andthen_cong [fundef_cong]:
  "m = m' \<Longrightarrow> (\<And>x. m' = ret x \<Longrightarrow> k x = k' x) \<Longrightarrow> andthen m k = andthen m' k'"
  by (cases m rule: run_cases) auto

lemma returns_andthen: "returns m \<Longrightarrow> (\<And>x. m = ret x \<Longrightarrow> returns (k x)) \<Longrightarrow> returns (andthen m k)"
  by (cases m rule: run_cases) auto

text \<open>The continuation of a sequence may hold the recursive call of a loop.\<close>

lemma andthen_mono [partial_function_mono]:
  assumes "mono_option m" and "\<And>x. mono_option (\<lambda>f. k f x)"
  shows "mono_option (\<lambda>f. andthen (m f) (k f))"
proof (rule monotoneI)
  fix f g :: "'a \<Rightarrow> 'b option"
  assume fg: "fun_ord option_ord f g"
  with assms have m: "option_ord (m f) (m g)" and k: "\<And>x. option_ord (k f x) (k g x)"
    by (auto dest: monotoneD)
  show "option_ord (andthen (m f) (k f)) (andthen (m g) (k g))"
  proof (cases "m f")
    case None
    then show ?thesis by (simp add: flat_ord_def)
  next
    case (Some r)
    with m have "m g = Some r" by (simp add: flat_ord_def)
    with Some k show ?thesis by (cases r) (auto simp: andthen_def flat_ord_def)
  qed
qed

section \<open>Integers as bytes\<close>

text \<open>
  The wire carries the host's own representation (\<open>send\<close> of the address of an integer): the
  low octet first on the little-endian hosts the program runs on.
\<close>

fun le_bytes :: "nat \<Rightarrow> nat \<Rightarrow> byte list" where
  "le_bytes 0 v = []"
| "le_bytes (Suc n) v = word_of_nat v # le_bytes n (v div 256)"

fun le_val :: "byte list \<Rightarrow> nat" where
  "le_val [] = 0"
| "le_val (b # bs) = unat b + 256 * le_val bs"

lemma length_le_bytes [simp, bytes_simps]: "length (le_bytes n v) = n"
  by (induction n arbitrary: v) auto

lemma unat_byte_less: "unat (b :: byte) < 256"
proof -
  have "unat b < 2 ^ LENGTH(8)" by (rule unsigned_less)
  then show ?thesis by simp
qed

lemma unat_u64_less: "unat (v :: u64) < 2 ^ 64"
proof -
  have "unat v < 2 ^ LENGTH(64)" by (rule unsigned_less)
  then show ?thesis by simp
qed

lemma unat_i32_less: "unat (v :: i32) < 2 ^ 32"
proof -
  have "unat v < 2 ^ LENGTH(32)" by (rule unsigned_less)
  then show ?thesis by simp
qed

lemma unat_of_nat_byte: "unat (word_of_nat v :: byte) = v mod 256"
  by (simp add: unat_of_nat)

lemma le_val_le_bytes [bytes_simps]: "le_val (le_bytes n v) = v mod 256 ^ n"
proof (induction n arbitrary: v)
  case 0
  then show ?case by simp
next
  case (Suc n)
  have "le_val (le_bytes (Suc n) v) = v mod 256 + 256 * (v div 256 mod 256 ^ n)"
    by (simp add: Suc unat_of_nat_byte)
  also have "\<dots> = v mod (256 * 256 ^ n)"
    by (simp add: mod_mult2_eq)
  finally show ?case by simp
qed

lemma le_val_less [bytes_simps]: "le_val bs < 256 ^ length bs"
proof (induction bs)
  case Nil
  then show ?case by simp
next
  case (Cons b bs)
  have "unat b < 256" by (rule unat_byte_less)
  with Cons show ?case by simp
qed

lemma le_bytes_le_val [bytes_simps]: "le_bytes (length bs) (le_val bs) = bs"
proof (induction bs)
  case Nil
  then show ?case by simp
next
  case (Cons b bs)
  have b: "unat b < 256" by (rule unat_byte_less)
  have "(256 :: byte) = 0" by simp
  then have "(256 :: byte) * word_of_nat (le_val bs) = 0" by (metis mult_zero_left)
  then have "word_of_nat (unat b + 256 * le_val bs) = (b :: byte)" by simp
  moreover have "(unat b + 256 * le_val bs) div 256 = le_val bs"
    using b by simp
  ultimately show ?case using Cons by simp
qed

definition u64_bytes :: "u64 \<Rightarrow> byte list" where
  "u64_bytes v = le_bytes 8 (unat v)"

definition u64_of_bytes :: "byte list \<Rightarrow> u64" where
  "u64_of_bytes bs = word_of_nat (le_val bs)"

definition i32_bytes :: "i32 \<Rightarrow> byte list" where
  "i32_bytes v = le_bytes 4 (unat v)"

definition i32_of_bytes :: "byte list \<Rightarrow> i32" where
  "i32_of_bytes bs = word_of_nat (le_val bs)"

lemma length_u64_bytes [simp, bytes_simps]: "length (u64_bytes v) = 8"
  by (simp add: u64_bytes_def)

lemma u64_bytes_not_Nil [simp]: "u64_bytes v \<noteq> []"
  by (metis length_u64_bytes list.size(3) zero_neq_numeral)

lemma length_i32_bytes [simp, bytes_simps]: "length (i32_bytes v) = 4"
  by (simp add: i32_bytes_def)

lemma u64_of_bytes_inverse [simp, bytes_simps]: "u64_of_bytes (u64_bytes v) = v"
proof -
  have "unat v < 256 ^ 8" using unat_u64_less [of v] by simp
  then show ?thesis by (simp add: u64_of_bytes_def u64_bytes_def le_val_le_bytes)
qed

lemma i32_of_bytes_inverse [simp, bytes_simps]: "i32_of_bytes (i32_bytes v) = v"
proof -
  have "unat v < 256 ^ 4" using unat_i32_less [of v] by simp
  then show ?thesis by (simp add: i32_of_bytes_def i32_bytes_def le_val_le_bytes)
qed

lemma u64_bytes_inverse: "length bs = 8 \<Longrightarrow> u64_bytes (u64_of_bytes bs) = bs"
  using le_val_less [of bs] le_bytes_le_val [of bs]
  by (simp add: u64_of_bytes_def u64_bytes_def unat_of_nat)

lemma unat_of_nat_u64: "n < 2 ^ 64 \<Longrightarrow> unat (word_of_nat n :: u64) = n"
  by (simp add: unat_of_nat)

section \<open>Buffers and C strings\<close>

text \<open>
  \<open>write_into buf data\<close> is the buffer after \<open>data\<close> was copied to its start. A C string ends
  at the first zero octet; \<open>None\<close> stands for a buffer that holds none, where a read would run
  past its end.
\<close>

definition write_into :: "byte list \<Rightarrow> byte list \<Rightarrow> byte list" where
  "write_into buf data = data @ drop (length data) buf"

definition c_str :: "byte list \<Rightarrow> cpp_string option" where
  "c_str buf = (if 0 \<in> set buf then Some (takeWhile (\<lambda>b. b \<noteq> 0) buf) else None)"

lemma length_write_into [simp]:
  "length (write_into buf data) = max (length buf) (length data)"
  by (simp add: write_into_def max_def)

lemma take_write_into [simp]: "take (length data) (write_into buf data) = data"
  by (simp add: write_into_def)

lemma write_into_full: "length buf \<le> length data \<Longrightarrow> write_into buf data = data"
  by (simp add: write_into_def)

lemma c_str_terminated: "0 \<notin> set s \<Longrightarrow> c_str (s @ 0 # rest) = Some s"
  by (simp add: c_str_def takeWhile_append)

lemma c_str_nonzero: "c_str buf = Some s \<Longrightarrow> 0 \<notin> set s"
  by (auto simp: c_str_def dest: set_takeWhileD split: if_splits)

lemma c_str_length: "c_str buf = Some s \<Longrightarrow> length s < length buf"
proof -
  assume s: "c_str buf = Some s"
  then have z: "0 \<in> set buf" and eq: "s = takeWhile (\<lambda>b. b \<noteq> 0) buf"
    by (auto simp: c_str_def split: if_splits)
  from z have "takeWhile (\<lambda>b. b \<noteq> 0) buf \<noteq> buf"
    by (metis (mono_tags) set_takeWhileD)
  then have "length (takeWhile (\<lambda>b. b \<noteq> 0) buf) \<noteq> length buf"
    by (metis takeWhile_eq_take take_all order_refl)
  with eq show ?thesis by (simp add: length_takeWhile_le order_le_neq_trans)
qed

section \<open>Lists\<close>

lemma concat_map_snoc: "concat (map f (xs @ [x])) = concat (map f xs) @ f x"
  by simp

lemma take_append_exact: "n = length xs \<Longrightarrow> take n (xs @ ys) = xs"
  by simp

lemma drop_append_exact: "n = length xs \<Longrightarrow> drop n (xs @ ys) = ys"
  by simp

end
