(* ===== verification/Sodium_API.thy ===== *)
theory Sodium_API
  imports MEFSC_Prelude
begin

text \<open>
  The cryptographic library the program links against (libsodium) is not part of the
  repository: it is a parameter of the model, a record of the calls and constants the sources
  use. What the program relies on is stated as named laws over that record, each a documented
  property of the library; a small concrete instance shows that they can hold together. The
  constants of \<open>include/common/constants.h\<close> that are computed from the library's are defined
  here too.
\<close>

section \<open>The library as a record\<close>

text \<open>
  A call that fills a buffer returns the bytes; a call that can fail returns an \<open>option\<close>
  (\<open>None\<close> is a non-zero return code). Calls that draw randomness inside the library take the
  drawn bytes as an argument.
\<close>

record 'st sodium =
  aead_ABYTES :: nat
  aead_NPUBBYTES :: nat
  ss_ABYTES :: nat
  ss_HEADERBYTES :: nat
  ss_TAG_FINAL :: byte
  pwhash_SALTBYTES :: nat
  box_SEEDBYTES :: nat
  kx_PUBLICKEYBYTES :: nat
  kx_SESSIONKEYBYTES :: nat
  sodium_increment :: "byte list \<Rightarrow> byte list"
  aead_encrypt :: "byte list \<Rightarrow> byte list \<Rightarrow> byte list \<Rightarrow> byte list option"
  aead_decrypt :: "byte list \<Rightarrow> byte list \<Rightarrow> byte list \<Rightarrow> byte list option"
  aead_fail_buf :: "byte list \<Rightarrow> byte list \<Rightarrow> byte list"
  aead_fail_len :: "u64 \<Rightarrow> u64"
  ss_init_push :: "byte list \<Rightarrow> byte list \<Rightarrow> 'st \<times> byte list"
  ss_init_pull :: "byte list \<Rightarrow> byte list \<Rightarrow> 'st option"
  ss_push :: "'st \<Rightarrow> byte list \<Rightarrow> byte \<Rightarrow> 'st \<times> byte list"
  ss_pull :: "'st \<Rightarrow> byte list \<Rightarrow> ('st \<times> byte list \<times> byte) option"
  kx_keypair :: "byte list \<Rightarrow> byte list \<times> byte list"
  kx_client_session_keys :: "byte list \<Rightarrow> byte list \<Rightarrow> byte list \<Rightarrow> (byte list \<times> byte list) option"
  kx_server_session_keys :: "byte list \<Rightarrow> byte list \<Rightarrow> byte list \<Rightarrow> (byte list \<times> byte list) option"
  kx_fail_buf :: "byte list \<Rightarrow> byte list"
  pwhash_fail_buf :: "byte list \<Rightarrow> byte list"
  pwhash :: "nat \<Rightarrow> byte list \<Rightarrow> byte list \<Rightarrow> byte list option"
  pwhash_str_verify :: "byte list \<Rightarrow> byte list \<Rightarrow> bool"

text \<open>
  \<open>aead_fail_buf S c buf\<close> is what a decryption of \<open>c\<close> that fails writes to the start of its
  output buffer, which held \<open>buf\<close>, and \<open>aead_fail_len\<close> what it leaves in the length cell;
  \<open>kx_fail_buf\<close> is what a refused key exchange leaves in a key buffer, \<open>pwhash_fail_buf\<close> what a
  failed key derivation leaves in the key, as a function of what they held. No law says what
  these bytes are.
  Argument order: \<open>aead_encrypt S m nonce key\<close>, \<open>aead_decrypt S c nonce key\<close>,
  \<open>ss_init_push S iv key\<close>, \<open>ss_init_pull S header key\<close>, \<open>ss_push S state m tag\<close>,
  \<open>ss_pull S state c\<close>, \<open>kx_client_session_keys S client_pk client_sk server_pk\<close> giving
  \<open>(rx, tx)\<close>, \<open>pwhash S outlen password salt\<close>, \<open>pwhash_str_verify S hash password\<close>.
\<close>

section \<open>What the program relies on\<close>

text \<open>The sizes the library documents.\<close>

definition sodium_sizes :: "'st sodium \<Rightarrow> bool" where
  "sodium_sizes S \<longleftrightarrow> aead_ABYTES S = 16 \<and> aead_NPUBBYTES S = 8 \<and> ss_ABYTES S = 17 \<and>
     ss_HEADERBYTES S = 24 \<and> ss_TAG_FINAL S = 3 \<and> pwhash_SALTBYTES S = 16 \<and>
     box_SEEDBYTES S = 32 \<and> kx_PUBLICKEYBYTES S = 32 \<and> kx_SESSIONKEYBYTES S = 32"

text \<open>
  Authenticated encryption: encryption succeeds and adds exactly \<open>ABYTES\<close>, decryption
  inverts it, nothing else decrypts, and a decryption, failed ones included, puts at most the
  length of the ciphertext less \<open>ABYTES\<close> into the output buffer.
\<close>

definition aead_laws :: "'st sodium \<Rightarrow> bool" where
  "aead_laws S \<longleftrightarrow>
     (\<forall>m n k. \<exists>c. aead_encrypt S m n k = Some c \<and> length c = length m + aead_ABYTES S \<and>
                  aead_decrypt S c n k = Some m) \<and>
     (\<forall>c n k m. aead_decrypt S c n k = Some m \<longrightarrow> aead_encrypt S m n k = Some c) \<and>
     (\<forall>c buf. length (aead_fail_buf S c buf) \<le> length c - aead_ABYTES S)"

text \<open>\<open>sodium_increment\<close> adds one to a little-endian number of the given width.\<close>

definition increment_law :: "'st sodium \<Rightarrow> bool" where
  "increment_law S \<longleftrightarrow> (\<forall>n. length (sodium_increment S n) = length n \<and>
     le_val (sodium_increment S n) = (le_val n + 1) mod 256 ^ length n)"

text \<open>
  The file stream: a pull state made from the header and the key of a push state stays in
  step with it, and each pull returns the message and the tag that were pushed.
\<close>

definition ss_in_step :: "'st sodium \<Rightarrow> ('st \<Rightarrow> 'st \<Rightarrow> bool) \<Rightarrow> bool" where
  "ss_in_step S sync \<longleftrightarrow>
     (\<forall>iv k. length (snd (ss_init_push S iv k)) = ss_HEADERBYTES S \<and>
        (\<exists>st'. ss_init_pull S (snd (ss_init_push S iv k)) k = Some st' \<and>
               sync (fst (ss_init_push S iv k)) st')) \<and>
     (\<forall>st st' m t. sync st st' \<longrightarrow>
        length (snd (ss_push S st m t)) = length m + ss_ABYTES S \<and>
        (\<exists>st''. ss_pull S st' (snd (ss_push S st m t)) = Some (st'', m, t) \<and>
                sync (fst (ss_push S st m t)) st''))"

definition secretstream_laws :: "'st sodium \<Rightarrow> bool" where
  "secretstream_laws S \<longleftrightarrow> (\<exists>sync. ss_in_step S sync) \<and>
     (\<forall>st c st' m t. ss_pull S st c = Some (st', m, t) \<longrightarrow> length c = length m + ss_ABYTES S)"

text \<open>Key exchange: two honest sides derive the same two keys, crossed.\<close>

definition kx_laws :: "'st sodium \<Rightarrow> bool" where
  "kx_laws S \<longleftrightarrow>
     (\<forall>r. length (fst (kx_keypair S r)) = kx_PUBLICKEYBYTES S) \<and>
     (\<forall>r r'. \<exists>rx tx.
        kx_client_session_keys S (fst (kx_keypair S r)) (snd (kx_keypair S r)) (fst (kx_keypair S r'))
          = Some (rx, tx) \<and>
        kx_server_session_keys S (fst (kx_keypair S r')) (snd (kx_keypair S r')) (fst (kx_keypair S r))
          = Some (tx, rx) \<and>
        length rx = kx_SESSIONKEYBYTES S \<and> length tx = kx_SESSIONKEYBYTES S)"

text \<open>The laws of a session: sizes, authenticated encryption and the nonce counter.\<close>

definition session_laws :: "'st sodium \<Rightarrow> bool" where
  "session_laws S \<longleftrightarrow> sodium_sizes S \<and> aead_laws S \<and> increment_law S"

lemma sodium_sizesD:
  assumes "sodium_sizes S"
  shows "aead_ABYTES S = 16" "aead_NPUBBYTES S = 8" "ss_ABYTES S = 17" "ss_HEADERBYTES S = 24"
    "ss_TAG_FINAL S = 3" "pwhash_SALTBYTES S = 16" "box_SEEDBYTES S = 32"
    "kx_PUBLICKEYBYTES S = 32" "kx_SESSIONKEYBYTES S = 32"
  using assms by (auto simp: sodium_sizes_def)

lemma aead_encryptE:
  assumes "aead_laws S"
  obtains c where "aead_encrypt S m n k = Some c" "length c = length m + aead_ABYTES S"
    "aead_decrypt S c n k = Some m"
  using assms unfolding aead_laws_def by blast

lemma aead_decrypt_length:
  assumes "aead_laws S" and "aead_decrypt S c n k = Some m"
  shows "length c = length m + aead_ABYTES S"
proof -
  from assms have "aead_encrypt S m n k = Some c" unfolding aead_laws_def by blast
  moreover obtain c' where "aead_encrypt S m n k = Some c'" "length c' = length m + aead_ABYTES S"
    using assms(1) by (rule aead_encryptE)
  ultimately show ?thesis by simp
qed

lemma aead_decrypt_sound:
  "aead_laws S \<Longrightarrow> aead_decrypt S c n k = Some m \<Longrightarrow> aead_encrypt S m n k = Some c"
  by (auto simp: aead_laws_def)

lemma aead_fail_length: "aead_laws S \<Longrightarrow> length (aead_fail_buf S c buf) \<le> length c - aead_ABYTES S"
  by (simp add: aead_laws_def)

section \<open>Constants computed from the library's\<close>

definition CHUNK_SIZE :: nat where
  "CHUNK_SIZE = 65536"

definition FILE_ENCRYPTED_CHUNK_SIZE :: "'st sodium \<Rightarrow> nat" where
  "FILE_ENCRYPTED_CHUNK_SIZE S = CHUNK_SIZE + ss_ABYTES S"

definition stream_chunk_size :: "'st sodium \<Rightarrow> nat" where
  "stream_chunk_size S = CHUNK_SIZE + ss_ABYTES S + aead_ABYTES S"

definition MAX_FILE_NAME_LENGTH :: nat where
  "MAX_FILE_NAME_LENGTH = 255"

definition PRE_EXT_FILE_NAME_LEN :: nat where
  "PRE_EXT_FILE_NAME_LEN = 250"

definition INVALID_READ_INTENT :: i32 where "INVALID_READ_INTENT = - 45"
definition NO_ACTION :: i32 where "NO_ACTION = 99"
definition NEW_ACTION :: i32 where "NEW_ACTION = 88"
definition END_CHUNK :: i32 where "END_CHUNK = 77"
definition MEAT_CHUNK :: i32 where "MEAT_CHUNK = 66"
definition LIST_FILES :: i32 where "LIST_FILES = 3"
definition DELETE_FILE :: i32 where "DELETE_FILE = 4"
definition READ_FROM_FILESYSTEM :: i32 where "READ_FROM_FILESYSTEM = 1"
definition WRITE_TO_FILESYSTEM :: i32 where "WRITE_TO_FILESYSTEM = 2"
definition ACK_SUC :: i32 where "ACK_SUC = 0"
definition ACK_FAIL :: i32 where "ACK_FAIL = - 1"
definition CONFUSION :: i32 where "CONFUSION = - 420"
definition CONN_TIMEOUT_SEC :: nat where "CONN_TIMEOUT_SEC = 600"
definition CONN_TIMEOUT_USEC :: nat where "CONN_TIMEOUT_USEC = 0"

lemmas wire_constants =
  INVALID_READ_INTENT_def NO_ACTION_def NEW_ACTION_def END_CHUNK_def MEAT_CHUNK_def
  LIST_FILES_def DELETE_FILE_def READ_FROM_FILESYSTEM_def WRITE_TO_FILESYSTEM_def
  ACK_SUC_def ACK_FAIL_def CONFUSION_def

lemma chunk_sizes:
  assumes "sodium_sizes S"
  shows "FILE_ENCRYPTED_CHUNK_SIZE S = 65553" "stream_chunk_size S = 65569"
  using sodium_sizesD [OF assms]
  by (simp_all add: FILE_ENCRYPTED_CHUNK_SIZE_def stream_chunk_size_def CHUNK_SIZE_def)

section \<open>A concrete instance of the laws\<close>

text \<open>
  Not a cipher: an instance that appends a tag made of the nonce and the key, used only to
  show that the laws are satisfiable and to evaluate the model on concrete inputs.
\<close>

definition toy_tag :: "byte list \<Rightarrow> byte list \<Rightarrow> byte list" where
  "toy_tag n k = take 16 (n @ k @ replicate 16 0)"

definition toy_increment :: "byte list \<Rightarrow> byte list" where
  "toy_increment n = le_bytes (length n) (le_val n + 1)"

definition toy_decrypt :: "byte list \<Rightarrow> byte list \<Rightarrow> byte list \<Rightarrow> byte list option" where
  "toy_decrypt c n k =
     (if 16 \<le> length c \<and> drop (length c - 16) c = toy_tag n k
      then Some (take (length c - 16) c) else None)"

definition toy_pull :: "nat \<Rightarrow> byte list \<Rightarrow> (nat \<times> byte list \<times> byte) option" where
  "toy_pull st c =
     (if 17 \<le> length c \<and> drop (length c - 16) c = le_bytes 16 st
      then Some (Suc st, take (length c - 17) c, c ! (length c - 17)) else None)"

definition toy_sodium :: "nat sodium" where
  "toy_sodium = \<lparr> aead_ABYTES = 16, aead_NPUBBYTES = 8, ss_ABYTES = 17, ss_HEADERBYTES = 24,
     ss_TAG_FINAL = 3, pwhash_SALTBYTES = 16, box_SEEDBYTES = 32, kx_PUBLICKEYBYTES = 32,
     kx_SESSIONKEYBYTES = 32,
     sodium_increment = toy_increment,
     aead_encrypt = (\<lambda>m n k. Some (m @ toy_tag n k)),
     aead_decrypt = toy_decrypt,
     aead_fail_buf = (\<lambda>c buf. replicate (length c - 16) 0), aead_fail_len = (\<lambda>_. 0),
     ss_init_push = (\<lambda>iv k. (le_val k, take 24 (iv @ replicate 24 0))),
     ss_init_pull = (\<lambda>h k. Some (le_val k)),
     ss_push = (\<lambda>st m t. (Suc st, m @ t # le_bytes 16 st)),
     ss_pull = toy_pull,
     kx_keypair = (\<lambda>r. (take 32 (r @ replicate 32 0), take 32 (r @ replicate 32 0))),
     kx_client_session_keys = (\<lambda>pk sk pk'. Some (take 32 (pk' @ pk @ replicate 32 0),
                                                  take 32 (pk @ pk' @ replicate 32 0))),
     kx_server_session_keys = (\<lambda>pk sk pk'. Some (take 32 (pk' @ pk @ replicate 32 0),
                                                  take 32 (pk @ pk' @ replicate 32 0))),
     kx_fail_buf = map (\<lambda>_. 0),
     pwhash_fail_buf = map (\<lambda>_. 0),
     pwhash = (\<lambda>n pw salt. Some (take n (pw @ salt @ replicate n 0))),
     pwhash_str_verify = (\<lambda>h pw. h = pw) \<rparr>"

lemma toy_sizes: "sodium_sizes toy_sodium"
  by (simp add: sodium_sizes_def toy_sodium_def)

lemmas toy_consts [simp] = sodium_sizesD [OF toy_sizes] chunk_sizes [OF toy_sizes]

lemma length_toy_tag: "length (toy_tag n k) = 16"
  by (simp add: toy_tag_def)

lemma toy_aead: "aead_laws toy_sodium"
proof -
  have "toy_decrypt (m @ toy_tag n k) n k = Some m" for m n k
    by (simp add: toy_decrypt_def length_toy_tag)
  moreover have "m @ toy_tag n k = c" if "toy_decrypt c n k = Some m" for c n k m
    using that by (auto simp: toy_decrypt_def split: if_splits)
      (metis append_take_drop_id)
  ultimately show ?thesis
    by (simp add: aead_laws_def toy_sodium_def length_toy_tag)
qed

lemma toy_increment_law: "increment_law toy_sodium"
  by (simp add: increment_law_def toy_sodium_def toy_increment_def le_val_le_bytes)

lemma toy_secretstream: "secretstream_laws toy_sodium"
proof -
  have "ss_in_step toy_sodium (=)"
    by (simp add: ss_in_step_def toy_sodium_def toy_pull_def nth_append min_def)
  moreover have "length c = length m + 17" if "toy_pull st c = Some (st', m, t)" for st c st' m t
    using that by (auto simp: toy_pull_def split: if_splits)
  ultimately show ?thesis
    unfolding secretstream_laws_def by (auto simp: toy_sodium_def)
qed

lemma toy_kx: "kx_laws toy_sodium"
  by (simp add: kx_laws_def toy_sodium_def min_def)

lemma toy_session: "session_laws toy_sodium"
  by (simp add: session_laws_def toy_sizes toy_aead toy_increment_law)

end
