(* ===== verification/File_System.thy ===== *)
theory File_System
  imports MEFSC_Prelude "HOL-Library.AList"
begin

text \<open>
  The file system as the program uses it through the C++ standard library: path strings and
  their resolution, \<open>std::ofstream\<close> and \<open>std::ifstream\<close> on binary files,
  \<open>std::filesystem::create_directories\<close>, \<open>remove\<close> and \<open>directory_iterator\<close>. A file
  system is a list of entries (the order is the order a directory iterator reports them in)
  and a working directory; there are no symbolic links, permissions or size limits. The
  section on invariants shows that every operation keeps the tree well formed and touches no
  other path.
\<close>

section \<open>Paths\<close>

type_synonym path = "cpp_string list"

datatype node = Dir | File "byte list"

datatype fs_error = ENOENT | ENOTDIR | ENOTEMPTY | EINVAL | EBUSY

record filesys =
  entries :: "(path \<times> node) list"
  cwd :: path

definition slash :: byte where "slash = 47"

definition dot :: cpp_string where "dot = [46]"

definition dotdot :: cpp_string where "dotdot = [46, 46]"

fun split_slash :: "cpp_string \<Rightarrow> cpp_string list" where
  "split_slash [] = [[]]"
| "split_slash (c # cs) =
     (if c = slash then [] # split_slash cs
      else (case split_slash cs of [] \<Rightarrow> [[c]] | x # xs \<Rightarrow> (c # x) # xs))"

definition lookup :: "filesys \<Rightarrow> path \<Rightarrow> node option" where
  "lookup fs p = (if p = [] then Some Dir else map_of (entries fs) p)"

text \<open>
  Path resolution as the operating system does it: every component is looked up in a
  directory, an empty component or a dot stays, two dots go to the parent. The last component
  need not exist.
\<close>

fun walk :: "filesys \<Rightarrow> path \<Rightarrow> cpp_string list \<Rightarrow> fs_error + path" where
  "walk fs cur [] = Inr cur"
| "walk fs cur (c # cs) =
     (case lookup fs cur of
        None \<Rightarrow> Inl ENOENT
      | Some (File _) \<Rightarrow> Inl ENOTDIR
      | Some Dir \<Rightarrow>
          if c = [] \<or> c = dot then walk fs cur cs
          else if c = dotdot then walk fs (butlast cur) cs
          else walk fs (cur @ [c]) cs)"

definition start_dir :: "filesys \<Rightarrow> cpp_string \<Rightarrow> path" where
  "start_dir fs s = (if s \<noteq> [] \<and> hd s = slash then [] else cwd fs)"

definition resolve :: "filesys \<Rightarrow> cpp_string \<Rightarrow> fs_error + path" where
  "resolve fs s = walk fs (start_dir fs s) (split_slash s)"

section \<open>Files\<close>

text \<open>
  An output stream opened on a path: \<open>None\<close> when the open failed, and every later write is
  then dropped. Opening truncates.
\<close>

definition open_out :: "filesys \<Rightarrow> cpp_string \<Rightarrow> path option \<times> filesys" where
  "open_out fs s =
     (case resolve fs s of
        Inl _ \<Rightarrow> (None, fs)
      | Inr p \<Rightarrow> (case lookup fs p of
            Some Dir \<Rightarrow> (None, fs)
          | _ \<Rightarrow> (Some p, fs\<lparr>entries := AList.update p (File []) (entries fs)\<rparr>)))"

definition write_out :: "path option \<Rightarrow> byte list \<Rightarrow> filesys \<Rightarrow> filesys" where
  "write_out h bs fs =
     (case h of
        None \<Rightarrow> fs
      | Some p \<Rightarrow> (case lookup fs p of
            Some (File old) \<Rightarrow> fs\<lparr>entries := AList.update p (File (old @ bs)) (entries fs)\<rparr>
          | _ \<Rightarrow> fs))"

text \<open>
  An input stream with its state bits. A directory can be opened for reading; reading from it
  sets the bad bit and never the end-of-file bit. A read that runs into the end of the file
  delivers what is left and sets the end-of-file and fail bits; a stream with any bit set
  delivers nothing.
\<close>

datatype in_source = Regular "byte list" | Directory

record ifstream =
  in_src :: in_source
  eofbit :: bool
  failbit :: bool
  badbit :: bool

definition open_in :: "filesys \<Rightarrow> cpp_string \<Rightarrow> ifstream" where
  "open_in fs s =
     (case resolve fs s of
        Inl _ \<Rightarrow> \<lparr>in_src = Regular [], eofbit = False, failbit = True, badbit = False\<rparr>
      | Inr p \<Rightarrow> (case lookup fs p of
            None \<Rightarrow> \<lparr>in_src = Regular [], eofbit = False, failbit = True, badbit = False\<rparr>
          | Some (File bs) \<Rightarrow>
              \<lparr>in_src = Regular bs, eofbit = False, failbit = False, badbit = False\<rparr>
          | Some Dir \<Rightarrow> \<lparr>in_src = Directory, eofbit = False, failbit = False, badbit = False\<rparr>))"

definition stream_ok :: "ifstream \<Rightarrow> bool" where
  "stream_ok f \<longleftrightarrow> \<not> (failbit f \<or> badbit f)"

definition read_in :: "nat \<Rightarrow> ifstream \<Rightarrow> byte list \<times> ifstream" where
  "read_in n f =
     (if eofbit f \<or> failbit f \<or> badbit f then ([], f\<lparr>failbit := True\<rparr>)
      else (case in_src f of
          Directory \<Rightarrow> ([], f\<lparr>badbit := True\<rparr>)
        | Regular rest \<Rightarrow>
            (take n rest, f\<lparr>in_src := Regular (drop n rest),
                            eofbit := (length rest < n), failbit := (length rest < n)\<rparr>)))"

section \<open>Directories\<close>

definition children :: "filesys \<Rightarrow> path \<Rightarrow> cpp_string list" where
  "children fs d = map last (filter (\<lambda>p. p \<noteq> [] \<and> butlast p = d) (map fst (entries fs)))"

definition directory_names :: "filesys \<Rightarrow> cpp_string \<Rightarrow> fs_error + cpp_string list" where
  "directory_names fs s =
     (case resolve fs s of
        Inl e \<Rightarrow> Inl e
      | Inr d \<Rightarrow> (case lookup fs d of
            None \<Rightarrow> Inl ENOENT
          | Some (File _) \<Rightarrow> Inl ENOTDIR
          | Some Dir \<Rightarrow> Inr (children fs d)))"

fun make_dirs :: "filesys \<Rightarrow> path \<Rightarrow> cpp_string list \<Rightarrow> fs_error + filesys" where
  "make_dirs fs cur [] = Inr fs"
| "make_dirs fs cur (c # cs) =
     (if c = [] \<or> c = dot then make_dirs fs cur cs
      else if c = dotdot then make_dirs fs (butlast cur) cs
      else (case lookup fs (cur @ [c]) of
          Some Dir \<Rightarrow> make_dirs fs (cur @ [c]) cs
        | Some (File _) \<Rightarrow> Inl ENOTDIR
        | None \<Rightarrow> make_dirs (fs\<lparr>entries := entries fs @ [(cur @ [c], Dir)]\<rparr>) (cur @ [c]) cs))"

definition create_directories :: "filesys \<Rightarrow> cpp_string \<Rightarrow> fs_error + filesys" where
  "create_directories fs s = make_dirs fs (start_dir fs s) (split_slash s)"

text \<open>
  \<open>std::filesystem::remove\<close>: \<open>Inr False\<close> when there is nothing of that name, \<open>Inl\<close> for
  the errors it throws.
\<close>

definition remove_path :: "filesys \<Rightarrow> cpp_string \<Rightarrow> fs_error + bool \<times> filesys" where
  "remove_path fs s =
     (case resolve fs s of
        Inl ENOENT \<Rightarrow> Inr (False, fs)
      | Inl e \<Rightarrow> Inl e
      | Inr p \<Rightarrow> (case lookup fs p of
            None \<Rightarrow> Inr (False, fs)
          | Some (File _) \<Rightarrow> Inr (True, fs\<lparr>entries := AList.delete p (entries fs)\<rparr>)
          | Some Dir \<Rightarrow>
              if p = [] then Inl EBUSY
              else if last (split_slash s) = dot then Inl EINVAL
              else if last (split_slash s) = dotdot \<or> children fs p \<noteq> [] then Inl ENOTEMPTY
              else Inr (True, fs\<lparr>entries := AList.delete p (entries fs)\<rparr>)))"

section \<open>Lookups after an operation\<close>

lemma lookup_update:
  "p \<noteq> [] \<Longrightarrow> lookup (fs\<lparr>entries := AList.update p n (entries fs)\<rparr>) q =
     (if q = p then Some n else lookup fs q)"
  by (simp add: lookup_def update_conv')

lemma lookup_delete:
  "p \<noteq> [] \<Longrightarrow> lookup (fs\<lparr>entries := AList.delete p (entries fs)\<rparr>) q =
     (if q = p then None else lookup fs q)"
  by (simp add: lookup_def delete_conv')

lemma lookup_cwd [simp]: "lookup (fs\<lparr>cwd := d\<rparr>) = lookup fs"
  by (simp add: lookup_def fun_eq_iff)

lemma lookup_snoc_update:
  "lookup fs p = None \<Longrightarrow> lookup (fs\<lparr>entries := entries fs @ [(p, n)]\<rparr>) q =
     (if q = p then Some n else lookup fs q)"
  by (auto simp: lookup_def map_add_def split: option.splits if_splits)

lemma lookup_write_out:
  assumes "lookup fs p = Some (File old)"
  shows "lookup (write_out (Some p) bs fs) q =
     (if q = p then Some (File (old @ bs)) else lookup fs q)"
proof -
  from assms have "p \<noteq> []" by (auto simp: lookup_def)
  with assms show ?thesis by (simp add: write_out_def lookup_update)
qed

lemma lookup_write_out_other: "h \<noteq> Some q \<Longrightarrow> lookup (write_out h bs fs) q = lookup fs q"
  by (cases "h")
    (auto simp: write_out_def lookup_def update_conv' split: option.splits node.splits)

lemma open_outD:
  assumes "open_out fs s = (Some p, fs')"
  shows "resolve fs s = Inr p" "p \<noteq> []" "lookup fs' p = Some (File [])"
    "\<And>q. q \<noteq> p \<Longrightarrow> lookup fs' q = lookup fs q"
proof -
  from assms have r: "resolve fs s = Inr p" and d: "lookup fs p \<noteq> Some Dir"
    and f: "fs' = fs\<lparr>entries := AList.update p (File []) (entries fs)\<rparr>"
    by (auto simp: open_out_def split: sum.splits option.splits node.splits)
  from d have ne: "p \<noteq> []" by (auto simp: lookup_def)
  show "resolve fs s = Inr p" "p \<noteq> []" "lookup fs' p = Some (File [])"
    "\<And>q. q \<noteq> p \<Longrightarrow> lookup fs' q = lookup fs q"
    by (simp_all add: r ne f lookup_update)
qed

lemma open_out_ok:
  "resolve fs s = Inr p \<Longrightarrow> lookup fs p \<noteq> Some Dir \<Longrightarrow>
     open_out fs s = (Some p, fs\<lparr>entries := AList.update p (File []) (entries fs)\<rparr>)"
  by (auto simp: open_out_def split: option.splits node.splits)

lemma open_out_failed: "open_out fs s = (None, fs') \<Longrightarrow> fs' = fs"
  by (auto simp: open_out_def split: sum.splits option.splits node.splits)

lemma AList_update_same: "map_of al k = Some v \<Longrightarrow> AList.update k v al = al"
  by (induction al) (auto split: if_splits)

lemma AList_update_twice: "AList.update k v (AList.update k u al) = AList.update k v al"
  by (induction al) auto

lemma write_out_Nil [simp]: "write_out h [] fs = fs"
  by (cases h)
    (auto simp: write_out_def lookup_def AList_update_same split: option.splits node.splits if_splits)

lemma write_out_append: "write_out h b (write_out h a fs) = write_out h (a @ b) fs"
proof (cases "\<exists>p old. h = Some p \<and> lookup fs p = Some (File old)")
  case True
  then obtain p old where p: "h = Some p" "lookup fs p = Some (File old)" by blast
  from lookup_write_out [OF p(2), of a p] p show ?thesis
    by (simp add: write_out_def AList_update_twice)
next
  case False
  then have "write_out h x fs = fs" for x
    by (auto simp: write_out_def split: option.splits node.splits)
  then show ?thesis by simp
qed

lemma cwd_write_out [simp]: "cwd (write_out h bs fs) = cwd fs"
  by (simp add: write_out_def split: option.splits node.splits)

lemma cwd_open_out: "open_out fs s = (h, fs') \<Longrightarrow> cwd fs' = cwd fs"
  by (auto simp: open_out_def split: sum.splits option.splits node.splits)

text \<open>Path resolution only looks at directories.\<close>

lemma walk_keep_dirs:
  assumes "\<And>r. lookup fs r = Some Dir \<Longrightarrow> lookup fs' r = Some Dir"
  shows "walk fs cur cs = Inr p \<Longrightarrow> walk fs' cur cs = Inr p"
  using assms by (induction fs cur cs rule: walk.induct) (auto split: option.splits node.splits if_splits)

lemma resolve_keep_dirs:
  assumes "\<And>r. lookup fs r = Some Dir \<Longrightarrow> lookup fs' r = Some Dir" "cwd fs' = cwd fs" "resolve fs s = Inr p"
  shows "resolve fs' s = Inr p"
proof -
  have "start_dir fs' s = start_dir fs s" using assms(2) by (simp add: start_dir_def)
  with walk_keep_dirs [of fs fs' "start_dir fs s" "split_slash s" p] assms(1,3) show ?thesis
    by (simp add: resolve_def)
qed

section \<open>Plain names resolve inside their directory\<close>

text \<open>
  A plain name has no separator and is neither empty nor one of the two dot names.
\<close>

definition plain_name :: "cpp_string \<Rightarrow> bool" where
  "plain_name s \<longleftrightarrow> slash \<notin> set s \<and> s \<noteq> [] \<and> s \<noteq> dot \<and> s \<noteq> dotdot"

lemma split_slash_nonempty [simp]: "split_slash s \<noteq> []"
  by (induction s) (auto split: list.splits)

lemma split_slash_plain: "slash \<notin> set s \<Longrightarrow> split_slash s = [s]"
  by (induction s) auto

lemma split_slash_append: "split_slash (a @ slash # b) = split_slash a @ split_slash b"
  by (induction a) (auto split: list.splits)

lemma walk_append:
  "walk fs cur (xs @ ys) = (case walk fs cur xs of Inl e \<Rightarrow> Inl e | Inr p \<Rightarrow> walk fs p ys)"
  by (induction fs cur xs rule: walk.induct) (auto split: option.splits node.splits)

text \<open>Below a directory, the last part of a path string is walked from there.\<close>

lemma resolve_dir_append:
  assumes "resolve fs (d @ [slash]) = Inr p" "d \<noteq> []"
  shows "resolve fs (d @ slash # s) = walk fs p (split_slash s)"
proof -
  let ?from = "start_dir fs d"
  have st: "start_dir fs (d @ t) = ?from" for t
    using assms(2) by (simp add: start_dir_def)
  have "split_slash (d @ [slash]) = split_slash d @ [[]]"
    using split_slash_append [of d "[]"] by simp
  with assms(1) have w: "walk fs ?from (split_slash d @ [[]]) = Inr p"
    by (simp add: resolve_def st)
  then obtain q where q: "walk fs ?from (split_slash d) = Inr q" "walk fs q [[]] = Inr p"
    by (auto simp add: walk_append simp del: walk.simps split: sum.splits)
  then have "q = p" by (auto split: option.splits node.splits)
  with q(1) show ?thesis by (simp add: resolve_def st split_slash_append walk_append)
qed

lemma resolve_below:
  assumes "resolve fs (d @ [slash]) = Inr p" "lookup fs p = Some Dir" "d \<noteq> []" "plain_name s"
  shows "resolve fs (d @ slash # s) = Inr (p @ [s])"
  using assms by (simp add: resolve_dir_append split_slash_plain plain_name_def)

lemma resolve_dot:
  assumes "resolve fs (d @ [slash]) = Inr p" "lookup fs p = Some Dir" "d \<noteq> []"
  shows "resolve fs (d @ slash # dot) = Inr p"
proof -
  have "slash \<notin> set dot" by (simp add: dot_def slash_def)
  with assms show ?thesis by (simp add: resolve_dir_append split_slash_plain)
qed

section \<open>The tree stays well formed\<close>

text \<open>
  No path is listed twice, the root is not listed, and every listed path has a directory as
  its parent.
\<close>

definition fs_ok :: "filesys \<Rightarrow> bool" where
  "fs_ok fs \<longleftrightarrow> distinct (map fst (entries fs)) \<and> [] \<notin> fst ` set (entries fs) \<and>
     (\<forall>p \<in> fst ` set (entries fs). lookup fs (butlast p) = Some Dir)"

lemma lookup_in_entries: "p \<noteq> [] \<Longrightarrow> lookup fs p \<noteq> None \<longleftrightarrow> p \<in> fst ` set (entries fs)"
  by (simp add: lookup_def dom_map_of_conv_image_fst [symmetric] domIff)

text \<open>No path is ever listed twice, so a directory iterator reports every name once.\<close>

definition keys_once :: "filesys \<Rightarrow> bool" where
  "keys_once fs \<longleftrightarrow> distinct (map fst (entries fs))"

lemma keys_once_write_out [simp]: "keys_once fs \<Longrightarrow> keys_once (write_out h bs fs)"
  by (auto simp: keys_once_def write_out_def distinct_update split: option.splits node.splits)

lemma keys_once_open_out: "open_out fs s = (h, fs') \<Longrightarrow> keys_once fs \<Longrightarrow> keys_once fs'"
  by (auto simp: keys_once_def open_out_def distinct_update split: sum.splits option.splits node.splits)

lemma keys_once_remove: "remove_path fs s = Inr (b, fs') \<Longrightarrow> keys_once fs \<Longrightarrow> keys_once fs'"
  by (auto simp: keys_once_def remove_path_def distinct_delete
      split: sum.splits option.splits node.splits fs_error.splits if_splits)

lemma cwd_remove: "remove_path fs s = Inr (b, fs') \<Longrightarrow> cwd fs' = cwd fs"
  by (auto simp: remove_path_def split: sum.splits option.splits node.splits fs_error.splits if_splits)

lemma set_children: "set (children fs d) = {n. lookup fs (d @ [n]) \<noteq> None}"
proof -
  have "n \<in> set (children fs d) \<longleftrightarrow> d @ [n] \<in> fst ` set (entries fs)" for n
  proof -
    have "n \<in> set (children fs d) \<longleftrightarrow> (\<exists>p \<in> fst ` set (entries fs). p \<noteq> [] \<and> butlast p = d \<and> last p = n)"
      by (auto simp: children_def)
    then show ?thesis by (simp only: snoc_eq_iff_butlast [symmetric]) blast
  qed
  then show ?thesis using lookup_in_entries by auto
qed

lemma distinct_children:
  assumes "keys_once fs"
  shows "distinct (children fs d)"
proof -
  have "x = y" if "x \<noteq> []" "butlast x = d" "y \<noteq> []" "butlast y = d" "last x = last y" for x y :: path
    using that append_butlast_last_id [of x] append_butlast_last_id [of y] by simp
  then have "inj_on last (set (filter (\<lambda>p. p \<noteq> [] \<and> butlast p = d) (map fst (entries fs))))"
    by (intro inj_onI) simp
  with assms show ?thesis unfolding children_def keys_once_def by (simp add: distinct_map)
qed

lemma walk_parent:
  assumes "fs_ok fs" "walk fs cur cs = Inr p" "lookup fs (butlast cur) = Some Dir"
  shows "lookup fs (butlast p) = Some Dir"
  using assms
proof (induction fs cur cs rule: walk.induct)
  case (1 fs cur)
  then show ?case by simp
next
  case (2 fs cur c cs)
  have up: "lookup fs (butlast (butlast cur)) = Some Dir"
  proof (cases "butlast cur = []")
    case True
    then show ?thesis by (simp add: lookup_def)
  next
    case False
    with "2.prems"(1,3) show ?thesis
      using lookup_in_entries [of "butlast cur" fs] by (auto simp: fs_ok_def)
  qed
  from "2.prems" "2.IH" up show ?case
    by (auto split: option.splits node.splits if_splits)
qed

lemma fs_ok_update_file:
  assumes "fs_ok fs" "p \<noteq> []" "lookup fs p \<noteq> Some Dir" "lookup fs (butlast p) = Some Dir"
  shows "fs_ok (fs\<lparr>entries := AList.update p (File bs) (entries fs)\<rparr>)"
proof -
  let ?fs = "fs\<lparr>entries := AList.update p (File bs) (entries fs)\<rparr>"
  have keys: "fst ` set (entries ?fs) = insert p (fst ` set (entries fs))"
    by (simp add: dom_map_of_conv_image_fst [symmetric] update_conv')
  have "lookup ?fs (butlast q) = Some Dir" if "q \<in> insert p (fst ` set (entries fs))" for q
  proof -
    from that assms have "lookup fs (butlast q) = Some Dir" by (auto simp: fs_ok_def)
    moreover from this assms(3) have "butlast q \<noteq> p" by auto
    ultimately show ?thesis using assms(2) by (simp add: lookup_update)
  qed
  with assms keys show ?thesis by (auto simp: fs_ok_def distinct_update)
qed

lemma fs_ok_delete:
  assumes "fs_ok fs" "p \<noteq> []" "children fs p = []"
  shows "fs_ok (fs\<lparr>entries := AList.delete p (entries fs)\<rparr>)"
proof -
  let ?fs = "fs\<lparr>entries := AList.delete p (entries fs)\<rparr>"
  have keys: "fst ` set (entries ?fs) = fst ` set (entries fs) - {p}"
    by (simp add: dom_map_of_conv_image_fst [symmetric] delete_conv')
  have "lookup ?fs (butlast q) = Some Dir" if "q \<in> fst ` set (entries fs)" for q
  proof -
    from that assms have "lookup fs (butlast q) = Some Dir" by (auto simp: fs_ok_def)
    moreover from that assms have "butlast q \<noteq> p"
      by (auto simp: children_def filter_empty_conv fs_ok_def)
    ultimately show ?thesis using assms(2) by (simp add: lookup_delete)
  qed
  with assms keys show ?thesis by (auto simp: fs_ok_def distinct_delete)
qed

lemma fs_ok_parent:
  assumes "fs_ok fs" "lookup fs p = Some Dir"
  shows "lookup fs (butlast p) = Some Dir"
proof (cases "p = []")
  case False
  with assms show ?thesis using lookup_in_entries [of p fs] by (auto simp: fs_ok_def)
qed (simp add: lookup_def)

lemma resolve_start: "resolve fs s = Inr p \<Longrightarrow> lookup fs (start_dir fs s) = Some Dir"
  by (cases "split_slash s") (auto simp: resolve_def split: option.splits node.splits)

lemma resolve_parent: "fs_ok fs \<Longrightarrow> resolve fs s = Inr p \<Longrightarrow> lookup fs (butlast p) = Some Dir"
  using walk_parent fs_ok_parent [OF _ resolve_start] by (auto simp: resolve_def)

lemma fs_ok_open_out:
  assumes "fs_ok fs"
  shows "fs_ok (snd (open_out fs s))"
proof (cases "resolve fs s")
  case (Inr p)
  with assms resolve_parent [OF assms Inr] show ?thesis
    by (cases "p = []") (auto simp: open_out_def lookup_def intro!: fs_ok_update_file
        split: option.splits node.splits)
qed (use assms in \<open>simp add: open_out_def\<close>)

lemma fs_ok_write_out:
  assumes "fs_ok fs"
  shows "fs_ok (write_out h bs fs)"
proof (cases "\<exists>p old. h = Some p \<and> lookup fs p = Some (File old)")
  case True
  then obtain p old where p: "h = Some p" "lookup fs p = Some (File old)" by blast
  then have "p \<noteq> []" by (auto simp: lookup_def)
  moreover from this have "lookup fs (butlast p) = Some Dir"
    using assms p(2) lookup_in_entries [of p fs] by (auto simp: fs_ok_def)
  ultimately show ?thesis using assms p by (simp add: write_out_def fs_ok_update_file)
qed (use assms in \<open>auto simp: write_out_def split: option.splits node.splits\<close>)

lemma fs_ok_no_children: "fs_ok fs \<Longrightarrow> lookup fs p \<noteq> Some Dir \<Longrightarrow> children fs p = []"
  by (auto simp: fs_ok_def children_def filter_empty_conv)

lemma fs_ok_remove:
  assumes "fs_ok fs" "remove_path fs s = Inr (b, fs')"
  shows "fs_ok fs'"
proof (cases "fs' = fs")
  case False
  with assms(2) obtain p where p: "fs' = fs\<lparr>entries := AList.delete p (entries fs)\<rparr>"
    "p \<noteq> [] \<and> children fs p = [] \<or> (\<exists>bs. lookup fs p = Some (File bs))"
    by (auto simp: remove_path_def split: sum.splits option.splits node.splits fs_error.splits if_splits)
  then have "p \<noteq> []" "children fs p = []" using fs_ok_no_children [OF assms(1), of p] by (auto simp: lookup_def)
  with fs_ok_delete [OF assms(1)] p(1) show ?thesis by simp
qed (use assms in simp)

lemma fs_ok_make_dir:
  assumes "fs_ok fs" "lookup fs cur = Some Dir" "lookup fs (cur @ [c]) = None"
  shows "fs_ok (fs\<lparr>entries := entries fs @ [(cur @ [c], Dir)]\<rparr>)" (is "fs_ok ?fs")
proof -
  have l: "lookup ?fs q = (if q = cur @ [c] then Some Dir else lookup fs q)" for q
    using lookup_snoc_update [OF assms(3)] by simp
  have "cur @ [c] \<notin> fst ` set (entries fs)" using assms(3) lookup_in_entries [of "cur @ [c]" fs] by auto
  moreover have "lookup ?fs (butlast p) = Some Dir" if "p \<in> fst ` set (entries ?fs)" for p
    using that assms(1,2) by (auto simp: l fs_ok_def)
  ultimately show ?thesis using assms(1) by (auto simp: fs_ok_def)
qed

lemma make_dirs_ok:
  assumes "fs_ok fs" "lookup fs cur = Some Dir" "make_dirs fs cur cs = Inr fs'"
  shows "fs_ok fs' \<and> cwd fs' = cwd fs \<and> (\<forall>p. lookup fs p = Some Dir \<longrightarrow> lookup fs' p = Some Dir)"
  using assms
proof (induction fs cur cs rule: make_dirs.induct)
  case (2 fs cur c cs)
  let ?fs = "fs\<lparr>entries := entries fs @ [(cur @ [c], Dir)]\<rparr>"
  show ?case
  proof (cases "c = [] \<or> c = dot \<or> c = dotdot \<or> lookup fs (cur @ [c]) \<noteq> None")
    case True
    with 2 fs_ok_parent [OF "2.prems"(1,2)] show ?thesis
      by (auto split: option.splits node.splits if_splits)
  next
    case False
    then have n: "lookup fs (cur @ [c]) = None" by simp
    have "fs_ok ?fs" "lookup ?fs (cur @ [c]) = Some Dir" "\<forall>p. lookup fs p = Some Dir \<longrightarrow> lookup ?fs p = Some Dir"
      using fs_ok_make_dir [OF "2.prems"(1,2) n] lookup_snoc_update [OF n] by simp_all
    with 2 False n show ?thesis by auto
  qed
qed simp

text \<open>A well-formed tree in which the working directory exists.\<close>

definition tree_ok :: "filesys \<Rightarrow> bool" where
  "tree_ok fs \<longleftrightarrow> fs_ok fs \<and> lookup fs (cwd fs) = Some Dir"

end
