(* ===== verification/Sock_IO.thy ===== *)
theory Sock_IO
  imports Sodium_API File_System
begin

text \<open>
  The environment of one running connection (\<open>world\<close>), the system calls on its socket, and
  the code that reads and writes whole records on it: \<open>recv_fully\<close>
  (\<open>SessionEnc.cpp\<close>) and \<open>send_raw_blob\<close>, \<open>recv_raw_blob\<close>
  (\<open>encryption_utils.cpp\<close>). The interface \<open>wire_format\<close> states what a reader promises
  about the bytes a writer produced, however the network cuts them into pieces.
\<close>

section \<open>The environment of a connection\<close>

text \<open>
  What the peer's bytes look like from this side: the pieces \<open>recv\<close> will hand out and the
  errors it will report, in order, and what happens once they are used up (the peer has closed,
  the receive timeout of the socket expires, or the call blocks for ever).
\<close>

datatype rx_event = Seg "byte list" | Recv_Error int

datatype rx_end = Peer_Closed | Timed_Out | Stalled

text \<open>
  What \<open>send\<close> will do: accept at most so many bytes, or report an error. Once the plan is
  used up it accepts everything.
\<close>

datatype tx_event = Accepts nat | Send_Error int

record world =
  rx :: "rx_event list"
  rx_last :: rx_end
  errno :: int
  tx :: "byte list"
  tx_plan :: "tx_event list"
  rnd :: "nat \<Rightarrow> byte"
  rnd_pos :: nat
  junk :: "nat \<Rightarrow> byte"
  disk :: filesys
  cin_rest :: "byte list"
  cin_fail :: bool
  cout :: "cpp_string list"
  c_lflag :: "32 word"

definition EINTR :: int where "EINTR = 4"
definition EAGAIN :: int where "EAGAIN = 11"

text \<open>An environment in which nothing is pending and nothing goes wrong.\<close>

definition idle_world :: world where
  "idle_world = \<lparr>rx = [], rx_last = Stalled, errno = 0, tx = [], tx_plan = [], rnd = (\<lambda>_. 0),
     rnd_pos = 0, junk = (\<lambda>_. 0), disk = \<lparr>entries = [], cwd = []\<rparr>, cin_rest = [],
     cin_fail = False, cout = [], c_lflag = 8\<rparr>"

text \<open>The contents of a local buffer nobody has written yet are whatever the stack held.\<close>

definition uninit :: "nat \<Rightarrow> world \<Rightarrow> byte list" where
  "uninit n w = map (junk w) [0..<n]"

definition randombytes_buf :: "nat \<Rightarrow> world \<Rightarrow> byte list \<times> world" where
  "randombytes_buf n w =
     (map (\<lambda>i. rnd w (rnd_pos w + i)) [0..<n], w\<lparr>rnd_pos := rnd_pos w + n\<rparr>)"

text \<open>
  \<open>recv\<close>: the return value, the bytes stored, and the environment afterwards. What a call
  does not take of a piece stays pending.
\<close>

definition after_piece :: "nat \<Rightarrow> byte list \<Rightarrow> rx_event list \<Rightarrow> rx_event list" where
  "after_piece len bs es = (if drop len bs = [] then es else Seg (drop len bs) # es)"

definition recv :: "nat \<Rightarrow> world \<Rightarrow> ((int \<times> byte list) \<times> world) run" where
  "recv len w =
     (case rx w of
        Seg bs # es \<Rightarrow>
          ret ((int (length (take len bs)), take len bs),
               w\<lparr>rx := after_piece len bs es\<rparr>)
      | Recv_Error e # es \<Rightarrow> ret ((- 1, []), w\<lparr>rx := es, errno := e\<rparr>)
      | [] \<Rightarrow> (case rx_last w of
            Peer_Closed \<Rightarrow> ret ((0, []), w)
          | Timed_Out \<Rightarrow> ret ((- 1, []), w\<lparr>errno := EAGAIN\<rparr>)
          | Stalled \<Rightarrow> None))"

definition send :: "byte list \<Rightarrow> world \<Rightarrow> int \<times> world" where
  "send bs w =
     (case tx_plan w of
        [] \<Rightarrow> (int (length bs), w\<lparr>tx := tx w @ bs\<rparr>)
      | Accepts k # ps \<Rightarrow>
          (int (length (take k bs)), w\<lparr>tx := tx w @ take k bs, tx_plan := ps\<rparr>)
      | Send_Error e # ps \<Rightarrow> (- 1, w\<lparr>errno := e, tx_plan := ps\<rparr>))"

section \<open>Whole records on the socket\<close>

text \<open>
  \<open>recv_fully\<close> of the source: the loop runs while bytes are missing; a result that is not
  positive ends it unless \<open>errno\<close> reads \<open>EINTR\<close> at that moment. The second argument
  collects the bytes stored so far.
\<close>

partial_function (option) recv_loop ::
    "nat \<Rightarrow> byte list \<Rightarrow> world \<Rightarrow> ((bool \<times> byte list) \<times> world) run" where
  "recv_loop len dest w =
     (if 0 < len then
        andthen (recv len w) (\<lambda>((received, bs), w').
          if received \<le> 0 then
            (if errno w' = EINTR then recv_loop len dest w' else ret ((False, dest), w'))
          else recv_loop (len - length bs) (dest @ bs) w')
      else ret ((True, dest), w))"

definition recv_fully :: "nat \<Rightarrow> world \<Rightarrow> ((bool \<times> byte list) \<times> world) run" where
  "recv_fully len w = recv_loop len [] w"

definition send_raw_blob :: "byte list \<Rightarrow> world \<Rightarrow> int \<times> world" where
  "send_raw_blob data w =
     (let (sent, w) = send (u64_bytes (word_of_nat (length data))) w in
      if sent \<noteq> 8 then (1, w)
      else if 0 < length data then
        (let (sent, w) = send data w in
         if sent \<noteq> int (length data) then (1, w) else (0, w))
      else (0, w))"

definition recv_raw_blob :: "nat \<Rightarrow> world \<Rightarrow> ((int \<times> byte list) \<times> world) run" where
  "recv_raw_blob cap w =
     andthen (recv_fully 8 w) (\<lambda>((ok, nb), w).
       if \<not> ok then ret ((1, []), w)
       else (let n = u64_of_bytes nb in
         if cap < unat n then ret ((1, []), w)
         else if 0 < unat n then
           andthen (recv_fully (unat n) w) (\<lambda>((ok, bs), w).
             if \<not> ok then ret ((1, bs), w) else ret ((0, bs), w))
         else ret ((0, []), w)))"

section \<open>What arrives\<close>

text \<open>
  The bytes that will arrive, in order, whatever the pieces; a benign input has only
  non-empty pieces and interrupted calls in it.
\<close>

fun rx_data :: "rx_event list \<Rightarrow> byte list" where
  "rx_data [] = []"
| "rx_data (Seg bs # es) = bs @ rx_data es"
| "rx_data (Recv_Error e # es) = rx_data es"

fun benign :: "rx_event list \<Rightarrow> bool" where
  "benign [] = True"
| "benign (Seg bs # es) = (bs \<noteq> [] \<and> benign es)"
| "benign (Recv_Error e # es) = (e = EINTR \<and> benign es)"

fun rx_size :: "rx_event list \<Rightarrow> nat" where
  "rx_size [] = 0"
| "rx_size (Seg bs # es) = Suc (length bs) + rx_size es"
| "rx_size (Recv_Error e # es) = Suc (rx_size es)"

definition feeds :: "world \<Rightarrow> byte list \<Rightarrow> bool" where
  "feeds w bs \<longleftrightarrow> benign (rx w) \<and> rx_data (rx w) = bs"

text \<open>Reading changes the pending input and \<open>errno\<close>, nothing else.\<close>

definition only_rx :: "world \<Rightarrow> world \<Rightarrow> bool" where
  "only_rx w w' \<longleftrightarrow> w' = w\<lparr>rx := rx w', errno := errno w'\<rparr>"

lemma only_rx_refl [simp]: "only_rx w w"
  by (simp add: only_rx_def)

lemma only_rx_trans: "only_rx u v \<Longrightarrow> only_rx v w \<Longrightarrow> only_rx u w"
  unfolding only_rx_def by (metis (no_types, lifting) world.surjective world.update_convs(1,3))

lemma only_rx_upd [simp]:
  "only_rx w (w\<lparr>rx := es\<rparr>)" "only_rx w (w\<lparr>errno := e\<rparr>)" "only_rx w (w\<lparr>rx := es, errno := e\<rparr>)"
  by (simp_all add: only_rx_def)

lemma only_rx_disk: "only_rx w w' \<Longrightarrow> only_rx (w\<lparr>disk := d\<rparr>) (w'\<lparr>disk := d\<rparr>)"
  by (cases w; cases w') (auto simp: only_rx_def)

lemma only_rx_tx: "only_rx w w' \<Longrightarrow> only_rx (w\<lparr>tx := t\<rparr>) (w'\<lparr>tx := t\<rparr>)"
  by (cases w; cases w') (auto simp: only_rx_def)

lemma only_rx_rnd: "only_rx w w' \<Longrightarrow> only_rx (w\<lparr>rnd_pos := n\<rparr>) (w'\<lparr>rnd_pos := n\<rparr>)"
  by (cases w; cases w') (auto simp: only_rx_def)

lemma only_rx_cin: "only_rx w w' \<Longrightarrow> only_rx (w\<lparr>cin_rest := xs\<rparr>) (w'\<lparr>cin_rest := xs\<rparr>)"
  by (cases w; cases w') (auto simp: only_rx_def)

lemma only_rx_cout: "only_rx w w' \<Longrightarrow> only_rx (w\<lparr>cout := xs\<rparr>) (w'\<lparr>cout := xs\<rparr>)"
  by (cases w; cases w') (auto simp: only_rx_def)

lemma only_rx_sym: "only_rx w w' \<Longrightarrow> only_rx w' w"
  by (cases w; cases w') (auto simp: only_rx_def)

lemma feeds_disk [simp]: "feeds (w\<lparr>disk := d\<rparr>) bs = feeds w bs"
  by (simp add: feeds_def)

lemma only_rx_fields:
  assumes "only_rx w w'"
  shows "tx w' = tx w" "tx_plan w' = tx_plan w" "rnd w' = rnd w" "rnd_pos w' = rnd_pos w"
    "junk w' = junk w" "disk w' = disk w" "rx_last w' = rx_last w" "cin_rest w' = cin_rest w"
    "cin_fail w' = cin_fail w" "cout w' = cout w" "uninit n w' = uninit n w"
proof -
  from assms have e: "w' = w\<lparr>rx := rx w', errno := errno w'\<rparr>" by (simp add: only_rx_def)
  show "tx w' = tx w" "tx_plan w' = tx_plan w" "rnd w' = rnd w" "rnd_pos w' = rnd_pos w"
    "junk w' = junk w" "disk w' = disk w" "rx_last w' = rx_last w" "cin_rest w' = cin_rest w"
    "cin_fail w' = cin_fail w" "cout w' = cout w" "uninit n w' = uninit n w"
    by (subst e, simp add: uninit_def)+
qed

lemma length_uninit [simp]: "length (uninit n w) = n"
  by (simp add: uninit_def)

lemma length_randombytes [simp]: "length (fst (randombytes_buf n w)) = n"
  by (simp add: randombytes_buf_def)

section \<open>Correctness of the read loop\<close>

lemma recv_loop_0 [simp]: "recv_loop 0 dest w = ret ((True, dest), w)"
  by (subst recv_loop.simps) simp

lemma recv_loop_interrupted:
  "rx w = Recv_Error EINTR # es \<Longrightarrow>
     recv_loop (Suc n) dest w = recv_loop (Suc n) dest (w\<lparr>rx := es, errno := EINTR\<rparr>)"
  by (subst recv_loop.simps) (simp add: recv_def)

lemma recv_loop_piece:
  "rx w = Seg bs # es \<Longrightarrow> bs \<noteq> [] \<Longrightarrow>
     recv_loop (Suc n) dest w = recv_loop (Suc n - length (take (Suc n) bs)) (dest @ take (Suc n) bs)
       (w\<lparr>rx := after_piece (Suc n) bs es\<rparr>)"
  by (subst recv_loop.simps) (cases bs; simp add: recv_def)

lemma after_piece_data: "take n bs @ rx_data (after_piece n bs es) = bs @ rx_data es"
  by (simp add: after_piece_def)

lemma after_piece_benign: "benign es \<Longrightarrow> benign (after_piece n bs es)"
  by (simp add: after_piece_def)

lemma after_piece_size: "bs \<noteq> [] \<Longrightarrow> rx_size (after_piece (Suc n) bs es) < Suc (length bs + rx_size es)"
  by (auto simp: after_piece_def)

text \<open>
  Total correctness on benign input: whatever the pieces and interruptions, the loop returns
  exactly the next \<open>n\<close> bytes and leaves the rest.
\<close>

lemma recv_loop_benign:
  assumes "benign (rx w)" "n \<le> length (rx_data (rx w))"
  shows "\<exists>w'. recv_loop n dest w = ret ((True, dest @ take n (rx_data (rx w))), w') \<and>
     feeds w' (drop n (rx_data (rx w))) \<and> only_rx w w'"
  using assms
proof (induction "rx_size (rx w)" arbitrary: n dest w rule: less_induct)
  case less
  consider "n = 0" | k es where "n = Suc k" "rx w = Recv_Error EINTR # es"
    | k bs es where "n = Suc k" "rx w = Seg bs # es" "bs \<noteq> []"
    using less.prems by (cases "rx w" rule: benign.cases; cases n) auto
  then show ?case
  proof cases
    case 1
    with less.prems show ?thesis by (auto simp: feeds_def)
  next
    case (2 k es)
    let ?w = "w\<lparr>rx := es, errno := EINTR\<rparr>"
    have "\<exists>w'. recv_loop n dest ?w = ret ((True, dest @ take n (rx_data (rx ?w))), w') \<and>
        feeds w' (drop n (rx_data (rx ?w))) \<and> only_rx ?w w'"
      using less.hyps [of ?w n dest] less.prems 2 by simp
    with 2 show ?thesis
      by (auto simp: recv_loop_interrupted intro: only_rx_trans [OF only_rx_upd(3)])
  next
    case (3 k bs es)
    let ?w = "w\<lparr>rx := after_piece n bs es\<rparr>" and ?got = "take n bs"
    let ?m = "n - length ?got"
    have data: "rx_data (rx w) = ?got @ rx_data (rx ?w)"
      using 3 by (simp add: after_piece_data)
    then have rest: "take n (rx_data (rx w)) = ?got @ take ?m (rx_data (rx ?w))"
      "drop n (rx_data (rx w)) = drop ?m (rx_data (rx ?w))"
      by (simp_all add: min_def)
    from less.prems(2) have len: "?m \<le> length (rx_data (rx ?w))"
      unfolding data by simp
    have "\<exists>w'. recv_loop ?m (dest @ ?got) ?w =
        ret ((True, (dest @ ?got) @ take ?m (rx_data (rx ?w))), w') \<and>
        feeds w' (drop ?m (rx_data (rx ?w))) \<and> only_rx ?w w'"
      by (rule less.hyps [OF _ _ len])
        (use 3 less.prems in \<open>simp_all add: after_piece_benign after_piece_size\<close>)
    with 3 rest show ?thesis
      by (auto simp: recv_loop_piece intro: only_rx_trans [OF only_rx_upd(1)])
  qed
qed

lemma recv_integrity:
  assumes "recv n w = ret ((rc, got), v)" and "0 < n"
  shows "rx_data (rx w) = got @ rx_data (rx v)" "length got \<le> n" "only_rx w v"
    "rx_size (rx v) \<le> rx_size (rx w)" "0 < rc \<Longrightarrow> rx_size (rx v) < rx_size (rx w)"
    "rc \<le> 0 \<Longrightarrow> got = []"
  using assms
  by (auto simp: recv_def after_piece_def split: list.splits rx_event.splits rx_end.splits if_splits)

text \<open>
  On any input at all: the bytes stored are the next bytes of the stream in order, nothing is
  lost or duplicated, never more than asked for is stored, and the flag says whether all of
  them arrived.
\<close>

definition read_exactly :: "nat \<Rightarrow> byte list \<Rightarrow> world \<Rightarrow> bool \<Rightarrow> byte list \<Rightarrow> world \<Rightarrow> bool" where
  "read_exactly n dest w ok bs w' \<longleftrightarrow>
     (\<exists>ds. bs = dest @ ds \<and> rx_data (rx w) = ds @ rx_data (rx w') \<and> length ds \<le> n \<and>
        (ok \<longleftrightarrow> length ds = n)) \<and>
     only_rx w w' \<and> rx_size (rx w') \<le> rx_size (rx w) \<and>
     (ok \<longrightarrow> 0 < n \<longrightarrow> rx_size (rx w') < rx_size (rx w))"

lemma read_exactly_step:
  assumes "recv n w = ret ((rc, got), v)" "0 < n" "read_exactly (n - length got) (dest @ got) v ok bs w'"
    and "rx_size (rx v) < rx_size (rx w) \<or> got = []"
  shows "read_exactly n dest w ok bs w'"
proof -
  from assms(3) obtain ds where "bs = (dest @ got) @ ds" "rx_data (rx v) = ds @ rx_data (rx w')"
    "length ds \<le> n - length got" "ok \<longleftrightarrow> length ds = n - length got"
    by (auto simp: read_exactly_def)
  with recv_integrity [OF assms(1,2)] assms(2-4) show ?thesis
    by (auto simp: read_exactly_def intro!: exI [of _ "got @ ds"] elim: only_rx_trans)
qed

lemma recv_loop_integrity:
  assumes run: "recv_loop n dest w = ret ((ok, bs), w')"
  shows "read_exactly n dest w ok bs w'"
proof -
  let ?P = "\<lambda>n dest w (r :: fault + (bool \<times> byte list) \<times> world). \<forall>ok bs w'. r = Inr ((ok, bs), w') \<longrightarrow> read_exactly n dest w ok bs w'"
  from run have run': "recv_loop n dest w = Some (Inr ((ok, bs), w'))" by (simp add: ret_def)
  have "?P n dest w (Inr ((ok, bs), w'))"
  proof (rule recv_loop.raw_induct [where P = ?P, OF _ run'])
    fix loop n dest w r
    assume IH: "\<And>n dest w r. loop n dest w = Some r \<Longrightarrow> ?P n dest w r"
      and eq: "(if 0 < n then andthen (recv n w) (\<lambda>((received, bs), w').
          if received \<le> 0 then if errno w' = EINTR then loop n dest w' else ret ((False, dest), w')
          else loop (n - length bs) (dest @ bs) w')
        else ret ((True, dest), w)) = Some r"
    show "?P n dest w r"
    proof (cases "0 < n")
      case False
      with eq show ?thesis by (auto simp: ret_def read_exactly_def)
    next
      case True
      show ?thesis
      proof (cases "recv n w" rule: run_cases)
        case (returned x)
        obtain rc got v where x: "x = ((rc, got), v)" by (cases x) auto
        note got = recv_integrity [OF returned [unfolded x] True]
        from eq True returned x consider "rc \<le> 0" "r = Inr ((False, dest), v)"
          | "rc \<le> 0" "loop n dest v = Some r"
          | "0 < rc" "loop (n - length got) (dest @ got) v = Some r"
          by (auto split: if_splits)
        then show ?thesis
        proof cases
          case 1
          with got True show ?thesis by (auto simp: read_exactly_def)
        next
          case 2
          with IH [OF 2(2)] got show ?thesis
            using read_exactly_step [OF returned [unfolded x] True] by auto
        next
          case 3
          with IH [OF 3(2)] got show ?thesis
            using read_exactly_step [OF returned [unfolded x] True] by auto
        qed
      qed (use eq True in auto)
    qed
  qed
  then show ?thesis by simp
qed

lemma recv_fullyD:
  assumes "recv_fully n w = ret ((ok, bs), w')"
  shows "length bs \<le> n" "ok \<longleftrightarrow> length bs = n" "only_rx w w'" "rx_size (rx w') \<le> rx_size (rx w)"
    "ok \<Longrightarrow> 0 < n \<Longrightarrow> rx_size (rx w') < rx_size (rx w)"
  using recv_loop_integrity [of n "[]" w ok bs w'] assms
  by (auto simp: recv_fully_def read_exactly_def)

text \<open>\<open>quiet w m\<close>: if the code \<open>m\<close> returns, it has only read, compared with \<open>w\<close>.\<close>

definition quiet :: "world \<Rightarrow> ('a \<times> world) run \<Rightarrow> bool" where
  "quiet w m \<longleftrightarrow> (\<forall>x w'. m = ret (x, w') \<longrightarrow> only_rx w w')"

lemma quiet_simps [simp]: "quiet w (ret (x, w')) \<longleftrightarrow> only_rx w w'" "quiet w (fails f)"
  by (simp_all add: quiet_def)

lemma quiet_andthen:
  "quiet w m \<Longrightarrow> (\<And>x w'. m = ret (x, w') \<Longrightarrow> only_rx w w' \<Longrightarrow> quiet w (f (x, w'))) \<Longrightarrow> quiet w (andthen m f)"
  by (auto simp: quiet_def andthen_eq_ret_iff)

lemma quiet_recv_fully: "only_rx w w1 \<Longrightarrow> quiet w (recv_fully n w1)"
  by (auto simp: quiet_def dest!: recv_fullyD(3) elim: only_rx_trans)

section \<open>When the read loop returns\<close>

text \<open>
  A connection is live when no call will be interrupted, none blocks for ever, and \<open>errno\<close>
  does not already read \<open>EINTR\<close>. On a live connection the loop always returns.
\<close>

definition live :: "world \<Rightarrow> bool" where
  "live w \<longleftrightarrow> Recv_Error EINTR \<notin> set (rx w) \<and> Send_Error EINTR \<notin> set (tx_plan w) \<and>
     rx_last w \<noteq> Stalled \<and> errno w \<noteq> EINTR"

lemma live_send: "live w \<Longrightarrow> live (snd (send bs w))" "rx (snd (send bs w)) = rx w"
  by (auto simp: live_def send_def split: list.splits tx_event.splits)

lemma recv_live:
  assumes "live w" "0 < n"
  obtains rc got v where "recv n w = ret ((rc, got), v)" "live v"
    "0 < rc \<Longrightarrow> rx_size (rx v) < rx_size (rx w)"
proof (cases "recv n w" rule: run_cases)
  case (returned x)
  then obtain rc got v where v: "recv n w = ret ((rc, got), v)" by (cases x) auto
  moreover have "live v" using v assms
    by (auto simp: recv_def live_def after_piece_def EINTR_def EAGAIN_def
        split: list.splits rx_event.splits rx_end.splits if_splits)
  ultimately show ?thesis using that recv_integrity(5) [OF v assms(2)] by blast
qed (use assms in \<open>auto simp: recv_def live_def split: list.splits rx_event.splits rx_end.splits\<close>)

lemma recv_loop_returns:
  assumes "live w"
  shows "\<exists>ok bs w'. recv_loop n dest w = ret ((ok, bs), w') \<and> live w'"
  using assms
proof (induction "rx_size (rx w)" arbitrary: n dest w rule: less_induct)
  case less
  show ?case
  proof (cases "0 < n")
    case True
    from recv_live [OF less.prems True] obtain rc got v where v: "recv n w = ret ((rc, got), v)"
      "live v" "0 < rc \<Longrightarrow> rx_size (rx v) < rx_size (rx w)" by blast
    have step: "recv_loop n dest w = (if rc \<le> 0 then ret ((False, dest), v)
        else recv_loop (n - length got) (dest @ got) v)"
      using True v(1,2) by (subst recv_loop.simps) (simp add: live_def)
    show ?thesis
    proof (cases "rc \<le> 0")
      case False
      with less.hyps [of v "n - length got" "dest @ got"] v show ?thesis by (simp add: step)
    qed (use v step in auto)
  qed (use less.prems in auto)
qed

lemma recv_fully_returns:
  assumes "live w"
  obtains ok bs w' where "recv_fully n w = ret ((ok, bs), w')" "live w'"
    "read_exactly n [] w ok bs w'"
  using recv_loop_returns [OF assms] recv_loop_integrity unfolding recv_fully_def by blast

text \<open>
  \<open>settles n m\<close>: the code \<open>m\<close> comes to an end, by returning or by a fault, and if it
  returns, the connection is still live with at most \<open>n\<close> pending.
\<close>

definition settles :: "nat \<Rightarrow> ('a \<times> world) run \<Rightarrow> bool" where
  "settles n m \<longleftrightarrow> returns m \<and> (\<forall>x w. m = ret (x, w) \<longrightarrow> live w \<and> rx_size (rx w) \<le> n)"

lemma settles_ret [simp]: "settles n (ret (x, w)) \<longleftrightarrow> live w \<and> rx_size (rx w) \<le> n"
  by (simp add: settles_def)

lemma settles_fails [simp]: "settles n (fails f)"
  by (simp add: settles_def)

lemma settles_andthen:
  assumes "settles n m" "\<And>x w. m = ret (x, w) \<Longrightarrow> live w \<Longrightarrow> rx_size (rx w) \<le> n \<Longrightarrow> settles k (f (x, w))"
  shows "settles k (andthen m f)"
proof (cases m rule: run_cases)
  case (returned y)
  obtain x w where "y = (x, w)" by (cases y)
  with assms(1) returned assms(2) [of x w] show ?thesis by simp
qed (use assms in \<open>simp_all add: settles_def\<close>)

lemma settles_mono: "settles n m \<Longrightarrow> n \<le> k \<Longrightarrow> settles k m"
  by (force simp: settles_def)

lemma recv_fully_settles: "live w \<Longrightarrow> rx_size (rx w) \<le> n \<Longrightarrow> settles n (recv_fully k w)"
  by (rule recv_fully_returns [of w k]) (auto dest: recv_fullyD(4))

text \<open>
  The other side of the test on \<open>errno\<close>: a closed connection makes \<open>recv\<close> return 0 and
  leaves \<open>errno\<close> alone, so after an interrupted call the loop never ends.
\<close>

lemma recv_loop_spins:
  assumes "rx w = []" "rx_last w = Peer_Closed" "errno w = EINTR" "0 < n"
  shows "recv_loop n dest w = None"
proof (rule ccontr)
  assume "recv_loop n dest w \<noteq> None"
  then obtain r where run: "recv_loop n dest w = Some r" by auto
  let ?P = "\<lambda>n (dest :: byte list) w (r :: fault + (bool \<times> byte list) \<times> world).
    \<not> (rx w = [] \<and> rx_last w = Peer_Closed \<and> errno w = EINTR \<and> 0 < n)"
  have "?P n dest w r"
    by (rule recv_loop.raw_induct [where P = ?P, OF _ run])
      (fastforce simp: recv_def split: if_splits)
  with assms show False by simp
qed

section \<open>Readers and the bytes they consume\<close>

text \<open>
  \<open>reads m bs v\<close>: fed with \<open>bs\<close> and anything after it, however it is cut into pieces, the
  reader \<open>m\<close> returns \<open>v\<close>, consumes exactly \<open>bs\<close> and changes nothing else.
\<close>

definition reads :: "(world \<Rightarrow> ('a \<times> world) run) \<Rightarrow> byte list \<Rightarrow> 'a \<Rightarrow> bool" where
  "reads m bs v \<longleftrightarrow> (\<forall>w rest. feeds w (bs @ rest) \<longrightarrow>
     (\<exists>w'. m w = ret (v, w') \<and> feeds w' rest \<and> only_rx w w'))"

lemma readsE:
  assumes "reads m bs v" "feeds w (bs @ rest)"
  obtains w' where "m w = ret (v, w')" "feeds w' rest" "only_rx w w'"
  using assms unfolding reads_def by blast

lemma reads_ret: "reads (\<lambda>w. ret (v, w)) [] v"
  by (auto simp: reads_def)

lemma reads_andthen:
  assumes "reads m bs v" "reads (f v) cs u"
  shows "reads (\<lambda>w. andthen (m w) (\<lambda>(x, w). f x w)) (bs @ cs) u"
  unfolding reads_def
proof (intro allI impI)
  fix w rest
  assume "feeds w ((bs @ cs) @ rest)"
  then have "feeds w (bs @ cs @ rest)" by simp
  with assms(1) obtain v1 where v1: "m w = ret (v, v1)" "feeds v1 (cs @ rest)" "only_rx w v1"
    by (rule readsE)
  from assms(2) v1(2) obtain v2 where v2: "f v v1 = ret (u, v2)" "feeds v2 rest" "only_rx v1 v2"
    by (rule readsE)
  with v1 show "\<exists>w'. andthen (m w) (\<lambda>(x, w). f x w) = ret (u, w') \<and> feeds w' rest \<and> only_rx w w'"
    by (auto elim: only_rx_trans)
qed

lemma reads_recv_fully: "length bs = n \<Longrightarrow> reads (recv_fully n) bs (True, bs)"
  unfolding reads_def recv_fully_def
  using recv_loop_benign [of _ n "[]"] by (fastforce simp: feeds_def)

text \<open>
  \<open>acts f w bs Q w'\<close>: the same for code with effects. Started in \<open>w\<close> and fed with \<open>bs\<close>,
  however it is cut, \<open>f\<close> returns a result that satisfies \<open>Q\<close>, consumes exactly \<open>bs\<close> and ends in
  \<open>w'\<close>, up to the input that is still pending.
\<close>

definition acts :: "(world \<Rightarrow> ('a \<times> world) run) \<Rightarrow> world \<Rightarrow> byte list \<Rightarrow> ('a \<Rightarrow> bool) \<Rightarrow> world \<Rightarrow> bool" where
  "acts f w bs Q w' \<longleftrightarrow> (\<forall>v rest. only_rx w v \<and> feeds v (bs @ rest) \<longrightarrow>
     (\<exists>x v'. f v = ret (x, v') \<and> Q x \<and> only_rx w' v' \<and> feeds v' rest))"

lemma actsI:
  assumes "\<And>es e rest. feeds (w\<lparr>rx := es, errno := e\<rparr>) (bs @ rest) \<Longrightarrow>
    \<exists>x v'. f (w\<lparr>rx := es, errno := e\<rparr>) = ret (x, v') \<and> Q x \<and> only_rx w' v' \<and> feeds v' rest"
  shows "acts f w bs Q w'"
  unfolding acts_def
proof (intro allI impI, elim conjE)
  fix v rest
  assume v: "only_rx w v" "feeds v (bs @ rest)"
  from v(1) have "v = w\<lparr>rx := rx v, errno := errno v\<rparr>" unfolding only_rx_def .
  with assms [of "errno v" "rx v" rest] v(2)
  show "\<exists>x v'. f v = ret (x, v') \<and> Q x \<and> only_rx w' v' \<and> feeds v' rest" by metis
qed

lemma actsE:
  assumes "acts f w bs Q w'" "only_rx w v" "feeds v (bs @ rest)"
  obtains x v' where "f v = ret (x, v')" "Q x" "only_rx w' v'" "feeds v' rest"
  using assms unfolding acts_def by blast

lemma acts_weaken: "acts f w bs Q w' \<Longrightarrow> (\<And>x. Q x \<Longrightarrow> R x) \<Longrightarrow> acts f w bs R w'"
  unfolding acts_def by meson

lemma acts_silent:
  assumes "\<And>es e. f (w\<lparr>rx := es, errno := e\<rparr>) = ret (x, w'\<lparr>rx := es, errno := e\<rparr>)" "Q x"
  shows "acts f w [] Q w'"
  using assms by (intro actsI) (auto simp: feeds_def)

lemma acts_reads:
  assumes "reads f bs x" "Q x"
  shows "acts f w bs Q w"
proof (rule actsI)
  fix es e rest
  assume "feeds (w\<lparr>rx := es, errno := e\<rparr>) (bs @ rest)"
  with assms(1) obtain v where v: "f (w\<lparr>rx := es, errno := e\<rparr>) = ret (x, v)" "feeds v rest"
    "only_rx (w\<lparr>rx := es, errno := e\<rparr>) v" by (rule readsE)
  from v(3) have "only_rx w v" by (rule only_rx_trans [OF only_rx_upd(3)])
  with v(1,2) assms(2) show "\<exists>x v'. f (w\<lparr>rx := es, errno := e\<rparr>) = ret (x, v') \<and> Q x \<and> only_rx w v' \<and> feeds v' rest"
    by blast
qed

lemma acts_andthen:
  assumes "acts m w bs Q w1" "\<And>x. Q x \<Longrightarrow> acts (f x) w1 cs R w2"
  shows "acts (\<lambda>w. andthen (m w) (\<lambda>(x, w). f x w)) w (bs @ cs) R w2"
proof (rule actsI)
  fix es e rest
  assume "feeds (w\<lparr>rx := es, errno := e\<rparr>) ((bs @ cs) @ rest)"
  then have "feeds (w\<lparr>rx := es, errno := e\<rparr>) (bs @ cs @ rest)" by simp
  from actsE [OF assms(1) only_rx_upd(3) this] obtain x v where
    v: "m (w\<lparr>rx := es, errno := e\<rparr>) = ret (x, v)" "Q x" "only_rx w1 v" "feeds v (cs @ rest)" .
  from actsE [OF assms(2) [OF v(2)] v(3,4)] obtain y u where "f x v = ret (y, u)" "R y" "only_rx w2 u" "feeds u rest" .
  with v(1) show "\<exists>y u. andthen (m (w\<lparr>rx := es, errno := e\<rparr>)) (\<lambda>(x, w). f x w) = ret (y, u) \<and>
      R y \<and> only_rx w2 u \<and> feeds u rest" by simp
qed

text \<open>Reading a sequence of records, one after the other.\<close>

fun read_many :: "(world \<Rightarrow> ('a \<times> world) run) \<Rightarrow> nat \<Rightarrow> world \<Rightarrow> ('a list \<times> world) run" where
  "read_many m 0 w = ret ([], w)"
| "read_many m (Suc n) w =
     andthen (m w) (\<lambda>(x, w). andthen (read_many m n w) (\<lambda>(xs, w). ret (x # xs, w)))"

text \<open>
  The contract between a writer of records and their reader: reading what was written for
  \<open>x\<close> gives \<open>got x\<close>.
\<close>

locale wire_format =
  fixes enc :: "'a \<Rightarrow> byte list"
    and dec :: "world \<Rightarrow> ('r \<times> world) run"
    and got :: "'a \<Rightarrow> 'r"
    and ok :: "'a \<Rightarrow> bool"
  assumes dec_enc: "ok x \<Longrightarrow> reads dec (enc x) (got x)"
begin

lemma dec_encE:
  assumes "ok x" "feeds w (enc x @ rest)"
  obtains w' where "dec w = ret (got x, w')" "feeds w' rest" "only_rx w w'"
  using dec_enc [OF assms(1)] assms(2) by (rule readsE)

text \<open>Framing is unambiguous: a concatenation of records is read back record by record.\<close>

lemma read_many_enc:
  "list_all ok xs \<Longrightarrow> reads (read_many dec (length xs)) (concat (map enc xs)) (map got xs)"
proof (induction xs)
  case Nil
  then show ?case by (auto simp: reads_def)
next
  case (Cons x xs)
  have "reads (\<lambda>w. andthen (read_many dec (length xs) w) (\<lambda>(ys, w). ret (got x # ys, w)))
      (concat (map enc xs) @ []) (got x # map got xs)"
    by (rule reads_andthen [OF _ reads_ret]) (use Cons in simp)
  then show ?case
    using reads_andthen [OF dec_enc [of x]] Cons.prems by fastforce
qed

text \<open>No record is a proper prefix of another: two streams that agree start with the same record.\<close>

lemma enc_prefix_free:
  assumes "ok x" "ok y" "enc x @ r = enc y @ r'"
  shows "got x = got y \<and> r = r'"
proof -
  let ?w = "idle_world\<lparr>rx := (if enc x @ r = [] then [] else [Seg (enc x @ r)])\<rparr>"
  have f: "feeds ?w (enc x @ r)" by (simp add: feeds_def)
  obtain v where v: "dec ?w = ret (got x, v)" "feeds v r" using dec_encE [OF assms(1) f] .
  obtain v' where "dec ?w = ret (got y, v')" "feeds v' r'"
    using dec_encE [OF assms(2)] f assms(3) by metis
  with v show ?thesis by (simp add: feeds_def)
qed

end

section \<open>Raw blobs\<close>

definition blob_bytes :: "byte list \<Rightarrow> byte list" where
  "blob_bytes data = u64_bytes (word_of_nat (length data)) @ data"

definition blob_fits :: "nat \<Rightarrow> byte list \<Rightarrow> bool" where
  "blob_fits cap data \<longleftrightarrow> length data \<le> cap \<and> length data < 2 ^ 64"

lemma reads_recv_raw_blob:
  assumes "blob_fits cap data"
  shows "reads (recv_raw_blob cap) (blob_bytes data) (0, data)"
proof -
  from assms have n: "unat (word_of_nat (length data) :: u64) = length data" "length data \<le> cap"
    by (simp_all add: blob_fits_def unat_of_nat_u64)
  show ?thesis
    unfolding reads_def
  proof (intro allI impI)
    fix w rest
    assume "feeds w (blob_bytes data @ rest)"
    then have "feeds w (u64_bytes (word_of_nat (length data)) @ data @ rest)"
      by (simp add: blob_bytes_def)
    then obtain w1 where w1: "recv_fully 8 w =
        ret ((True, u64_bytes (word_of_nat (length data))), w1)" "feeds w1 (data @ rest)" "only_rx w w1"
      using readsE [OF reads_recv_fully] length_u64_bytes by metis
    obtain w2 where w2: "recv_fully (length data) w1 = ret ((True, data), w2)" "feeds w2 rest"
      "only_rx w1 w2"
      using readsE [OF reads_recv_fully [OF refl] w1(2)] .
    show "\<exists>w'. recv_raw_blob cap w = ret ((0, data), w') \<and> feeds w' rest \<and> only_rx w w'"
      using w1 w2 n by (cases "data = []") (auto simp: recv_raw_blob_def intro: only_rx_trans)
  qed
qed

interpretation raw_blob: wire_format blob_bytes "recv_raw_blob cap" "\<lambda>data. (0, data)" "blob_fits cap"
  for cap
  by unfold_locales (rule reads_recv_raw_blob)

lemma recv_raw_blobD:
  assumes "recv_raw_blob cap w = ret ((rc, bs), w')"
  shows "length bs \<le> cap" "only_rx w w'" "rx_size (rx w') \<le> rx_size (rx w)"
proof -
  from assms obtain ok nb w1 where w1: "recv_fully 8 w = ret ((ok, nb), w1)"
    and "(bs = [] \<and> w' = w1) \<or> (\<exists>n ok. n \<le> cap \<and> recv_fully n w1 = ret ((ok, bs), w'))"
    by (auto simp: recv_raw_blob_def andthen_eq_ret_iff Let_def not_less split: if_splits) blast+
  then show "length bs \<le> cap" "only_rx w w'" "rx_size (rx w') \<le> rx_size (rx w)"
    using recv_fullyD(3,4) [OF w1] by (auto dest: recv_fullyD elim: only_rx_trans)
qed

lemma recv_raw_blob_settles: "live w \<Longrightarrow> rx_size (rx w) \<le> n \<Longrightarrow> settles n (recv_raw_blob cap w)"
  unfolding recv_raw_blob_def Let_def
  by (intro settles_andthen [OF recv_fully_settles])
    (auto split: prod.splits intro!: settles_andthen [OF recv_fully_settles])

text \<open>Sending without faults appends the record to what was sent.\<close>

lemma send_all_accepted: "tx_plan w = [] \<Longrightarrow> send bs w = (int (length bs), w\<lparr>tx := tx w @ bs\<rparr>)"
  by (simp add: send_def)

lemma send_raw_blob_accepted:
  "tx_plan w = [] \<Longrightarrow> send_raw_blob data w = (0, w\<lparr>tx := tx w @ blob_bytes data\<rparr>)"
  by (simp add: send_raw_blob_def send_all_accepted blob_bytes_def)

end
