(* ===== verification/Session_Enc.thy ===== *)
theory Session_Enc
  imports Sock_IO
begin

text \<open>
  The session layer: \<open>encrypt_stream_buffer\<close> and the class \<open>SessionEncWrapper\<close>
  (\<open>include/common/SessionEnc.h\<close>, \<open>src/encryption_utils/SessionEnc.cpp\<close>). A wrapper made
  by a sender encrypts its data under a fresh nonce and sends length, nonce and ciphertext as
  one frame; a wrapper made by a reader receives one frame and \<open>unwrap\<close> decrypts it into the
  caller's buffer. The theorems: a frame is read back as the data it was made from, the return
  codes of \<open>unwrap\<close> on every branch, no buffer is overrun, nothing that was not encrypted
  under the key is delivered, and nonces do not repeat.
\<close>

section \<open>The wrapper\<close>

datatype wrap_types = READER | SENDER

record session_wrapper =
  corrupted :: bool
  session_encrypted_data :: "byte list"
  wrap_nonce :: "byte list"
  session_encrypted_data_length :: u64
  enc_wrap_type :: wrap_types

text \<open>The return code, the incremented nonce and the ciphertext.\<close>

definition encrypt_stream_buffer ::
    "'st sodium \<Rightarrow> byte list \<Rightarrow> byte list \<Rightarrow> byte list \<Rightarrow> int \<times> byte list \<times> byte list" where
  "encrypt_stream_buffer S client_tx nonce message =
     (let nonce = sodium_increment S nonce in
      case aead_encrypt S message nonce client_tx of
        None \<Rightarrow> (1, nonce, [])
      | Some ciphertext \<Rightarrow> (0, nonce, ciphertext))"

text \<open>
  The constructor for writers: the nonce of the caller is incremented, the ciphertext goes
  into the member array of \<open>stream_chunk_size\<close> bytes.
\<close>

definition SessionEncWrapper_sender ::
    "'st sodium \<Rightarrow> byte list \<Rightarrow> byte list \<Rightarrow> byte list \<Rightarrow> world \<Rightarrow> (session_wrapper \<times> byte list) run" where
  "SessionEncWrapper_sender S data client_tx nonce w =
     (let (rc, nonce, ciphertext) = encrypt_stream_buffer S client_tx nonce data in
      if stream_chunk_size S < length ciphertext then fails Out_Of_Bounds
      else if rc \<noteq> 0 then
        ret (\<lparr>corrupted = True, session_encrypted_data = [],
              wrap_nonce = uninit (aead_NPUBBYTES S) w,
              session_encrypted_data_length = 0, enc_wrap_type = SENDER\<rparr>, nonce)
      else
        ret (\<lparr>corrupted = False, session_encrypted_data = ciphertext, wrap_nonce = nonce,
              session_encrypted_data_length = word_of_nat (length ciphertext),
              enc_wrap_type = SENDER\<rparr>, nonce))"

text \<open>The constructor for readers.\<close>

definition SessionEncWrapper_reader :: "'st sodium \<Rightarrow> world \<Rightarrow> (session_wrapper \<times> world) run" where
  "SessionEncWrapper_reader S w =
     (let fresh = \<lparr>corrupted = True, session_encrypted_data = [],
            wrap_nonce = uninit (aead_NPUBBYTES S) w,
            session_encrypted_data_length = u64_of_bytes (uninit 8 w), enc_wrap_type = READER\<rparr> in
      andthen (recv_fully 8 w) (\<lambda>((ok, lb), w).
        let wrap = fresh\<lparr>session_encrypted_data_length := u64_of_bytes (write_into (uninit 8 w) lb)\<rparr> in
        if \<not> ok then ret (wrap, w)
        else if stream_chunk_size S < unat (session_encrypted_data_length wrap) then ret (wrap, w)
        else
          andthen (recv_fully (aead_NPUBBYTES S) w) (\<lambda>((ok, nb), w).
            let wrap = wrap\<lparr>wrap_nonce := write_into (wrap_nonce wrap) nb\<rparr> in
            if \<not> ok then ret (wrap, w)
            else
              andthen (recv_fully (unat (session_encrypted_data_length wrap)) w) (\<lambda>((ok, db), w).
                let wrap = wrap\<lparr>session_encrypted_data := db\<rparr> in
                if \<not> ok then ret (wrap, w) else ret (wrap\<lparr>corrupted := False\<rparr>, w)))))"

text \<open>
  \<open>unwrap\<close>: the return code, the wrapper, the output buffer and the length cell afterwards.
  The subtraction of \<open>ABYTES\<close> is on \<open>unsigned long long\<close> and wraps around.
\<close>

definition unwrap ::
    "'st sodium \<Rightarrow> session_wrapper \<Rightarrow> byte list \<Rightarrow> nat \<Rightarrow> byte list \<Rightarrow> u64 \<Rightarrow>
     int \<times> session_wrapper \<times> byte list \<times> u64" where
  "unwrap S wrap rxkey decrypted_data_capacity buf len =
     (if enc_wrap_type wrap \<noteq> READER then (- 1, wrap, buf, len)
      else if corrupted wrap then (4, wrap, buf, len)
      else if word_of_nat (stream_chunk_size S)
                < session_encrypted_data_length wrap - word_of_nat (aead_ABYTES S)
        then (3, wrap, buf, len)
      else if word_of_nat decrypted_data_capacity
                < session_encrypted_data_length wrap - word_of_nat (aead_ABYTES S)
        then (2, wrap\<lparr>corrupted := True\<rparr>, buf, len)
      else (case aead_decrypt S (session_encrypted_data wrap) (wrap_nonce wrap) rxkey of
          None \<Rightarrow> (1, wrap\<lparr>corrupted := True\<rparr>,
                    write_into buf (aead_fail_buf S (session_encrypted_data wrap) buf), aead_fail_len S len)
        | Some m \<Rightarrow> (0, wrap, write_into buf m, word_of_nat (length m))))"

definition is_corrupted :: "session_wrapper \<Rightarrow> bool" where
  "is_corrupted wrap = corrupted wrap"

definition get_data_length :: "session_wrapper \<Rightarrow> u64" where
  "get_data_length wrap = session_encrypted_data_length wrap"

definition send_data :: "session_wrapper \<Rightarrow> world \<Rightarrow> int \<times> world" where
  "send_data wrap w =
     (if enc_wrap_type wrap \<noteq> SENDER then (- 1, w) else send (session_encrypted_data wrap) w)"

definition send_nonce :: "session_wrapper \<Rightarrow> world \<Rightarrow> int \<times> world" where
  "send_nonce wrap w =
     (if enc_wrap_type wrap \<noteq> SENDER then (- 1, w) else send (wrap_nonce wrap) w)"

definition send_data_length :: "session_wrapper \<Rightarrow> world \<Rightarrow> int \<times> world" where
  "send_data_length wrap w =
     (if enc_wrap_type wrap \<noteq> SENDER then (- 1, w)
      else send (u64_bytes (session_encrypted_data_length wrap)) w)"

definition send_all :: "session_wrapper \<Rightarrow> world \<Rightarrow> int \<times> world" where
  "send_all wrap w =
     (if enc_wrap_type wrap \<noteq> SENDER then (- 1, w)
      else send (u64_bytes (session_encrypted_data_length wrap) @ wrap_nonce wrap @
                 take (unat (session_encrypted_data_length wrap)) (session_encrypted_data wrap)) w)"

definition SessionEncWrapper_destroy :: "'st sodium \<Rightarrow> session_wrapper \<Rightarrow> session_wrapper" where
  "SessionEncWrapper_destroy S wrap =
     wrap\<lparr>session_encrypted_data_length := 0,
          session_encrypted_data := replicate (stream_chunk_size S) 0,
          wrap_nonce := replicate (aead_NPUBBYTES S) 0\<rparr>"

text \<open>
  The two statements every sender writes: construct a wrapper, then \<open>send_all\<close>, whose result
  nobody looks at. It gives the caller's nonce back, incremented.
\<close>

definition session_send ::
    "'st sodium \<Rightarrow> byte list \<Rightarrow> byte list \<Rightarrow> byte list \<Rightarrow> world \<Rightarrow> (byte list \<times> world) run" where
  "session_send S data key nonce w =
     andthen (SessionEncWrapper_sender S data key nonce w) (\<lambda>(wrap, nonce).
       ret (nonce, snd (send_all wrap w)))"

section \<open>Frames\<close>

definition frame_bytes :: "byte list \<times> byte list \<Rightarrow> byte list" where
  "frame_bytes nc = u64_bytes (word_of_nat (length (snd nc))) @ fst nc @ snd nc"

definition frame_ok :: "'st sodium \<Rightarrow> byte list \<times> byte list \<Rightarrow> bool" where
  "frame_ok S nc \<longleftrightarrow> sodium_sizes S \<and> length (fst nc) = aead_NPUBBYTES S \<and>
     length (snd nc) \<le> stream_chunk_size S"

definition framed :: "byte list \<times> byte list \<Rightarrow> session_wrapper" where
  "framed nc = \<lparr>corrupted = False, session_encrypted_data = snd nc, wrap_nonce = fst nc,
     session_encrypted_data_length = word_of_nat (length (snd nc)), enc_wrap_type = READER\<rparr>"

text \<open>The nonce and the ciphertext of the frame for \<open>data\<close> when the counter stands at \<open>nonce\<close>.\<close>

definition sealed :: "'st sodium \<Rightarrow> byte list \<Rightarrow> byte list \<Rightarrow> byte list \<Rightarrow> byte list \<times> byte list" where
  "sealed S key nonce data =
     (sodium_increment S nonce, the (aead_encrypt S data (sodium_increment S nonce) key))"

definition frame :: "'st sodium \<Rightarrow> byte list \<Rightarrow> byte list \<Rightarrow> byte list \<Rightarrow> byte list" where
  "frame S key nonce data = frame_bytes (sealed S key nonce data)"

lemma frame_not_Nil [simp]: "frame S key nonce data \<noteq> []"
  by (simp add: frame_def frame_bytes_def)

lemma stream_chunk_size_u64:
  assumes "sodium_sizes S"
  shows "unat (word_of_nat (stream_chunk_size S) :: u64) = stream_chunk_size S"
    "stream_chunk_size S < 2 ^ 64"
  using chunk_sizes [OF assms] by (simp_all add: unat_of_nat_u64)

lemma reads_frame:
  assumes "frame_ok S nc"
  shows "reads (SessionEncWrapper_reader S) (frame_bytes nc) (framed nc)"
  unfolding reads_def
proof (intro allI impI)
  fix w rest
  let ?l = "u64_bytes (word_of_nat (length (snd nc)))"
  assume "feeds w (frame_bytes nc @ rest)"
  then have f: "feeds w (?l @ fst nc @ snd nc @ rest)" by (simp add: frame_bytes_def)
  from assms have s: "sodium_sizes S" and n: "length (fst nc) = aead_NPUBBYTES S"
    and c: "length (snd nc) \<le> stream_chunk_size S" by (auto simp: frame_ok_def)
  from c stream_chunk_size_u64 [OF s] have u: "unat (word_of_nat (length (snd nc)) :: u64) = length (snd nc)"
    by (intro unat_of_nat_u64) simp
  obtain w1 where w1: "recv_fully 8 w = ret ((True, ?l), w1)" "feeds w1 (fst nc @ snd nc @ rest)"
    "only_rx w w1"
    using readsE [OF reads_recv_fully [OF length_u64_bytes] f] .
  obtain w2 where w2: "recv_fully (aead_NPUBBYTES S) w1 = ret ((True, fst nc), w2)"
    "feeds w2 (snd nc @ rest)" "only_rx w1 w2"
    using readsE [OF reads_recv_fully [OF n] w1(2)] .
  obtain w3 where w3: "recv_fully (length (snd nc)) w2 = ret ((True, snd nc), w3)"
    "feeds w3 rest" "only_rx w2 w3"
    using readsE [OF reads_recv_fully [OF refl] w2(2)] .
  have "SessionEncWrapper_reader S w = ret (framed nc, w3)"
    using w1(1) w2(1) w3(1) u c n
    by (simp add: SessionEncWrapper_reader_def framed_def write_into_full Let_def)
  with w1 w2 w3 show "\<exists>w'. SessionEncWrapper_reader S w = ret (framed nc, w') \<and> feeds w' rest \<and> only_rx w w'"
    by (blast intro: only_rx_trans)
qed

interpretation session_frame: wire_format frame_bytes "SessionEncWrapper_reader S" framed "frame_ok S"
  for S
  by unfold_locales (rule reads_frame)

lemma reader_settles:
  "live w \<Longrightarrow> rx_size (rx w) \<le> n \<Longrightarrow> settles n (SessionEncWrapper_reader S w)"
  unfolding SessionEncWrapper_reader_def Let_def
  by (intro settles_andthen [OF recv_fully_settles])
    (auto split: prod.splits intro!: settles_andthen [OF recv_fully_settles])

text \<open>A wrapper that was read completely has taken something off the input.\<close>

lemma reader_progress:
  assumes "SessionEncWrapper_reader S w = ret (wrap, w')" "\<not> corrupted wrap"
  shows "rx_size (rx w') < rx_size (rx w)"
proof -
  from assms obtain lb w1 nb w2 k db where "recv_fully 8 w = ret ((True, lb), w1)"
    "recv_fully (aead_NPUBBYTES S) w1 = ret ((True, nb), w2)"
    "recv_fully k w2 = ret ((True, db), w')"
    by (auto simp: SessionEncWrapper_reader_def Let_def andthen_eq_ret_iff split: if_splits)
  from recv_fullyD(5) [OF this(1)] recv_fullyD(4) [OF this(2)] recv_fullyD(4) [OF this(3)]
  show ?thesis by simp
qed

lemma quiet_reader: "only_rx w w1 \<Longrightarrow> quiet w (SessionEncWrapper_reader S w1)"
  unfolding SessionEncWrapper_reader_def Let_def
  by (intro quiet_andthen [OF quiet_recv_fully])
    (auto split: prod.splits intro!: quiet_andthen [OF quiet_recv_fully])

lemma reader_only_rx: "SessionEncWrapper_reader S w = ret (wrap, w') \<Longrightarrow> only_rx w w'"
  using quiet_reader [OF only_rx_refl] by (auto simp: quiet_def)

section \<open>A frame carries its data\<close>

lemma sealed_ok:
  assumes "session_laws S" "length nonce = aead_NPUBBYTES S" "length data \<le> FILE_ENCRYPTED_CHUNK_SIZE S"
  shows "frame_ok S (sealed S key nonce data)"
    "aead_encrypt S data (fst (sealed S key nonce data)) key = Some (snd (sealed S key nonce data))"
    "aead_decrypt S (snd (sealed S key nonce data)) (fst (sealed S key nonce data)) key = Some data"
    "length (snd (sealed S key nonce data)) = length data + aead_ABYTES S"
proof -
  from assms have laws: "sodium_sizes S" "aead_laws S" "increment_law S" by (auto simp: session_laws_def)
  obtain c where c: "aead_encrypt S data (sodium_increment S nonce) key = Some c"
    "length c = length data + aead_ABYTES S" "aead_decrypt S c (sodium_increment S nonce) key = Some data"
    using laws(2) by (rule aead_encryptE)
  with laws assms show "frame_ok S (sealed S key nonce data)"
    "aead_encrypt S data (fst (sealed S key nonce data)) key = Some (snd (sealed S key nonce data))"
    "aead_decrypt S (snd (sealed S key nonce data)) (fst (sealed S key nonce data)) key = Some data"
    "length (snd (sealed S key nonce data)) = length data + aead_ABYTES S"
    by (auto simp: sealed_def frame_ok_def increment_law_def stream_chunk_size_def
        FILE_ENCRYPTED_CHUNK_SIZE_def)
qed

lemma session_send_frame:
  assumes "session_laws S" "length nonce = aead_NPUBBYTES S" "length data \<le> FILE_ENCRYPTED_CHUNK_SIZE S"
    "tx_plan w = []"
  shows "session_send S data key nonce w =
     ret (sodium_increment S nonce, w\<lparr>tx := tx w @ frame S key nonce data\<rparr>)"
proof -
  note ok = sealed_ok [OF assms(1-3), of key]
  obtain c where c: "sealed S key nonce data = (sodium_increment S nonce, c)"
    by (simp add: sealed_def)
  with ok(1,2) have enc: "aead_encrypt S data (sodium_increment S nonce) key = Some c"
    and len: "length c \<le> stream_chunk_size S" and s: "sodium_sizes S"
    by (auto simp: frame_ok_def)
  from len stream_chunk_size_u64 [OF s]
  have "unat (word_of_nat (length c) :: u64) = length c" by (intro unat_of_nat_u64) simp
  with enc len assms(4) c show ?thesis
    by (simp add: session_send_def SessionEncWrapper_sender_def encrypt_stream_buffer_def Let_def
        send_all_def send_all_accepted frame_def frame_bytes_def)
qed

lemma unwrap_sealed:
  assumes "session_laws S" "length nonce = aead_NPUBBYTES S" "length data \<le> FILE_ENCRYPTED_CHUNK_SIZE S"
    "length data \<le> cap" "cap < 2 ^ 64"
  shows "unwrap S (framed (sealed S key nonce data)) key cap buf len =
     (0, framed (sealed S key nonce data), write_into buf data, word_of_nat (length data))"
proof -
  note ok = sealed_ok [OF assms(1-3), of key]
  from assms(1) have s: "sodium_sizes S" by (simp add: session_laws_def)
  have l: "length data < 2 ^ 64" using assms(4,5) by simp
  have sub: "(word_of_nat (length data + aead_ABYTES S) :: u64) - word_of_nat (aead_ABYTES S) =
      word_of_nat (length data)" by simp
  have "length data \<le> stream_chunk_size S"
    using assms(3) by (simp add: stream_chunk_size_def FILE_ENCRYPTED_CHUNK_SIZE_def)
  then have "\<not> (word_of_nat (stream_chunk_size S) :: u64) < word_of_nat (length data)"
    "\<not> (word_of_nat cap :: u64) < word_of_nat (length data)"
    using assms(4,5) l stream_chunk_size_u64 [OF s] by (simp_all add: word_less_nat_alt unat_of_nat_u64)
  with ok(3,4) sub show ?thesis by (simp add: unwrap_def framed_def)
qed

lemma unwrap_too_long:
  assumes "session_laws S" "length nonce = aead_NPUBBYTES S" "length data \<le> FILE_ENCRYPTED_CHUNK_SIZE S" "cap < length data"
  shows "unwrap S (framed (sealed S key nonce data)) key cap buf len =
     (2, (framed (sealed S key nonce data))\<lparr>corrupted := True\<rparr>, buf, len)"
proof -
  note ok = sealed_ok [OF assms(1-3), of key]
  from assms(1) have s: "sodium_sizes S" by (simp add: session_laws_def)
  have l: "length data \<le> stream_chunk_size S"
    using assms(3) by (simp add: stream_chunk_size_def FILE_ENCRYPTED_CHUNK_SIZE_def)
  then have "length data < 2 ^ 64" "cap < 2 ^ 64" using stream_chunk_size_u64 [OF s] assms(4) by simp_all
  then have "\<not> (word_of_nat (stream_chunk_size S) :: u64) < word_of_nat (length data)"
    "(word_of_nat cap :: u64) < word_of_nat (length data)"
    using l assms(4) stream_chunk_size_u64 [OF s] by (simp_all add: word_less_nat_alt unat_of_nat_u64)
  with ok(4) show ?thesis by (simp add: unwrap_def framed_def)
qed

lemma reads_sealed:
  assumes "session_laws S" "length nonce = aead_NPUBBYTES S" "length data \<le> FILE_ENCRYPTED_CHUNK_SIZE S"
  shows "reads (SessionEncWrapper_reader S) (frame S key nonce data) (framed (sealed S key nonce data))"
  unfolding frame_def by (rule reads_frame [OF sealed_ok(1) [OF assms]])

lemma readerE:
  assumes "session_laws S" "length nonce = aead_NPUBBYTES S" "length data \<le> FILE_ENCRYPTED_CHUNK_SIZE S"
    "feeds w (frame S key nonce data @ rest)"
  obtains w' where "SessionEncWrapper_reader S w = ret (framed (sealed S key nonce data), w')"
    "feeds w' rest" "only_rx w w'"
  using readsE [OF reads_sealed [OF assms(1-3)] assms(4)] .

lemma framed_not_corrupted [simp]: "corrupted (framed nc) = False"
  by (simp add: framed_def)

lemma length_increment: "session_laws S \<Longrightarrow> length (sodium_increment S n) = length n"
  by (simp add: session_laws_def increment_law_def)

text \<open>
  C9. Session round trip: what a sender wraps and sends, a reader that holds the same key
  receives and unwraps unchanged, however the network cuts the bytes into pieces, and the
  bytes that follow are left for the next reader.
\<close>

theorem session_roundtrip:
  assumes "session_laws S" "length nonce = aead_NPUBBYTES S" "length data \<le> FILE_ENCRYPTED_CHUNK_SIZE S"
    and "length data \<le> cap" "cap < 2 ^ 64" "tx_plan w = []"
    and "session_send S data key nonce w = ret (nonce', w')"
    and "feeds v (drop (length (tx w)) (tx w') @ rest)"
  shows "\<exists>wrap v'. SessionEncWrapper_reader S v = ret (wrap, v') \<and> feeds v' rest \<and> only_rx v v' \<and>
     unwrap S wrap key cap buf len = (0, wrap, write_into buf data, word_of_nat (length data)) \<and>
     nonce' = sodium_increment S nonce"
proof -
  from session_send_frame [OF assms(1-3,6), of key] assms(7)
  have sent: "nonce' = sodium_increment S nonce" "tx w' = tx w @ frame S key nonce data" by auto
  with assms(8) have "feeds v (frame S key nonce data @ rest)" by simp
  with readerE [OF assms(1-3)] unwrap_sealed [OF assms(1-5)] sent show ?thesis by metis
qed

theorem session_roundtrip_witness:
  "\<exists>wrap v'. SessionEncWrapper_reader toy_sodium
       (idle_world\<lparr>rx := [Seg (frame toy_sodium [7] (replicate 8 0) [1, 2, 3])]\<rparr>) = ret (wrap, v') \<and>
     unwrap toy_sodium wrap [7] 3 [9, 9, 9, 9] 0 = (0, wrap, [1, 2, 3, 9], 3)"
proof -
  have n: "length (replicate 8 0 :: byte list) = aead_NPUBBYTES toy_sodium" by simp
  have d: "length [1, 2, 3 :: byte] \<le> FILE_ENCRYPTED_CHUNK_SIZE toy_sodium" by simp
  have p: "tx_plan idle_world = []" "tx idle_world = []" by (simp_all add: idle_world_def)
  have f: "frame toy_sodium [7] (replicate 8 0) [1, 2, 3] \<noteq> []"
    by simp
  let ?f = "frame toy_sodium [7] (replicate 8 0) [1, 2, 3]"
  let ?v = "idle_world\<lparr>rx := [Seg ?f]\<rparr>" and ?w = "idle_world\<lparr>tx := tx idle_world @ ?f\<rparr>"
  have v: "feeds ?v (drop (length (tx idle_world)) (tx ?w) @ [])"
    using f p(2) by (simp add: feeds_def)
  have "length [1, 2, 3 :: byte] \<le> 3" "(3 :: nat) < 2 ^ 64" by simp_all
  note session_roundtrip [OF toy_session n d this p(1) session_send_frame [OF toy_session n d p(1)] v,
      where buf = "[9, 9, 9, 9]" and len = 0]
  moreover have "write_into [9, 9, 9, 9] [1, 2, 3] = [1, 2, 3, 9 :: byte]" by (simp add: write_into_def)
  ultimately show ?thesis by auto
qed

section \<open>The return codes of unwrap\<close>

text \<open>
  What the reading constructor establishes: the wrapper is a reader's, and unless it is
  corrupted it holds exactly the announced number of bytes, within its array.
\<close>

definition reader_ok :: "'st sodium \<Rightarrow> session_wrapper \<Rightarrow> bool" where
  "reader_ok S wrap \<longleftrightarrow> enc_wrap_type wrap = READER \<and>
     length (session_encrypted_data wrap) \<le> stream_chunk_size S \<and>
     (\<not> corrupted wrap \<longrightarrow>
        length (session_encrypted_data wrap) = unat (session_encrypted_data_length wrap))"

lemma reader_wrapper_ok:
  assumes "SessionEncWrapper_reader S w = ret (wrap, w')"
  shows "reader_ok S wrap"
  using assms
  by (auto simp: SessionEncWrapper_reader_def Let_def andthen_eq_ret_iff reader_ok_def
      dest: recv_fullyD(1,2) split: if_splits)

text \<open>
  C23. The reading constructor never stores more than \<open>stream_chunk_size\<close> bytes in its array,
  whatever length the peer announces, and a wrapper that is not marked corrupted holds exactly
  the announced number of bytes.
\<close>

theorem reader_within_array:
  assumes "SessionEncWrapper_reader S w = ret (wrap, w')"
  shows "reader_ok S wrap \<and> only_rx w w'"
  using reader_wrapper_ok [OF assms] reader_only_rx [OF assms] ..

lemma toy_frame_read:
  obtains v' where "SessionEncWrapper_reader toy_sodium
      (idle_world\<lparr>rx := [Seg (frame toy_sodium key (replicate 8 0) [1, 2, 3])]\<rparr>) =
    ret (framed (sealed toy_sodium key (replicate 8 0) [1, 2, 3]), v')"
proof -
  have f: "feeds (idle_world\<lparr>rx := [Seg (frame toy_sodium key (replicate 8 0) [1, 2, 3])]\<rparr>)
      (frame toy_sodium key (replicate 8 0) [1, 2, 3] @ [])"
    by (simp add: feeds_def)
  have n: "length (replicate 8 0 :: byte list) = aead_NPUBBYTES toy_sodium"
    "length [1, 2, 3 :: byte] \<le> FILE_ENCRYPTED_CHUNK_SIZE toy_sodium" by simp_all
  show ?thesis using readerE [OF toy_session n f] that by blast
qed

theorem reader_within_array_witness:
  "\<exists>wrap v'. SessionEncWrapper_reader toy_sodium
      (idle_world\<lparr>rx := [Seg (frame toy_sodium [7] (replicate 8 0) [1, 2, 3])]\<rparr>) = ret (wrap, v') \<and>
    reader_ok toy_sodium wrap"
proof -
  obtain v' where v: "SessionEncWrapper_reader toy_sodium
      (idle_world\<lparr>rx := [Seg (frame toy_sodium [7] (replicate 8 0) [1, 2, 3])]\<rparr>) =
    ret (framed (sealed toy_sodium [7] (replicate 8 0) [1, 2, 3]), v')" by (rule toy_frame_read)
  with reader_within_array [OF v] show ?thesis by auto
qed

lemma unwrap_code:
  assumes "sodium_sizes S" "reader_ok S wrap" "cap < 2 ^ 64"
  shows "fst (unwrap S wrap key cap buf len) =
     (if corrupted wrap then 4
      else if unat (session_encrypted_data_length wrap) < 16 then 3
      else if cap < unat (session_encrypted_data_length wrap) - 16 then 2
      else if aead_decrypt S (session_encrypted_data wrap) (wrap_nonce wrap) key = None then 1 else 0)"
proof -
  let ?l = "session_encrypted_data_length wrap"
  have a: "aead_ABYTES S = 16" "stream_chunk_size S = 65569"
    using assms(1) sodium_sizesD chunk_sizes by auto
  have l: "\<not> corrupted wrap \<Longrightarrow> unat ?l \<le> 65569" using assms(2) a by (auto simp: reader_ok_def)
  have short: "(65569 :: u64) < ?l - 16 \<longleftrightarrow> unat ?l < 16" if "unat ?l \<le> 65569"
    using that by (cases "unat ?l < 16") (auto simp: word_less_nat_alt unat_sub_if')
  have big: "(word_of_nat cap :: u64) < ?l - 16 \<longleftrightarrow> cap < unat ?l - 16" if "\<not> unat ?l < 16"
    using that assms(3) by (auto simp: word_less_nat_alt unat_sub_if' unat_of_nat_u64)
  have t: "enc_wrap_type wrap = READER" using assms(2) by (simp add: reader_ok_def)
  show "fst (unwrap S wrap key cap buf len) =
     (if corrupted wrap then 4
      else if unat ?l < 16 then 3
      else if cap < unat ?l - 16 then 2
      else if aead_decrypt S (session_encrypted_data wrap) (wrap_nonce wrap) key = None then 1 else 0)"
    using t l short big a by (auto simp: unwrap_def split: option.splits)
qed

text \<open>
  C25. The return code of \<open>unwrap\<close> on every branch, for a wrapper the reading constructor
  made: 4 for a corrupted one, 3 exactly for a frame too short to hold an authentication tag
  (the wrapped subtraction), 2 when the plaintext would exceed the caller's capacity, 1 when
  authentication fails, and 0 otherwise. Codes 2 and 1 mark the wrapper corrupted, 3 does not.
\<close>

theorem unwrap_codes:
  assumes "sodium_sizes S" "reader_ok S wrap" "cap < 2 ^ 64"
  shows "fst (unwrap S wrap key cap buf len) =
      (if corrupted wrap then 4
       else if unat (session_encrypted_data_length wrap) < 16 then 3
       else if cap < unat (session_encrypted_data_length wrap) - 16 then 2
       else if aead_decrypt S (session_encrypted_data wrap) (wrap_nonce wrap) key = None then 1 else 0) \<and>
     (corrupted (fst (snd (unwrap S wrap key cap buf len))) \<longleftrightarrow>
      fst (unwrap S wrap key cap buf len) \<in> {4, 2, 1})"
proof -
  have "corrupted (fst (snd (unwrap S wrap key cap buf len))) \<longleftrightarrow>
      fst (unwrap S wrap key cap buf len) \<in> {4, 2, 1}"
    using assms(2) by (auto simp: unwrap_def reader_ok_def split: option.splits)
  with unwrap_code [OF assms] show ?thesis by blast
qed

theorem unwrap_codes_witness:
  "fst (unwrap toy_sodium (framed ([], [1, 2])) [7] 250 [] 0) = 3 \<and>
   \<not> corrupted (fst (snd (unwrap toy_sodium (framed ([], [1, 2])) [7] 250 [] 0)))"
proof -
  have "reader_ok toy_sodium (framed ([], [1, 2]))" by (simp add: reader_ok_def framed_def)
  from unwrap_codes [OF toy_sizes this, of 250 "[7]" "[]" 0] show ?thesis
    by (simp add: framed_def)
qed

text \<open>
  C24. \<open>unwrap\<close> never changes the size of the caller's buffer, that is, it never writes past
  its end, provided the announced capacity is not larger than the buffer; this includes what a
  decryption that fails has written by then, so that a forged frame cannot overrun the buffer
  either. The length reported on success is within the capacity.
\<close>

theorem unwrap_within_buffer:
  assumes "session_laws S" "reader_ok S wrap" "cap < 2 ^ 64" "cap \<le> length buf"
    and "unwrap S wrap key cap buf len = (rc, wrap', buf', len')"
  shows "length buf' = length buf \<and> (rc = 0 \<longrightarrow> unat len' \<le> cap)"
proof (cases "rc = 0 \<or> rc = 1")
  case True
  from assms(1) have laws: "sodium_sizes S" "aead_laws S" by (auto simp: session_laws_def)
  let ?l = "unat (session_encrypted_data_length wrap)" and ?c = "session_encrypted_data wrap"
  from unwrap_code [OF laws(1) assms(2,3), of key buf len] assms(5) True
  have c: "\<not> corrupted wrap" "\<not> ?l < 16" "\<not> cap < ?l - 16" by (auto split: if_splits)
  with assms(2) sodium_sizesD(1) [OF laws(1)] have l: "length ?c - aead_ABYTES S \<le> cap"
    by (simp add: reader_ok_def)
  show ?thesis
  proof (cases "aead_decrypt S ?c (wrap_nonce wrap) key")
    case None
    with True assms(5) have "rc = 1" "buf' = write_into buf (aead_fail_buf S ?c buf)"
      by (auto simp: unwrap_def split: if_splits)
    with aead_fail_length [OF laws(2), of ?c buf] l assms(4) show ?thesis by simp
  next
    case (Some m)
    with True assms(5) have "buf' = write_into buf m" "len' = word_of_nat (length m)"
      by (auto simp: unwrap_def split: if_splits)
    moreover have "length m \<le> cap" using aead_decrypt_length [OF laws(2) Some] l by simp
    ultimately show ?thesis using assms(3,4) by (simp add: unat_of_nat_u64)
  qed
next
  case False
  with assms(5) show ?thesis by (auto simp: unwrap_def split: if_splits option.splits)
qed

lemma toy_unwrap:
  "unwrap toy_sodium (framed ([], [1, 2, 3] @ toy_tag [] [7])) [7] 4 [9, 9, 9, 9] 0 =
     (0, framed ([], [1, 2, 3] @ toy_tag [] [7]), [1, 2, 3, 9], 3)"
  by (simp add: unwrap_def framed_def toy_sodium_def toy_decrypt_def stream_chunk_size_def
      CHUNK_SIZE_def length_toy_tag write_into_def)

text \<open>A frame with a forged tag, into a buffer of four bytes.\<close>

lemma toy_unwrap_forged:
  "fst (unwrap toy_sodium (framed ([], replicate 20 0)) [7] 4 [9, 9, 9, 9] 0) = 1"
proof -
  have "toy_tag [] [7] \<noteq> replicate 16 0" by code_simp
  then have "toy_decrypt (replicate 20 0) [] [7] = None" by (auto simp: toy_decrypt_def)
  then show ?thesis
    by (simp add: unwrap_def framed_def toy_sodium_def stream_chunk_size_def CHUNK_SIZE_def)
qed

theorem unwrap_within_buffer_witness:
  "\<exists>wrap' buf' len'. unwrap toy_sodium (framed ([], replicate 20 0)) [7] 4 [9, 9, 9, 9] 0 = (1, wrap', buf', len') \<and>
     length buf' = 4"
proof -
  have ok: "reader_ok toy_sodium (framed ([], replicate 20 0))" by (simp add: reader_ok_def framed_def)
  obtain wrap' buf' len' where u:
    "unwrap toy_sodium (framed ([], replicate 20 0)) [7] 4 [9, 9, 9, 9] 0 = (1, wrap', buf', len')"
    using toy_unwrap_forged by (metis prod_cases4 fst_conv)
  have "(4 :: nat) < 2 ^ 64" "4 \<le> length [9, 9, 9, 9 :: byte]" by simp_all
  from unwrap_within_buffer [OF toy_session ok this u] u show ?thesis by simp
qed

text \<open>
  C26. Authenticity: what \<open>unwrap\<close> delivers with code 0 was encrypted under the caller's key
  and the frame's nonce; a frame that was not is refused.
\<close>

theorem unwrap_authentic:
  assumes "aead_laws S" "unwrap S wrap key cap buf len = (0, wrap', buf', len')"
  shows "\<exists>m. aead_encrypt S m (wrap_nonce wrap) key = Some (session_encrypted_data wrap) \<and>
     buf' = write_into buf m \<and> len' = word_of_nat (length m)"
  using assms
  by (auto simp: unwrap_def split: if_splits option.splits dest: aead_decrypt_sound)

theorem unwrap_authentic_witness:
  "\<exists>m. aead_encrypt toy_sodium m [] [7] = Some ([1, 2, 3] @ toy_tag [] [7]) \<and>
     [1, 2, 3, 9] = write_into [9, 9, 9, 9] m"
  using unwrap_authentic [OF toy_aead toy_unwrap] by (auto simp: framed_def)

section \<open>Nonces\<close>

lemma le_val_increments:
  assumes "increment_law S"
  shows "length ((sodium_increment S ^^ i) n) = length n \<and>
     le_val ((sodium_increment S ^^ i) n) = (le_val n + i) mod 256 ^ length n"
proof (induction i)
  case 0
  then show ?case using le_val_less [of n] by simp
next
  case (Suc i)
  with assms show ?case by (simp add: increment_law_def mod_Suc_eq)
qed

text \<open>The messages \<open>ms\<close> wrapped one after the other with the same nonce cell.\<close>

fun wrap_all ::
    "'st sodium \<Rightarrow> byte list \<Rightarrow> byte list \<Rightarrow> byte list list \<Rightarrow> world \<Rightarrow> (session_wrapper list \<times> byte list) run" where
  "wrap_all S key nonce [] w = ret ([], nonce)"
| "wrap_all S key nonce (m # ms) w =
     andthen (SessionEncWrapper_sender S m key nonce w) (\<lambda>(wrap, nonce).
     andthen (wrap_all S key nonce ms w) (\<lambda>(wraps, nonce).
     ret (wrap # wraps, nonce)))"

lemma sender_wraps:
  assumes "session_laws S" "length m \<le> FILE_ENCRYPTED_CHUNK_SIZE S"
  obtains wrap where "SessionEncWrapper_sender S m key nonce w = ret (wrap, sodium_increment S nonce)"
    "wrap_nonce wrap = sodium_increment S nonce"
    "aead_encrypt S m (sodium_increment S nonce) key = Some (session_encrypted_data wrap)"
proof -
  from assms(1) have "aead_laws S" by (simp add: session_laws_def)
  then obtain c where "aead_encrypt S m (sodium_increment S nonce) key = Some c"
    "length c = length m + aead_ABYTES S" by (rule aead_encryptE)
  with assms(2) show ?thesis
    by (intro that [of "\<lparr>corrupted = False, session_encrypted_data = c, wrap_nonce = sodium_increment S nonce,
        session_encrypted_data_length = word_of_nat (length c), enc_wrap_type = SENDER\<rparr>"])
      (simp_all add: SessionEncWrapper_sender_def encrypt_stream_buffer_def stream_chunk_size_def
        FILE_ENCRYPTED_CHUNK_SIZE_def)
qed

lemma wrap_all_nonces:
  assumes "session_laws S" "\<forall>m \<in> set ms. length m \<le> FILE_ENCRYPTED_CHUNK_SIZE S"
  shows "\<exists>wraps nonce'. wrap_all S key nonce ms w = ret (wraps, nonce') \<and>
     map wrap_nonce wraps = map (\<lambda>i. (sodium_increment S ^^ Suc i) nonce) [0..<length ms] \<and>
     list_all2 (\<lambda>m wrap. aead_encrypt S m (wrap_nonce wrap) key = Some (session_encrypted_data wrap)) ms wraps"
  using assms(2)
proof (induction ms arbitrary: nonce)
  case (Cons m ms)
  let ?n = "sodium_increment S nonce"
  from Cons.prems have "length m \<le> FILE_ENCRYPTED_CHUNK_SIZE S" by simp
  then obtain wrap where wrap: "SessionEncWrapper_sender S m key nonce w = ret (wrap, ?n)"
    "wrap_nonce wrap = ?n" "aead_encrypt S m ?n key = Some (session_encrypted_data wrap)"
    using sender_wraps [OF assms(1)] by blast
  from Cons obtain wraps nonce' where ws: "wrap_all S key ?n ms w = ret (wraps, nonce')"
    "map wrap_nonce wraps = map (\<lambda>i. (sodium_increment S ^^ Suc i) ?n) [0..<length ms]"
    "list_all2 (\<lambda>m wrap. aead_encrypt S m (wrap_nonce wrap) key = Some (session_encrypted_data wrap)) ms wraps"
    by force
  have "[0..<length (m # ms)] = 0 # map Suc [0..<length ms]"
    by (simp add: map_Suc_upt upt_conv_Cons del: upt_Suc)
  then have "map (\<lambda>i. (sodium_increment S ^^ Suc i) nonce) [0..<length (m # ms)] = map wrap_nonce (wrap # wraps)"
    using wrap(2) ws(2) by (simp add: funpow_swap1 del: upt_Suc)
  with wrap ws(1,3) show ?case by simp
qed simp

lemma increments_distinct:
  assumes "session_laws S" "length nonce = aead_NPUBBYTES S" "n \<le> 2 ^ 64"
  shows "distinct (map (\<lambda>i. (sodium_increment S ^^ Suc i) nonce) [0..<n])"
proof -
  from assms(1,2) have law: "increment_law S" and l: "length nonce = 8"
    using sodium_sizesD by (auto simp: session_laws_def)
  have "i = j" if "i < n" "j < n"
    and eq: "(sodium_increment S ^^ Suc i) nonce = (sodium_increment S ^^ Suc j) nonce" for i j
  proof -
    from eq le_val_increments [OF law, of "Suc i" nonce] le_val_increments [OF law, of "Suc j" nonce] l
    have "(le_val nonce + Suc i) mod 2 ^ 64 = (le_val nonce + Suc j) mod 2 ^ 64" by simp
    then have "i mod 2 ^ 64 = j mod 2 ^ 64" by (auto simp: nat_mod_eq_iff)
    with that assms(3) show ?thesis by simp
  qed
  then show ?thesis unfolding distinct_map inj_on_def by simp
qed

text \<open>
  C31. Nonces do not repeat: of up to \<open>2 ^ 64\<close> messages wrapped for sending with the same
  nonce cell, each is encrypted under the nonce in its wrapper, and these nonces are pairwise
  different.
\<close>

theorem nonces_distinct:
  assumes "session_laws S" "length nonce = aead_NPUBBYTES S" "length ms \<le> 2 ^ 64"
    and "\<forall>m \<in> set ms. length m \<le> FILE_ENCRYPTED_CHUNK_SIZE S"
  shows "\<exists>wraps nonce'. wrap_all S key nonce ms w = ret (wraps, nonce') \<and> distinct (map wrap_nonce wraps) \<and>
     list_all2 (\<lambda>m wrap. aead_encrypt S m (wrap_nonce wrap) key = Some (session_encrypted_data wrap)) ms wraps"
proof -
  obtain wraps nonce' where w: "wrap_all S key nonce ms w = ret (wraps, nonce')"
    "map wrap_nonce wraps = map (\<lambda>i. (sodium_increment S ^^ Suc i) nonce) [0..<length ms]"
    "list_all2 (\<lambda>m wrap. aead_encrypt S m (wrap_nonce wrap) key = Some (session_encrypted_data wrap)) ms wraps"
    using wrap_all_nonces [OF assms(1,4), of key nonce w] by (elim exE conjE)
  have "distinct (map wrap_nonce wraps)" unfolding w(2) by (rule increments_distinct [OF assms(1-3)])
  with w(1,3) show ?thesis by blast
qed

theorem nonces_distinct_witness:
  "\<exists>wraps nonce'. wrap_all toy_sodium [7] (replicate 8 255) [[1], [1], [2, 3]] idle_world = ret (wraps, nonce') \<and>
     distinct (map wrap_nonce wraps) \<and> length wraps = 3"
proof -
  let ?ms = "[[1], [1], [2, 3]] :: byte list list"
  have "length (replicate 8 255 :: byte list) = aead_NPUBBYTES toy_sodium" "length ?ms \<le> 2 ^ 64"
    "\<forall>m \<in> set ?ms. length m \<le> FILE_ENCRYPTED_CHUNK_SIZE toy_sodium" by simp_all
  from nonces_distinct [OF toy_session this, of "[7]" idle_world] obtain wraps nonce' where
    "wrap_all toy_sodium [7] (replicate 8 255) ?ms idle_world = ret (wraps, nonce')" "distinct (map wrap_nonce wraps)"
    and "list_all2 (\<lambda>m wrap. aead_encrypt toy_sodium m (wrap_nonce wrap) [7] = Some (session_encrypted_data wrap)) ?ms wraps"
    by (elim exE conjE)
  moreover from this(3) have "length wraps = 3" by (auto dest: list_all2_lengthD)
  ultimately show ?thesis by blast
qed

end
