(* ===== verification/Transition.thy ===== *)
theory Transition
  imports Main
begin

text \<open>
  Labelled transition systems, used for the parts of the program that run concurrently (the
  two-slot buffer with its two threads, the server with its workers). The interfaces state
  what a system has to provide (an invariant kept by every step; a measure that the labelled
  work steps decrease and the others raise by a bounded amount; progress as long as it is not
  finished), and what follows for every schedule is proved once, here.
\<close>

inductive steps :: "('l \<Rightarrow> 's \<Rightarrow> 's \<Rightarrow> bool) \<Rightarrow> 's \<Rightarrow> 's \<Rightarrow> bool" for step where
  start: "steps step s s"
| move: "steps step s t \<Longrightarrow> step l t u \<Longrightarrow> steps step s u"

lemma steps_trans: "steps step t u \<Longrightarrow> steps step s t \<Longrightarrow> steps step s u"
  by (induction rule: steps.induct) (auto intro: steps.intros)

lemma steps_one: "step l s t \<Longrightarrow> steps step s t"
  by (auto intro: steps.intros)

lemma steps_first: "step l s t \<Longrightarrow> steps step t u \<Longrightarrow> steps step s u"
  by (rule steps_trans) (auto intro: steps.intros)

text \<open>The steps whose label satisfies \<open>P\<close>.\<close>

definition restrict :: "('l \<Rightarrow> bool) \<Rightarrow> ('l \<Rightarrow> 's \<Rightarrow> 's \<Rightarrow> bool) \<Rightarrow> 'l \<Rightarrow> 's \<Rightarrow> 's \<Rightarrow> bool" where
  "restrict P step l s t \<longleftrightarrow> P l \<and> step l s t"

lemma steps_restrict: "steps (restrict P step) s t \<Longrightarrow> steps step s t"
  by (induction rule: steps.induct) (auto intro: steps.intros simp: restrict_def)

text \<open>What a fixed cost per event adds up to.\<close>

lemma sum_list_cost:
  fixes k :: nat
  assumes "\<And>x. P x \<Longrightarrow> Q x"
  shows "sum_list (map (\<lambda>x. if P x then k else 0) (filter Q xs)) = k * length (filter P xs)"
  using assms by (induction xs) auto

locale invariant_system =
  fixes step :: "'l \<Rightarrow> 's \<Rightarrow> 's \<Rightarrow> bool"
    and inv :: "'s \<Rightarrow> bool"
  assumes inv_step: "step l s t \<Longrightarrow> inv s \<Longrightarrow> inv t"
begin

lemma inv_steps: "steps step s t \<Longrightarrow> inv s \<Longrightarrow> inv t"
  by (induction rule: steps.induct) (auto intro: inv_step)

end

text \<open>
  A system whose work is bounded: some labels are work, the others (a spurious wake-up, an
  event from outside) may happen at any time. Until the system is finished, work decreases the
  measure, and any other step adds at most \<open>gain\<close> to it.
\<close>

locale bounded_system = invariant_system step inv
  for step :: "'l \<Rightarrow> 's \<Rightarrow> 's \<Rightarrow> bool" and inv :: "'s \<Rightarrow> bool" +
  fixes work :: "'l \<Rightarrow> bool"
    and finished :: "'s \<Rightarrow> bool"
    and todo :: "'s \<Rightarrow> nat"
    and gain :: "'l \<Rightarrow> nat"
  assumes work_decreases: "step l s t \<Longrightarrow> inv s \<Longrightarrow> \<not> finished s \<Longrightarrow> work l \<Longrightarrow> todo t < todo s"
    and others_add: "step l s t \<Longrightarrow> inv s \<Longrightarrow> \<not> finished s \<Longrightarrow> \<not> work l \<Longrightarrow> todo t \<le> todo s + gain l"
begin

text \<open>
  Every schedule: of the first \<open>n\<close> steps, up to the first finished state, the working ones are
  at most the measure at the start plus what the others have added.
\<close>

lemma work_bounded:
  assumes "inv (run 0)"
    and "\<And>i. i < n \<Longrightarrow> step (lab i) (run i) (run (Suc i)) \<and> \<not> finished (run i)"
  shows "length (filter (\<lambda>i. work (lab i)) [0..<n]) \<le>
     todo (run 0) + sum_list (map (\<lambda>i. gain (lab i)) (filter (\<lambda>i. \<not> work (lab i)) [0..<n]))"
proof -
  have "i \<le> n \<Longrightarrow> inv (run i) \<and> todo (run i) + length (filter (\<lambda>i. work (lab i)) [0..<i]) \<le>
     todo (run 0) + sum_list (map (\<lambda>i. gain (lab i)) (filter (\<lambda>i. \<not> work (lab i)) [0..<i]))" for i
  proof (induction i)
    case 0
    with assms(1) show ?case by simp
  next
    case (Suc i)
    from Suc.prems assms(2) have s: "step (lab i) (run i) (run (Suc i))" "\<not> finished (run i)" by simp_all
    from Suc have i: "inv (run i)" and b: "todo (run i) + length (filter (\<lambda>i. work (lab i)) [0..<i]) \<le>
      todo (run 0) + sum_list (map (\<lambda>i. gain (lab i)) (filter (\<lambda>i. \<not> work (lab i)) [0..<i]))" by simp_all
    from inv_step [OF s(1) i] work_decreases [OF s(1) i s(2)] others_add [OF s(1) i s(2)] b
    show ?case by (cases "work (lab i)") auto
  qed
  from this [of n] show ?thesis by simp
qed

end

text \<open>
  A system that gets its work done: as long as it is not finished, some work step is possible.
\<close>

locale working_system = bounded_system step inv work finished todo gain
  for step :: "'l \<Rightarrow> 's \<Rightarrow> 's \<Rightarrow> bool" and inv :: "'s \<Rightarrow> bool" and work :: "'l \<Rightarrow> bool"
    and finished :: "'s \<Rightarrow> bool" and todo :: "'s \<Rightarrow> nat" and gain :: "'l \<Rightarrow> nat" +
  assumes progress: "inv s \<Longrightarrow> \<not> finished s \<Longrightarrow> \<exists>l t. work l \<and> step l s t"
begin

text \<open>From every unfinished state that satisfies the invariant, doing work leads to a last step of work.\<close>

lemma work_last:
  "inv s \<Longrightarrow> \<not> finished s \<Longrightarrow>
     \<exists>u l t. steps (restrict work step) s u \<and> inv u \<and> \<not> finished u \<and> work l \<and> step l u t \<and> finished t"
proof (induction "todo s" arbitrary: s rule: less_induct)
  case less
  then obtain l t where t: "work l" "step l s t" by (blast dest: progress)
  with less.prems have inv: "inv t" "todo t < todo s" by (auto intro: inv_step work_decreases)
  show ?case
  proof (cases "finished t")
    case True
    with less.prems t show ?thesis by (blast intro: steps.start)
  next
    case False
    moreover have "restrict work step l s t" using t by (simp add: restrict_def)
    ultimately show ?thesis using less.hyps [OF inv(2,1)] by (blast intro: steps_first)
  qed
qed

lemma work_finishes:
  assumes "inv s"
  shows "\<exists>t. steps (restrict work step) s t \<and> finished t"
proof (cases "finished s")
  case True
  then show ?thesis by (blast intro: steps.start)
next
  case False
  with assms obtain u l t where "steps (restrict work step) s u" "work l" "step l u t" "finished t"
    by (blast dest: work_last)
  moreover from this have "restrict work step l u t" by (simp add: restrict_def)
  ultimately show ?thesis by (blast intro: steps.move)
qed

text \<open>Under every schedule: wherever it leads, the system is finished or some work step is possible.\<close>

lemma never_stuck: "inv s \<Longrightarrow> steps step s t \<Longrightarrow> finished t \<or> (\<exists>l u. work l \<and> step l t u)"
  using inv_steps progress by blast

end

end
