(* ===== verification/Two_Slot_Buffer.thy ===== *)
theory Two_Slot_Buffer
  imports MEFSC_Prelude Transition "HOL-Library.Multiset"
begin

text \<open>
  The double buffer between the thread that receives or decrypts file chunks and the thread
  that writes them to disk (\<open>include/common/TwoSlotBuffer.h\<close>), and the two threads around it
  as a transition system. Each critical section of the class is one step; what happens outside
  the mutex (filling a slot, writing a slot to the file) is cut into smaller steps that
  interleave freely. The theorems: the two threads never use the same slot at the same time,
  no wake-up is lost, every schedule finishes, and the file receives the published chunks in
  order, whatever the schedule.
\<close>

section \<open>The buffer\<close>

record two_slot =
  capacity :: nat
  slots :: "byte list list"
  slot_len :: "nat list"
  producer_slot :: int
  consumer_slot :: int
  free_slots :: "int list"
  ready_slots :: "int list"
  is_done :: bool

definition TwoSlotBuffer :: "nat \<Rightarrow> two_slot" where
  "TwoSlotBuffer slot_cap =
     \<lparr>capacity = slot_cap, slots = [replicate slot_cap 0, replicate slot_cap 0],
      slot_len = [0, 0], producer_slot = - 1, consumer_slot = - 1,
      free_slots = [0, 1], ready_slots = [], is_done = False\<rparr>"

text \<open>
  A call that waits on a condition variable is \<open>None\<close> as long as its predicate is false.
  Otherwise \<open>next_writable\<close> gives the slot, \<open>wait_ready\<close> gives the slot with its length, or
  \<open>None\<close> in place of the null pointer.
\<close>

definition next_writable :: "two_slot \<Rightarrow> (int \<times> two_slot) option" where
  "next_writable b =
     (case free_slots b of
        [] \<Rightarrow> None
      | s # fs \<Rightarrow> Some (s, b\<lparr>producer_slot := s, free_slots := fs\<rparr>))"

definition publish :: "nat \<Rightarrow> two_slot \<Rightarrow> two_slot" where
  "publish filled_len b =
     b\<lparr>slot_len := (slot_len b)[nat (producer_slot b) := filled_len], ready_slots := ready_slots b @ [producer_slot b]\<rparr>"

definition finish :: "two_slot \<Rightarrow> two_slot" where
  "finish b = b\<lparr>is_done := True\<rparr>"

definition wait_ready :: "two_slot \<Rightarrow> ((int \<times> nat) option \<times> two_slot) option" where
  "wait_ready b =
     (if ready_slots b = [] \<and> \<not> is_done b then None
      else (case ready_slots b of
          [] \<Rightarrow> Some (None, b)
        | s # rs \<Rightarrow> Some (Some (s, slot_len b ! nat s), b\<lparr>consumer_slot := s, ready_slots := rs\<rparr>)))"

definition done_with :: "two_slot \<Rightarrow> two_slot" where
  "done_with b = b\<lparr>free_slots := free_slots b @ [consumer_slot b]\<rparr>"

definition TwoSlotBuffer_destroy :: "two_slot \<Rightarrow> two_slot" where
  "TwoSlotBuffer_destroy b = b\<lparr>slots := [replicate (capacity b) 0, replicate (capacity b) 0]\<rparr>"

text \<open>Storing through the pointer a caller got from the buffer, and reading through it.\<close>

definition store_slot :: "int \<Rightarrow> byte list \<Rightarrow> two_slot \<Rightarrow> two_slot" where
  "store_slot s data b = b\<lparr>slots := (slots b)[nat s := write_into (slots b ! nat s) data]\<rparr>"

definition slot_bytes :: "two_slot \<Rightarrow> int \<Rightarrow> nat \<Rightarrow> byte list" where
  "slot_bytes b s n = take n (slots b ! nat s)"

section \<open>The two threads\<close>

text \<open>
  The producer is the loop of \<open>WTFS_Handler__Server\<close> or of
  \<open>decrypt_and_read_from_server\<close>: for each chunk it takes a slot, fills it and publishes it;
  at the end it calls \<open>finish\<close>, in the error case while it still holds a slot (\<open>p_abort\<close>).
  The consumer is the lambda both functions start as the writer thread. A thread that finds
  its predicate false goes to sleep on the condition variable; it runs again when it is
  notified, or spuriously.
\<close>

datatype producer_pc = P_Want | P_Asleep | P_Fill | P_Full | P_Finished

datatype consumer_pc = C_Want | C_Asleep | is_Write: C_Write (write_len: nat) (written: nat) | C_Exit

record pipe =
  p_buf :: two_slot
  p_pending :: "byte list list"
  p_abort :: bool
  ppc :: producer_pc
  cpc :: consumer_pc
  p_out :: "byte list"

datatype pipe_label =
  Acquire | Producer_Sleeps | Scribble | Fill | Publish | Finish
| Take | Consumer_Sleeps | Write_Byte | Release | Leave | Spurious

definition wake_consumer :: "consumer_pc \<Rightarrow> consumer_pc" where
  "wake_consumer c = (if c = C_Asleep then C_Want else c)"

definition wake_producer :: "producer_pc \<Rightarrow> producer_pc" where
  "wake_producer p = (if p = P_Asleep then P_Want else p)"

definition wants_slot :: "pipe \<Rightarrow> bool" where
  "wants_slot s \<longleftrightarrow> p_pending s \<noteq> [] \<or> p_abort s"

inductive pipe_step :: "pipe_label \<Rightarrow> pipe \<Rightarrow> pipe \<Rightarrow> bool" where
  acquire: "ppc s = P_Want \<Longrightarrow> wants_slot s \<Longrightarrow> next_writable (p_buf s) = Some (i, b) \<Longrightarrow>
     pipe_step Acquire s (s\<lparr>p_buf := b, ppc := P_Fill\<rparr>)"
| producer_sleeps: "ppc s = P_Want \<Longrightarrow> wants_slot s \<Longrightarrow> next_writable (p_buf s) = None \<Longrightarrow>
     pipe_step Producer_Sleeps s (s\<lparr>ppc := P_Asleep\<rparr>)"
| scribble: "ppc s = P_Fill \<Longrightarrow> length data \<le> capacity (p_buf s) \<Longrightarrow>
     pipe_step Scribble s (s\<lparr>p_buf := store_slot (producer_slot (p_buf s)) data (p_buf s)\<rparr>)"
| fill: "ppc s = P_Fill \<Longrightarrow> p_pending s = c # cs \<Longrightarrow>
     pipe_step Fill s (s\<lparr>p_buf := store_slot (producer_slot (p_buf s)) c (p_buf s), ppc := P_Full\<rparr>)"
| publish: "ppc s = P_Full \<Longrightarrow> p_pending s = c # cs \<Longrightarrow>
     pipe_step Publish s (s\<lparr>p_buf := publish (length c) (p_buf s), p_pending := cs,
       ppc := P_Want, cpc := wake_consumer (cpc s)\<rparr>)"
| finish_idle: "ppc s = P_Want \<Longrightarrow> \<not> wants_slot s \<Longrightarrow>
     pipe_step Finish s (s\<lparr>p_buf := finish (p_buf s), ppc := P_Finished, cpc := wake_consumer (cpc s)\<rparr>)"
| finish_abort: "ppc s = P_Fill \<Longrightarrow> p_pending s = [] \<Longrightarrow>
     pipe_step Finish s (s\<lparr>p_buf := finish (p_buf s), ppc := P_Finished, cpc := wake_consumer (cpc s)\<rparr>)"
| take: "cpc s = C_Want \<Longrightarrow> wait_ready (p_buf s) = Some (Some (i, n), b) \<Longrightarrow>
     pipe_step Take s (s\<lparr>p_buf := b, cpc := C_Write n 0\<rparr>)"
| consumer_sleeps: "cpc s = C_Want \<Longrightarrow> wait_ready (p_buf s) = None \<Longrightarrow>
     pipe_step Consumer_Sleeps s (s\<lparr>cpc := C_Asleep\<rparr>)"
| leave: "cpc s = C_Want \<Longrightarrow> wait_ready (p_buf s) = Some (None, b) \<Longrightarrow>
     pipe_step Leave s (s\<lparr>p_buf := b, cpc := C_Exit\<rparr>)"
| write_byte: "cpc s = C_Write n k \<Longrightarrow> k < n \<Longrightarrow>
     pipe_step Write_Byte s (s\<lparr>p_out := p_out s @ [slots (p_buf s) ! nat (consumer_slot (p_buf s)) ! k],
       cpc := C_Write n (Suc k)\<rparr>)"
| release: "cpc s = C_Write n n \<Longrightarrow>
     pipe_step Release s (s\<lparr>p_buf := done_with (p_buf s), cpc := C_Want, ppc := wake_producer (ppc s)\<rparr>)"
| spurious_producer: "ppc s = P_Asleep \<Longrightarrow> pipe_step Spurious s (s\<lparr>ppc := P_Want\<rparr>)"
| spurious_consumer: "cpc s = C_Asleep \<Longrightarrow> pipe_step Spurious s (s\<lparr>cpc := C_Want\<rparr>)"

definition pipe_start :: "nat \<Rightarrow> byte list list \<Rightarrow> bool \<Rightarrow> pipe" where
  "pipe_start cap chunks aborts =
     \<lparr>p_buf = TwoSlotBuffer cap, p_pending = chunks, p_abort = aborts, ppc = P_Want, cpc = C_Want, p_out = []\<rparr>"

definition joined :: "pipe \<Rightarrow> bool" where
  "joined s \<longleftrightarrow> ppc s = P_Finished \<and> cpc s = C_Exit"

section \<open>The invariant\<close>

text \<open>
  Who holds which slot. The four parts are always a permutation of the two slots.
\<close>

definition producer_holds :: "pipe \<Rightarrow> int list" where
  "producer_holds s = (if ppc s = P_Fill \<or> ppc s = P_Full \<or> (ppc s = P_Finished \<and> p_abort s)
                       then [producer_slot (p_buf s)] else [])"

definition consumer_holds :: "pipe \<Rightarrow> int list" where
  "consumer_holds s = (if is_Write (cpc s) then [consumer_slot (p_buf s)] else [])"

definition slots_partition :: "pipe \<Rightarrow> bool" where
  "slots_partition s \<longleftrightarrow>
     mset (producer_holds s @ ready_slots (p_buf s) @ consumer_holds s @ free_slots (p_buf s))
       = mset [0, 1]"

definition shape_ok :: "pipe \<Rightarrow> bool" where
  "shape_ok s \<longleftrightarrow> length (slots (p_buf s)) = 2 \<and> length (slot_len (p_buf s)) = 2 \<and>
     (\<forall>x \<in> set (slots (p_buf s)). length x = capacity (p_buf s)) \<and>
     (\<forall>c \<in> set (p_pending s). length c \<le> capacity (p_buf s))"

text \<open>How the program counters of the two threads agree with the flags and queues.\<close>

definition pcs_ok :: "pipe \<Rightarrow> bool" where
  "pcs_ok s \<longleftrightarrow>
     (ppc s = P_Asleep \<longrightarrow> free_slots (p_buf s) = [] \<and> wants_slot s) \<and>
     (ppc s = P_Fill \<longrightarrow> wants_slot s) \<and>
     (ppc s = P_Full \<longrightarrow> p_pending s \<noteq> [] \<and>
        slot_bytes (p_buf s) (producer_slot (p_buf s)) (length (hd (p_pending s))) = hd (p_pending s)) \<and>
     (ppc s = P_Finished \<longleftrightarrow> is_done (p_buf s)) \<and>
     (ppc s = P_Finished \<longrightarrow> p_pending s = []) \<and>
     (cpc s = C_Asleep \<longrightarrow> ready_slots (p_buf s) = [] \<and> \<not> is_done (p_buf s)) \<and>
     (cpc s = C_Exit \<longrightarrow> ready_slots (p_buf s) = [] \<and> is_done (p_buf s)) \<and>
     (is_Write (cpc s) \<longrightarrow> written (cpc s) \<le> write_len (cpc s) \<and> write_len (cpc s) \<le> capacity (p_buf s))"

text \<open>What is published but not yet in the file.\<close>

definition in_flight :: "pipe \<Rightarrow> byte list" where
  "in_flight s =
     (if is_Write (cpc s)
      then drop (written (cpc s)) (slot_bytes (p_buf s) (consumer_slot (p_buf s)) (write_len (cpc s)))
      else []) @
     concat (map (\<lambda>i. slot_bytes (p_buf s) i (slot_len (p_buf s) ! nat i)) (ready_slots (p_buf s)))"

definition lens_ok :: "pipe \<Rightarrow> bool" where
  "lens_ok s \<longleftrightarrow> (\<forall>i \<in> set (ready_slots (p_buf s)). slot_len (p_buf s) ! nat i \<le> capacity (p_buf s))"

definition pipe_inv :: "nat \<Rightarrow> byte list list \<Rightarrow> pipe \<Rightarrow> bool" where
  "pipe_inv cap chunks s \<longleftrightarrow> capacity (p_buf s) = cap \<and> shape_ok s \<and> slots_partition s \<and> pcs_ok s \<and>
     lens_ok s \<and> p_out s @ in_flight s @ concat (p_pending s) = concat chunks"

lemmas buffer_defs = next_writable_def publish_def finish_def wait_ready_def done_with_def

lemmas holds_defs = producer_holds_def consumer_holds_def slots_partition_def wants_slot_def
  wake_consumer_def wake_producer_def

section \<open>Every step keeps it\<close>

lemma slot_bytes_store_other:
  "nat i \<noteq> nat j \<Longrightarrow> slot_bytes (store_slot j d b) i n = slot_bytes b i n"
  by (simp add: slot_bytes_def store_slot_def)

lemma slot_bytes_store_same:
  "nat j < length (slots b) \<Longrightarrow> slot_bytes (store_slot j d b) j (length d) = d"
  by (simp add: slot_bytes_def store_slot_def)

lemma store_slot_fields [simp]:
  "capacity (store_slot j d b) = capacity b" "slot_len (store_slot j d b) = slot_len b"
  "producer_slot (store_slot j d b) = producer_slot b" "consumer_slot (store_slot j d b) = consumer_slot b"
  "free_slots (store_slot j d b) = free_slots b" "ready_slots (store_slot j d b) = ready_slots b"
  "is_done (store_slot j d b) = is_done b" "length (slots (store_slot j d b)) = length (slots b)"
  by (simp_all add: store_slot_def)

lemma store_slot_lengths:
  assumes "\<forall>x \<in> set (slots b). length x = capacity b" "length d \<le> capacity b"
  shows "\<forall>x \<in> set (slots (store_slot j d b)). length x = capacity b"
proof (cases "nat j < length (slots b)")
  case True
  with assms have "length (write_into (slots b ! nat j) d) = capacity b" by (simp add: max_def)
  with assms(1) show ?thesis
    unfolding store_slot_def by (auto dest: set_update_subset_insert [THEN subsetD])
next
  case False
  with assms(1) show ?thesis by (simp add: store_slot_def list_update_beyond)
qed

lemma partition_step:
  assumes "pipe_step l s t" "pcs_ok s" "slots_partition s"
  shows "slots_partition t"
  using assms
proof (induction rule: pipe_step.induct)
  case (finish_abort s)
  then show ?case by (auto simp: holds_defs buffer_defs pcs_ok_def)
qed (auto simp: holds_defs buffer_defs split: list.splits if_splits)

lemma partition_facts:
  assumes "slots_partition s"
  shows "distinct (producer_holds s @ ready_slots (p_buf s) @ consumer_holds s @ free_slots (p_buf s))"
    "set (producer_holds s @ ready_slots (p_buf s) @ consumer_holds s @ free_slots (p_buf s)) = {0, 1}"
proof -
  note m = assms [unfolded slots_partition_def]
  show "distinct (producer_holds s @ ready_slots (p_buf s) @ consumer_holds s @ free_slots (p_buf s))"
    unfolding mset_eq_imp_distinct_iff [OF m] by simp
  show "set (producer_holds s @ ready_slots (p_buf s) @ consumer_holds s @ free_slots (p_buf s)) = {0, 1}"
    unfolding mset_eq_setD [OF m] by simp
qed

text \<open>The producer's slot is neither ready nor being written to the file.\<close>

lemma producer_slot_separate:
  assumes "slots_partition s" "ppc s = P_Fill \<or> ppc s = P_Full"
  shows "producer_slot (p_buf s) \<in> {0, 1}"
    "i \<in> set (ready_slots (p_buf s)) \<Longrightarrow> nat i \<noteq> nat (producer_slot (p_buf s))"
    "is_Write (cpc s) \<Longrightarrow> nat (consumer_slot (p_buf s)) \<noteq> nat (producer_slot (p_buf s))"
proof -
  note f = partition_facts [OF assms(1)]
  have held: "producer_holds s = [producer_slot (p_buf s)]"
    using assms(2) by (auto simp: producer_holds_def)
  show p: "producer_slot (p_buf s) \<in> {0, 1}" using f(2) held by auto
  show "nat i \<noteq> nat (producer_slot (p_buf s))" if "i \<in> set (ready_slots (p_buf s))"
  proof -
    from that f held have "i \<in> {0, 1}" "i \<noteq> producer_slot (p_buf s)" by auto
    with p show ?thesis by auto
  qed
  show "nat (consumer_slot (p_buf s)) \<noteq> nat (producer_slot (p_buf s))" if "is_Write (cpc s)"
  proof -
    from that have "consumer_holds s = [consumer_slot (p_buf s)]" by (simp add: consumer_holds_def)
    with f held have "consumer_slot (p_buf s) \<in> {0, 1}" "consumer_slot (p_buf s) \<noteq> producer_slot (p_buf s)"
      by auto
    with p show ?thesis by auto
  qed
qed

lemma ready_slot_range: "slots_partition s \<Longrightarrow> i \<in> set (ready_slots (p_buf s)) \<Longrightarrow> i \<in> {0, 1}"
  using partition_facts(2) [of s] by auto

lemma shape_step: "pipe_step l s t \<Longrightarrow> shape_ok s \<Longrightarrow> capacity (p_buf t) = capacity (p_buf s) \<and> shape_ok t"
proof (induction rule: pipe_step.induct)
  case (scribble s data)
  then show ?case using store_slot_lengths [of "p_buf s" data] by (simp add: shape_ok_def)
next
  case (fill s c cs)
  then show ?case using store_slot_lengths [of "p_buf s" c] by (simp add: shape_ok_def)
qed (auto simp: shape_ok_def buffer_defs split: list.splits if_splits)

lemma lens_step:
  assumes "pipe_step l s t" "shape_ok s" "slots_partition s" "lens_ok s"
  shows "lens_ok t"
  using assms
proof (induction rule: pipe_step.induct)
  case (publish s c cs)
  then have "producer_slot (p_buf s) \<in> {0, 1}" by (intro producer_slot_separate(1)) auto
  with publish show ?case
    by (auto simp: lens_ok_def shape_ok_def buffer_defs nth_list_update)
qed (auto simp: lens_ok_def buffer_defs split: list.splits if_splits)

lemma pcs_step:
  assumes "pipe_step l s t" "shape_ok s" "slots_partition s" "lens_ok s" "pcs_ok s"
  shows "pcs_ok t"
  using assms
proof (induction rule: pipe_step.induct)
  case (fill s c cs)
  then have p: "producer_slot (p_buf s) \<in> {0, 1}" by (intro producer_slot_separate(1)) auto
  with fill show ?case
    by (auto simp: pcs_ok_def shape_ok_def slot_bytes_store_same)
next
  case (publish s c cs)
  then show ?case by (auto simp: pcs_ok_def buffer_defs wake_consumer_def wants_slot_def)
next
  case (take s i n b)
  then show ?case
    by (auto simp: pcs_ok_def lens_ok_def buffer_defs wants_slot_def slot_bytes_def
        split: list.splits if_splits)
next
  case (release s n)
  then show ?case by (auto simp: pcs_ok_def buffer_defs wake_producer_def wants_slot_def slot_bytes_def)
qed (auto simp: pcs_ok_def buffer_defs wake_consumer_def wants_slot_def slot_bytes_def
      split: list.splits if_splits)

text \<open>Nothing is lost, duplicated or reordered on the way to the file.\<close>

definition ready_bytes :: "two_slot \<Rightarrow> byte list" where
  "ready_bytes b = concat (map (\<lambda>i. slot_bytes b i (slot_len b ! nat i)) (ready_slots b))"

lemma in_flight_alt:
  "in_flight s = (if is_Write (cpc s)
      then drop (written (cpc s)) (slot_bytes (p_buf s) (consumer_slot (p_buf s)) (write_len (cpc s)))
      else []) @ ready_bytes (p_buf s)"
  by (simp add: in_flight_def ready_bytes_def)

lemma ready_bytes_store:
  assumes "\<And>i. i \<in> set (ready_slots b) \<Longrightarrow> nat i \<noteq> nat j"
  shows "ready_bytes (store_slot j d b) = ready_bytes b"
  unfolding ready_bytes_def using assms
  by (intro arg_cong [of _ _ concat] map_cong) (simp_all add: slot_bytes_store_other)

lemma ready_bytes_publish:
  assumes "\<And>i. i \<in> set (ready_slots b) \<Longrightarrow> nat i \<noteq> nat (producer_slot b)"
    and "nat (producer_slot b) < length (slot_len b)"
  shows "ready_bytes (publish n b) = ready_bytes b @ slot_bytes b (producer_slot b) n"
proof -
  have "map (\<lambda>i. slot_bytes (publish n b) i (slot_len (publish n b) ! nat i)) (ready_slots b) =
      map (\<lambda>i. slot_bytes b i (slot_len b ! nat i)) (ready_slots b)"
    by (intro map_cong) (simp_all add: slot_bytes_def publish_def assms(1) [THEN not_sym])
  moreover have "ready_slots (publish n b) = ready_slots b @ [producer_slot b]"
    "slot_bytes (publish n b) (producer_slot b) (slot_len (publish n b) ! nat (producer_slot b)) =
       slot_bytes b (producer_slot b) n"
    using assms(2) by (simp_all add: publish_def slot_bytes_def)
  ultimately show ?thesis unfolding ready_bytes_def by (simp only: map_append concat_append) simp
qed

lemma in_flight_store:
  assumes "slots_partition s" "ppc s = P_Fill \<or> ppc s = P_Full"
  shows "in_flight (s\<lparr>p_buf := store_slot (producer_slot (p_buf s)) d (p_buf s), ppc := p\<rparr>) = in_flight s"
    "in_flight (s\<lparr>p_buf := store_slot (producer_slot (p_buf s)) d (p_buf s)\<rparr>) = in_flight s"
  using producer_slot_separate [OF assms]
  by (simp_all add: in_flight_alt ready_bytes_store slot_bytes_store_other)

lemma in_flight_publish:
  assumes "slots_partition s" "shape_ok s" "pcs_ok s" "ppc s = P_Full" "p_pending s = c # cs"
  shows "in_flight (s\<lparr>p_buf := publish (length c) (p_buf s), p_pending := cs, ppc := P_Want,
      cpc := wake_consumer (cpc s)\<rparr>) = in_flight s @ c"
proof -
  note sep = producer_slot_separate [OF assms(1) disjI2 [OF assms(4)]]
  have "nat (producer_slot (p_buf s)) < length (slot_len (p_buf s))"
    using sep(1) assms(2) by (auto simp: shape_ok_def)
  moreover have "slot_bytes (p_buf s) (producer_slot (p_buf s)) (length c) = c"
    using assms(3-5) by (simp add: pcs_ok_def)
  moreover have "slot_bytes (publish (length c) (p_buf s)) i n = slot_bytes (p_buf s) i n"
    "consumer_slot (publish (length c) (p_buf s)) = consumer_slot (p_buf s)" for i n
    by (simp_all add: publish_def slot_bytes_def)
  ultimately show ?thesis
    using sep(2) by (simp add: in_flight_alt ready_bytes_publish wake_consumer_def)
qed

lemma flow_step:
  assumes "pipe_step l s t" "shape_ok s" "slots_partition s" "lens_ok s" "pcs_ok s"
  shows "p_out t @ in_flight t @ concat (p_pending t) = p_out s @ in_flight s @ concat (p_pending s)"
  using assms
proof (induction rule: pipe_step.induct)
  case (scribble s data)
  then show ?case using in_flight_store(2) [of s data] by simp
next
  case (fill s c cs)
  then show ?case using in_flight_store(1) [of s P_Full c] by simp
next
  case (publish s c cs)
  then show ?case using in_flight_publish [of s c cs] by simp
next
  case (write_byte s n k)
  have "consumer_slot (p_buf s) \<in> {0, 1}"
    unfolding partition_facts(2) [OF write_byte(4), symmetric] using write_byte(1)
    by (simp add: consumer_holds_def)
  then have "nat (consumer_slot (p_buf s)) < 2" by auto
  then have "length (slots (p_buf s) ! nat (consumer_slot (p_buf s))) = capacity (p_buf s)"
    using write_byte(3) by (simp add: shape_ok_def)
  with write_byte show ?case
    by (simp add: in_flight_def slot_bytes_def pcs_ok_def Cons_nth_drop_Suc [symmetric])
qed (auto simp: in_flight_def buffer_defs slot_bytes_def wake_consumer_def split: list.splits if_splits)

lemma pipe_inv_step: "pipe_step l s t \<Longrightarrow> pipe_inv cap chunks s \<Longrightarrow> pipe_inv cap chunks t"
  using shape_step partition_step pcs_step lens_step flow_step unfolding pipe_inv_def by metis

lemma pipe_inv_start:
  "\<forall>c \<in> set chunks. length c \<le> cap \<Longrightarrow> pipe_inv cap chunks (pipe_start cap chunks aborts)"
  by (auto simp: pipe_inv_def pipe_start_def TwoSlotBuffer_def shape_ok_def pcs_ok_def lens_ok_def
      in_flight_def holds_defs)

section \<open>Every schedule gets the work done\<close>

text \<open>
  The work left: the steps each thread still has to take. Falling asleep is paid for by the
  wake-up that follows, so each remaining step counts threefold and an awake thread once.
\<close>

definition chunk_work :: "byte list \<Rightarrow> nat" where
  "chunk_work c = 5 + length c"

definition producer_work :: "pipe \<Rightarrow> nat" where
  "producer_work s =
     (let rest = sum_list (map chunk_work (p_pending s)) + (if p_abort s then 1 else 0) + 1 in
      case ppc s of P_Finished \<Rightarrow> 0 | P_Fill \<Rightarrow> rest - 1 | P_Full \<Rightarrow> rest - 2 | _ \<Rightarrow> rest)"

definition consumer_work :: "pipe \<Rightarrow> nat" where
  "consumer_work s =
     (case cpc s of C_Exit \<Rightarrow> 0 | C_Write n k \<Rightarrow> 2 + (n - k) | _ \<Rightarrow> 1) +
     sum_list (map (\<lambda>i. 2 + slot_len (p_buf s) ! nat i) (ready_slots (p_buf s)))"

definition awake :: "pipe \<Rightarrow> nat" where
  "awake s = (if ppc s = P_Asleep then 0 else 1) + (if cpc s = C_Asleep then 0 else 1)"

definition pipe_work :: "pipe \<Rightarrow> nat" where
  "pipe_work s = 3 * (producer_work s + consumer_work s) + awake s"

definition is_work :: "pipe_label \<Rightarrow> bool" where
  "is_work l \<longleftrightarrow> l \<noteq> Scribble \<and> l \<noteq> Spurious"

text \<open>The steps that bring a thread forward: all of its own except going to sleep.\<close>

definition advances :: "pipe_label \<Rightarrow> bool" where
  "advances l \<longleftrightarrow> is_work l \<and> l \<noteq> Producer_Sleeps \<and> l \<noteq> Consumer_Sleeps"

lemma steps_left:
  assumes "pipe_step l s t" "pipe_inv cap chunks s"
  shows "if advances l then producer_work t + consumer_work t < producer_work s + consumer_work s
    else producer_work t + consumer_work t = producer_work s + consumer_work s"
  using assms
proof (induction rule: pipe_step.induct)
  case (publish s c cs)
  then have inv: "slots_partition s" "shape_ok s" by (auto simp: pipe_inv_def)
  note sep = producer_slot_separate [OF inv(1) disjI2 [OF publish(1)]]
  let ?p = "nat (producer_slot (p_buf s))"
  have "?p < length (slot_len (p_buf s))" using sep(1) inv(2) by (auto simp: shape_ok_def)
  then have "sum_list (map (\<lambda>i. 2 + (slot_len (p_buf s))[?p := length c] ! nat i)
        (ready_slots (p_buf s) @ [producer_slot (p_buf s)])) =
      sum_list (map (\<lambda>i. 2 + slot_len (p_buf s) ! nat i) (ready_slots (p_buf s))) + (2 + length c)"
    using sep(2) [THEN not_sym] by (simp cong: map_cong)
  with publish(1,2) show ?case
    by (auto simp: producer_work_def consumer_work_def chunk_work_def advances_def is_work_def
        publish_def wake_consumer_def split: consumer_pc.splits)
qed (auto simp: producer_work_def consumer_work_def chunk_work_def advances_def is_work_def
      buffer_defs wake_consumer_def wake_producer_def wants_slot_def pipe_inv_def pcs_ok_def Let_def
      split: consumer_pc.splits producer_pc.splits list.splits if_splits)

lemma awake_step:
  "pipe_step l s t \<Longrightarrow> awake t + (if l = Producer_Sleeps \<or> l = Consumer_Sleeps then 1 else 0) \<le>
     awake s + (if is_work l \<and> \<not> advances l \<or> l = Scribble then 0 else 1)"
  by (induction rule: pipe_step.induct)
    (auto simp: awake_def advances_def is_work_def wake_consumer_def wake_producer_def)

lemma pipe_work_step:
  assumes "pipe_step l s t" "pipe_inv cap chunks s"
  shows "is_work l \<Longrightarrow> pipe_work t < pipe_work s"
    and "\<not> is_work l \<Longrightarrow> pipe_work t \<le> pipe_work s + (if l = Spurious then 1 else 0)"
  using steps_left [OF assms] awake_step [OF assms(1)]
  by (auto simp: pipe_work_def advances_def is_work_def split: if_splits)

lemma workI: "pipe_step l s t \<Longrightarrow> is_work l \<Longrightarrow> \<exists>l t. is_work l \<and> pipe_step l s t"
  by blast

lemma is_work_simps [simp]:
  "is_work Acquire" "is_work Producer_Sleeps" "is_work Fill" "is_work Publish" "is_work Finish"
  "is_work Take" "is_work Consumer_Sleeps" "is_work Write_Byte" "is_work Release" "is_work Leave"
  "\<not> is_work Scribble" "\<not> is_work Spurious"
  by (simp_all add: is_work_def)

lemma producer_moves:
  assumes "pcs_ok s" "ppc s \<noteq> P_Asleep" "ppc s \<noteq> P_Finished"
  shows "\<exists>l t. is_work l \<and> pipe_step l s t"
proof (cases "ppc s")
  case P_Want
  consider "\<not> wants_slot s" | "wants_slot s" "next_writable (p_buf s) = None"
    | i b where "wants_slot s" "next_writable (p_buf s) = Some (i, b)" by fastforce
  then show ?thesis
    using workI [OF pipe_step.finish_idle] workI [OF pipe_step.producer_sleeps]
      workI [OF pipe_step.acquire] P_Want by cases simp_all
next
  case P_Fill
  then show ?thesis
    using workI [OF pipe_step.finish_abort] workI [OF pipe_step.fill]
    by (cases "p_pending s") simp_all
next
  case P_Full
  with assms(1) obtain c cs where "p_pending s = c # cs" by (cases "p_pending s") (auto simp: pcs_ok_def)
  from workI [OF pipe_step.publish [OF P_Full this]] show ?thesis by simp
qed (use assms in simp_all)

lemma consumer_moves:
  assumes "pcs_ok s" "cpc s \<noteq> C_Asleep" "cpc s \<noteq> C_Exit"
  shows "\<exists>l t. is_work l \<and> pipe_step l s t"
proof (cases "cpc s")
  case C_Want
  consider "wait_ready (p_buf s) = None" | b where "wait_ready (p_buf s) = Some (None, b)"
    | i n b where "wait_ready (p_buf s) = Some (Some (i, n), b)"
    by (metis option.exhaust surj_pair)
  then show ?thesis
    using workI [OF pipe_step.consumer_sleeps] workI [OF pipe_step.leave]
      workI [OF pipe_step.take] C_Want by cases simp_all
next
  case (C_Write n k)
  with assms(1) have "k = n \<or> k < n" by (auto simp: pcs_ok_def)
  with C_Write show ?thesis
    using workI [OF pipe_step.release] workI [OF pipe_step.write_byte] by auto
qed (use assms in simp_all)

text \<open>
  No wake-up is lost: the two threads never wait for each other, and neither sleeps for ever
  once the other has ended.
\<close>

lemma pipe_progress:
  assumes "pipe_inv cap chunks s" "\<not> joined s"
  shows "\<exists>l t. is_work l \<and> pipe_step l s t"
proof -
  from assms(1) have inv: "pcs_ok s" "slots_partition s" by (auto simp: pipe_inv_def)
  show ?thesis
  proof (cases "ppc s = P_Asleep \<or> ppc s = P_Finished")
    case False
    with inv show ?thesis by (intro producer_moves) auto
  next
    case True
    have "cpc s \<noteq> C_Asleep \<and> cpc s \<noteq> C_Exit"
    proof (cases "ppc s = P_Finished")
      case True
      with inv assms(2) show ?thesis by (auto simp: pcs_ok_def joined_def)
    next
      case False
      with True have p: "ppc s = P_Asleep" by simp
      with inv(1) have "free_slots (p_buf s) = []" "\<not> is_done (p_buf s)" by (auto simp: pcs_ok_def)
      moreover from p have "producer_holds s = []" by (simp add: producer_holds_def)
      ultimately show ?thesis
        using partition_facts(2) [OF inv(2)] inv(1) by (auto simp: pcs_ok_def consumer_holds_def)
    qed
    with inv show ?thesis by (intro consumer_moves) auto
  qed
qed

interpretation pipeline: working_system pipe_step "pipe_inv cap chunks" is_work joined pipe_work
    "\<lambda>l. if l = Spurious then 1 else 0"
  for cap chunks
  by unfold_locales (blast intro: pipe_inv_step pipe_work_step pipe_progress)+

text \<open>The same measure without an end, for all steps, and the one for the steps that advance.\<close>

interpretation pipeline_load: bounded_system pipe_step "pipe_inv cap chunks" is_work "\<lambda>_. False" pipe_work
    "\<lambda>l. if l = Spurious then 1 else 0"
  for cap chunks
  by unfold_locales (blast intro: pipe_inv_step pipe_work_step)+

interpretation pipeline_left: bounded_system pipe_step "pipe_inv cap chunks" advances "\<lambda>_. False"
    "\<lambda>s. producer_work s + consumer_work s" "\<lambda>_. 0"
  for cap chunks
  by unfold_locales (use steps_left in \<open>fastforce split: if_splits\<close>)+

lemma reachable_pipe_inv:
  assumes "\<forall>c \<in> set chunks. length c \<le> cap" "steps pipe_step (pipe_start cap chunks aborts) s"
  shows "pipe_inv cap chunks s"
  using pipeline.inv_steps [OF assms(2) pipe_inv_start [OF assms(1)]] .

section \<open>What the buffer promises\<close>

text \<open>
  C13. Mutual exclusion on the slots: in every state any schedule can reach, the slot the
  producer is filling is not the slot the consumer is writing to the file.
\<close>

theorem slots_never_shared:
  assumes "\<forall>c \<in> set chunks. length c \<le> cap"
    and "steps pipe_step (pipe_start cap chunks aborts) s"
    and "ppc s = P_Fill \<or> ppc s = P_Full" "is_Write (cpc s)"
  shows "producer_slot (p_buf s) \<noteq> consumer_slot (p_buf s)"
proof -
  from reachable_pipe_inv [OF assms(1,2)] have "slots_partition s" by (simp add: pipe_inv_def)
  from producer_slot_separate(3) [OF this assms(3,4)] show ?thesis by auto
qed

theorem slots_never_shared_witness:
  "\<exists>s. steps pipe_step (pipe_start 4 [[1, 2], [3]] False) s \<and> ppc s = P_Fill \<and> is_Write (cpc s) \<and>
     producer_slot (p_buf s) \<noteq> consumer_slot (p_buf s)"
proof -
  let ?s0 = "pipe_start 4 [[1, 2], [3]] False"
  let ?s1 = "?s0\<lparr>p_buf := (p_buf ?s0)\<lparr>producer_slot := 0, free_slots := [1]\<rparr>, ppc := P_Fill\<rparr>"
  let ?s2 = "?s1\<lparr>p_buf := store_slot (producer_slot (p_buf ?s1)) [1, 2] (p_buf ?s1), ppc := P_Full\<rparr>"
  let ?s3 = "?s2\<lparr>p_buf := publish (length [1, 2 :: byte]) (p_buf ?s2), p_pending := [[3]],
    ppc := P_Want, cpc := wake_consumer (cpc ?s2)\<rparr>"
  let ?s4 = "?s3\<lparr>p_buf := (p_buf ?s3)\<lparr>consumer_slot := 0, ready_slots := []\<rparr>, cpc := C_Write 2 0\<rparr>"
  let ?s5 = "?s4\<lparr>p_buf := (p_buf ?s4)\<lparr>producer_slot := 1, free_slots := []\<rparr>, ppc := P_Fill\<rparr>"
  note start = pipe_start_def TwoSlotBuffer_def
  have a1: "pipe_step Acquire ?s0 ?s1"
    by (rule pipe_step.acquire) (simp_all add: start wants_slot_def next_writable_def)
  have a2: "pipe_step Fill ?s1 ?s2"
    by (rule pipe_step.fill) (simp_all add: start)
  have a3: "pipe_step Publish ?s2 ?s3"
    by (rule pipe_step.publish) (simp_all add: start)
  have a4: "pipe_step Take ?s3 ?s4"
    by (rule pipe_step.take)
      (simp_all add: start wake_consumer_def wait_ready_def publish_def store_slot_def)
  have a5: "pipe_step Acquire ?s4 ?s5"
    by (rule pipe_step.acquire)
      (simp_all add: start wants_slot_def next_writable_def publish_def store_slot_def)
  note move = steps.move [where step = pipe_step]
  note r = move [OF move [OF move [OF move [OF move [OF steps.start a1] a2] a3] a4] a5]
  have f: "\<forall>c \<in> set [[1, 2], [3 :: byte]]. length c \<le> 4" by simp
  have p: "ppc ?s5 = P_Fill \<or> ppc ?s5 = P_Full" "is_Write (cpc ?s5)" by simp_all
  from slots_never_shared [OF f r p] r p(2) show ?thesis by (intro exI [of _ ?s5]) simp
qed

lemma joined_output:
  assumes "\<forall>c \<in> set chunks. length c \<le> cap"
    and "steps pipe_step (pipe_start cap chunks aborts) s" "joined s"
  shows "p_out s = concat chunks"
proof -
  from reachable_pipe_inv [OF assms(1,2)] assms(3)
  have "p_out s @ in_flight s @ concat (p_pending s) = concat chunks" "p_pending s = []"
    "ready_slots (p_buf s) = []" "cpc s = C_Exit"
    by (auto simp: pipe_inv_def pcs_ok_def joined_def)
  then show ?thesis by (simp add: in_flight_def)
qed

text \<open>
  C10. The file receives the published chunks, complete and in order: whenever both threads
  have ended, whatever the interleaving, the bytes written are the concatenation of the
  chunks, also when the producer ended in its error branch.
\<close>

theorem pipeline_delivers:
  assumes "\<forall>c \<in> set chunks. length c \<le> cap"
    and "steps pipe_step (pipe_start cap chunks aborts) s" "joined s"
  shows "p_out s = concat chunks"
  using assms by (rule joined_output)

theorem pipeline_delivers_witness:
  "\<exists>s. steps pipe_step (pipe_start 4 [[1, 2], [3]] True) s \<and> joined s \<and> p_out s = [1, 2, 3]"
proof -
  have f: "\<forall>c \<in> set [[1, 2], [3 :: byte]]. length c \<le> 4" by simp
  obtain s where s: "steps (restrict is_work pipe_step) (pipe_start 4 [[1, 2], [3]] True) s" "joined s"
    using pipeline.work_finishes [OF pipe_inv_start [OF f, of True]] by auto
  note r = steps_restrict [OF s(1)]
  from pipeline_delivers [OF f r s(2)] r s(2) show ?thesis by auto
qed

text \<open>
  C11. No deadlock, no lost wake-up, and bounded work. From every reachable state the two
  threads can be run, by their own steps and notifications alone, until both have ended, and
  wherever any schedule leads from there, they have ended or one of them can make a step of its
  own. Under every schedule, whatever spurious wake-ups it has, the steps that advance a
  thread are at most \<open>producer_work + consumer_work\<close>; together with those in which a thread goes
  to sleep they are at most \<open>pipe_work\<close> and one more for each spurious wake-up.
\<close>

theorem pipeline_terminates:
  assumes "\<forall>c \<in> set chunks. length c \<le> cap"
    and "steps pipe_step (pipe_start cap chunks aborts) s"
  shows "(\<exists>t. steps (restrict is_work pipe_step) s t \<and> joined t) \<and>
     (\<forall>t. steps pipe_step s t \<longrightarrow> joined t \<or> (\<exists>l u. is_work l \<and> pipe_step l t u)) \<and>
     (\<forall>run lab n. run 0 = s \<and> (\<forall>i < n. pipe_step (lab i) (run i) (run (Suc i))) \<longrightarrow>
        length (filter (\<lambda>i. advances (lab i)) [0..<n]) \<le> producer_work s + consumer_work s \<and>
        length (filter (\<lambda>i. is_work (lab i)) [0..<n]) \<le>
          pipe_work s + length (filter (\<lambda>i. lab i = Spurious) [0..<n]))"
proof (intro conjI allI impI)
  note inv = reachable_pipe_inv [OF assms]
  show "\<exists>t. steps (restrict is_work pipe_step) s t \<and> joined t" using pipeline.work_finishes [OF inv] by blast
  show "joined t \<or> (\<exists>l u. is_work l \<and> pipe_step l t u)" if "steps pipe_step s t" for t
    by (rule pipeline.never_stuck [OF inv that])
  fix run lab n
  assume r: "run 0 = s \<and> (\<forall>i < n. pipe_step (lab i) (run i) (run (Suc i)))"
  then have "length (filter (\<lambda>i. advances (lab i)) [0..<n]) \<le> producer_work s + consumer_work s +
      sum_list (map (\<lambda>i. 0) (filter (\<lambda>i. \<not> advances (lab i)) [0..<n]))"
    using pipeline_left.work_bounded [of cap chunks run n lab] inv by auto
  then show "length (filter (\<lambda>i. advances (lab i)) [0..<n]) \<le> producer_work s + consumer_work s" by simp
  have "length (filter (\<lambda>i. is_work (lab i)) [0..<n]) \<le> pipe_work s +
      sum_list (map (\<lambda>i. if lab i = Spurious then 1 else 0) (filter (\<lambda>i. \<not> is_work (lab i)) [0..<n]))"
    using pipeline_load.work_bounded [of cap chunks run n lab] r inv by auto
  then show "length (filter (\<lambda>i. is_work (lab i)) [0..<n]) \<le> pipe_work s + length (filter (\<lambda>i. lab i = Spurious) [0..<n])"
    by (subst (asm) sum_list_cost) simp_all
qed

theorem pipeline_terminates_witness:
  "(\<exists>t. steps (restrict is_work pipe_step) (pipe_start 4 [[1, 2], [3]] False) t \<and> joined t) \<and>
   \<not> (\<exists>run lab n. run 0 = pipe_start 4 [[1, 2], [3]] False \<and> (\<forall>i < n. pipe_step (lab i) (run i) (run (Suc i))) \<and>
      15 < length (filter (\<lambda>i. advances (lab i)) [0..<n]))"
proof -
  let ?s = "pipe_start 4 [[1, 2], [3]] False"
  have f: "\<forall>c \<in> set [[1, 2], [3 :: byte]]. length c \<le> 4" by simp
  have "producer_work ?s + consumer_work ?s = 15"
    by (simp add: producer_work_def consumer_work_def pipe_start_def TwoSlotBuffer_def chunk_work_def)
  with pipeline_terminates [OF f steps.start, of False] show ?thesis by (metis not_less)
qed

section \<open>The buffer as the handlers use it\<close>

text \<open>
  The handlers are modelled with the writer thread scheduled eagerly: after each \<open>publish\<close>,
  and after \<open>finish\<close>, the writer runs until it would block (\<open>writer_turn\<close>: the bytes it
  writes to the file, and the buffer). By the theorem above any other schedule writes the same
  bytes.
\<close>

function writer_turn :: "two_slot \<Rightarrow> byte list \<times> two_slot" where
  "writer_turn b =
     (case wait_ready b of
        None \<Rightarrow> ([], b)
      | Some (None, b') \<Rightarrow> ([], b')
      | Some (Some (s, n), b') \<Rightarrow>
          (let (rest, b'') = writer_turn (done_with b') in (slot_bytes b' s n @ rest, b'')))"
  by pat_completeness auto
termination
  by (relation "measure (\<lambda>b. length (ready_slots b))")
    (auto simp: wait_ready_def done_with_def split: list.splits if_splits)

declare writer_turn.simps [simp del]

text \<open>
  The contract a handler relies on: while the buffer is idle, handing over a chunk that fits
  writes exactly that chunk and leaves the buffer idle.
\<close>

locale chunk_writer =
  fixes idle :: "'b \<Rightarrow> bool"
    and fits :: "byte list \<Rightarrow> bool"
    and hand_over :: "byte list \<Rightarrow> 'b \<Rightarrow> (byte list \<times> 'b) option"
  assumes hand_over_idle: "idle b \<Longrightarrow> fits c \<Longrightarrow> \<exists>b'. hand_over c b = Some (c, b') \<and> idle b'"
begin

lemma hand_over_seq:
  "idle b \<Longrightarrow> list_all fits cs \<Longrightarrow>
     \<exists>b'. fold (\<lambda>c st. Option.bind st (\<lambda>(out, b). map_option (apfst ((@) out)) (hand_over c b))) cs
        (Some (acc, b)) = Some (acc @ concat cs, b') \<and> idle b'"
proof (induction cs arbitrary: acc b)
  case Nil
  then show ?case by simp
next
  case (Cons c cs)
  then obtain b' where "hand_over c b = Some (c, b')" "idle b'" using hand_over_idle by fastforce
  with Cons.IH [of b' "acc @ c"] Cons.prems show ?case by simp
qed

end

definition hand_over :: "byte list \<Rightarrow> two_slot \<Rightarrow> (byte list \<times> two_slot) option" where
  "hand_over c b = (case next_writable b of
      None \<Rightarrow> None
    | Some (s, b) \<Rightarrow> Some (writer_turn (publish (length c) (store_slot s c b))))"

definition idle_buffer :: "nat \<Rightarrow> two_slot \<Rightarrow> bool" where
  "idle_buffer cap b \<longleftrightarrow> capacity b = cap \<and> length (slots b) = 2 \<and> length (slot_len b) = 2 \<and>
     ready_slots b = [] \<and> (free_slots b = [0, 1] \<or> free_slots b = [1, 0]) \<and> \<not> is_done b"

lemma idle_TwoSlotBuffer: "idle_buffer cap (TwoSlotBuffer cap)"
  by (simp add: idle_buffer_def TwoSlotBuffer_def)

lemma hand_over_idle:
  assumes "idle_buffer cap b"
  shows "\<exists>b'. hand_over c b = Some (c, b') \<and> idle_buffer cap b'"
proof -
  from assms obtain s r where f: "free_slots b = [s, r]" "s \<in> {0, 1}" "(s, r) \<in> {(0, 1), (1, 0)}"
    by (auto simp: idle_buffer_def)
  let ?b = "publish (length c) (store_slot s c (b\<lparr>producer_slot := s, free_slots := [r]\<rparr>))"
  have "wait_ready ?b = Some (Some (s, length c), ?b\<lparr>consumer_slot := s, ready_slots := []\<rparr>)"
    using assms f(2) by (auto simp: idle_buffer_def wait_ready_def publish_def store_slot_def)
  moreover have "wait_ready (done_with (?b\<lparr>consumer_slot := s, ready_slots := []\<rparr>)) = None"
    using assms by (simp add: idle_buffer_def wait_ready_def publish_def store_slot_def done_with_def)
  moreover have "slot_bytes (?b\<lparr>consumer_slot := s, ready_slots := []\<rparr>) s (length c) = c"
    using assms f(2) by (auto simp: idle_buffer_def slot_bytes_def publish_def store_slot_def)
  ultimately have "writer_turn ?b = (c, done_with (?b\<lparr>consumer_slot := s, ready_slots := []\<rparr>))"
    by (simp add: writer_turn.simps)
  moreover have "idle_buffer cap (done_with (?b\<lparr>consumer_slot := s, ready_slots := []\<rparr>))"
    using assms f by (auto simp: idle_buffer_def publish_def store_slot_def done_with_def)
  ultimately show ?thesis using f(1) by (simp add: hand_over_def next_writable_def)
qed

interpretation disk_writer: chunk_writer "idle_buffer cap" "\<lambda>c. length c \<le> cap" hand_over
  for cap
  by unfold_locales (rule hand_over_idle)

text \<open>After \<open>finish\<close> an idle buffer sends the writer home without another byte.\<close>

lemma writer_leaves_empty: "ready_slots b = [] \<Longrightarrow> writer_turn (finish b) = ([], finish b)"
  by (subst writer_turn.simps) (simp add: finish_def wait_ready_def)

lemma writer_leaves: "idle_buffer cap b \<Longrightarrow> writer_turn (finish b) = ([], finish b)"
  by (simp add: writer_leaves_empty idle_buffer_def)

lemma ready_next_writable: "next_writable b = Some (s, b') \<Longrightarrow> ready_slots b' = ready_slots b"
  by (auto simp: next_writable_def split: list.splits)

text \<open>The eager schedule for a whole transfer: every chunk handed over, then \<open>finish\<close> and the last turn.\<close>

definition eager_run :: "byte list list \<Rightarrow> two_slot \<Rightarrow> byte list option" where
  "eager_run chunks b = map_option (\<lambda>(out, b). out @ fst (writer_turn (finish b)))
     (fold (\<lambda>c st. Option.bind st (\<lambda>(out, b). map_option (apfst ((@) out)) (hand_over c b))) chunks (Some ([], b)))"

text \<open>
  C12. All schedules are equivalent to the eager one: whatever the interleaving of the two
  threads, once both have ended the file holds exactly the bytes the sequential reference run
  writes, in which the writer takes each chunk as soon as it is published. (The handlers are
  modelled with that run.)
\<close>

theorem schedules_equivalent:
  assumes "\<forall>c \<in> set chunks. length c \<le> cap"
    and "steps pipe_step (pipe_start cap chunks aborts) s" "joined s"
  shows "eager_run chunks (TwoSlotBuffer cap) = Some (p_out s)"
proof -
  have "list_all (\<lambda>c. length c \<le> cap) chunks" using assms(1) by (simp add: list_all_iff)
  from disk_writer.hand_over_seq [OF idle_TwoSlotBuffer this, of "[]"] obtain b where
    "fold (\<lambda>c st. Option.bind st (\<lambda>(out, b). map_option (apfst ((@) out)) (hand_over c b))) chunks
       (Some ([], TwoSlotBuffer cap)) = Some (concat chunks, b)" "idle_buffer cap b" by auto
  with writer_leaves joined_output [OF assms] show ?thesis by (simp add: eager_run_def)
qed

theorem schedules_equivalent_witness: "eager_run [[1, 2], [3]] (TwoSlotBuffer 4) = Some [1, 2, 3]"
proof -
  have f: "\<forall>c \<in> set [[1, 2], [3 :: byte]]. length c \<le> 4" by simp
  obtain s where s: "steps (restrict is_work pipe_step) (pipe_start 4 [[1, 2], [3]] True) s" "joined s"
    using pipeline.work_finishes [OF pipe_inv_start [OF f, of True]] by auto
  note r = steps_restrict [OF s(1)]
  from schedules_equivalent [OF f r s(2)] joined_output [OF f r s(2)] show ?thesis by simp
qed

end
