(* ===== verification/File_Transfer.thy ===== *)
theory File_Transfer
  imports Session_Enc Two_Slot_Buffer
begin

text \<open>
  What both directions of a file transfer share: the sequence of messages and chunks on the
  wire, how a file is cut into blocks, the hand-over of chunks to the writer thread, and the
  lemmas that read such a stream back.
\<close>

section \<open>The end of a receiving loop\<close>

text \<open>
  A round of a receiving loop leaves it with a return code (\<open>Inl\<close>, after
  \<open>slots.finish(); writer.join()\<close>) or goes on (\<open>Inr\<close>).
\<close>

definition join_writer :: "path option \<Rightarrow> two_slot \<Rightarrow> int \<Rightarrow> world \<Rightarrow> ((int + 'c) \<times> world) run" where
  "join_writer h b rc w =
     ret (Inl rc, w\<lparr>disk := write_out h (fst (writer_turn (finish b))) (disk w)\<rparr>)"

section \<open>File chunks on the wire\<close>

text \<open>
  How both directions send a file body: each chunk is a raw blob preceded by a session frame
  that says whether it is the last.
\<close>

fun chunk_frames :: "'st sodium \<Rightarrow> byte list \<Rightarrow> byte list \<Rightarrow> byte list list \<Rightarrow> byte list" where
  "chunk_frames S key nonce [] = []"
| "chunk_frames S key nonce (c # cs) =
     frame S key nonce (i32_bytes (if cs = [] then END_CHUNK else MEAT_CHUNK)) @ blob_bytes c @
     chunk_frames S key (sodium_increment S nonce) cs"

lemma hand_overE:
  assumes "idle_buffer cap b"
  obtains s b1 b2 where "next_writable b = Some (s, b1)"
    "writer_turn (publish (length c) (store_slot s c b1)) = (c, b2)" "idle_buffer cap b2"
  using disk_writer.hand_over_idle [OF assms, of "[]"] hand_over_idle [OF assms, of c]
  by (auto simp: hand_over_def split: option.splits)

lemma join_writer_idle: "idle_buffer cap b \<Longrightarrow> join_writer h b rc w = ret (Inl rc, w)"
  by (simp add: join_writer_def writer_leaves)

text \<open>A frame that carries one integer.\<close>

lemma unwrap_i32:
  assumes "session_laws S" "length nonce = aead_NPUBBYTES S" "length old = 4"
  shows "unwrap S (framed (sealed S key nonce (i32_bytes v))) key 4 old len =
     (0, framed (sealed S key nonce (i32_bytes v)), i32_bytes v, 4)"
proof -
  have s: "sodium_sizes S" using assms(1) by (simp add: session_laws_def)
  have "length (i32_bytes v) \<le> FILE_ENCRYPTED_CHUNK_SIZE S" using chunk_sizes [OF s] by simp
  from unwrap_sealed [OF assms(1,2) this, of 4 key old len] assms(3) show ?thesis
    by (simp add: write_into_full)
qed

lemma i32_fits: "session_laws S \<Longrightarrow> length (i32_bytes v) \<le> FILE_ENCRYPTED_CHUNK_SIZE S"
  by (simp add: session_laws_def chunk_sizes)

lemma blob_fits_chunk:
  "session_laws S \<Longrightarrow> length c \<le> FILE_ENCRYPTED_CHUNK_SIZE S \<Longrightarrow>
     blob_fits (FILE_ENCRYPTED_CHUNK_SIZE S) c"
  by (simp add: session_laws_def chunk_sizes blob_fits_def)

section \<open>Messages\<close>

text \<open>Several messages sent one after the other on one nonce counter, and the counter after them.\<close>

fun frames :: "'st sodium \<Rightarrow> byte list \<Rightarrow> byte list \<Rightarrow> byte list list \<Rightarrow> byte list" where
  "frames S key nonce [] = []"
| "frames S key nonce (d # ds) = frame S key nonce d @ frames S key (sodium_increment S nonce) ds"

definition counter :: "'st sodium \<Rightarrow> nat \<Rightarrow> byte list \<Rightarrow> byte list" where
  "counter S n nonce = (sodium_increment S ^^ n) nonce"

lemma length_counter: "session_laws S \<Longrightarrow> length (counter S n nonce) = length nonce"
  by (induction n) (simp_all add: counter_def length_increment)

lemma frames_append:
  "frames S key nonce (ds @ es) = frames S key nonce ds @ frames S key (counter S (length ds) nonce) es"
  by (induction ds arbitrary: nonce) (simp_all add: counter_def funpow_swap1)

text \<open>A complete upload: the four messages \<open>init_read\<close> expects, then the chunks.\<close>

definition upload_bytes ::
    "'st sodium \<Rightarrow> byte list \<Rightarrow> byte list \<Rightarrow> cpp_string \<Rightarrow> byte list \<Rightarrow> byte list \<Rightarrow> byte list list \<Rightarrow> byte list" where
  "upload_bytes S key nonce name header salt cs =
     frames S key nonce [[1], name, header, salt] @ chunk_frames S key (counter S 4 nonce) cs"

text \<open>One message: read the frame, unwrap it.\<close>

lemma read_messageE:
  assumes "session_laws S" "length nonce = aead_NPUBBYTES S" "length data \<le> cap" "cap \<le> 65553"
    and "feeds w (frame S key nonce data @ rest)"
  obtains w' where "SessionEncWrapper_reader S w = ret (framed (sealed S key nonce data), w')"
    "feeds w' rest" "only_rx w w'"
    "\<And>buf len. unwrap S (framed (sealed S key nonce data)) key cap buf len =
       (0, framed (sealed S key nonce data), write_into buf data, word_of_nat (length data))"
proof -
  have "sodium_sizes S" using assms(1) by (simp add: session_laws_def)
  with assms(3,4) have fit: "length data \<le> FILE_ENCRYPTED_CHUNK_SIZE S" "cap < 2 ^ 64"
    by (simp_all add: chunk_sizes)
  from readerE [OF assms(1,2) fit(1) assms(5)] unwrap_sealed [OF assms(1,2) fit(1) assms(3) fit(2)]
  show ?thesis using that by blast
qed

lemma requestE:
  assumes S: "session_laws S" "length nonce = aead_NPUBBYTES S"
    and name: "length name < PRE_EXT_FILE_NAME_LEN"
    and w: "feeds w (frame S key nonce (name @ [0]) @ rest)"
  obtains w' where "SessionEncWrapper_reader S w = ret (framed (sealed S key nonce (name @ [0])), w')"
    "feeds w' rest" "only_rx w w'"
    "\<And>b l. unwrap S (framed (sealed S key nonce (name @ [0]))) key PRE_EXT_FILE_NAME_LEN b l =
       (0, framed (sealed S key nonce (name @ [0])), write_into b (name @ [0]),
        word_of_nat (length (name @ [0])))"
proof -
  have "length (name @ [0]) \<le> PRE_EXT_FILE_NAME_LEN" "PRE_EXT_FILE_NAME_LEN \<le> 65553"
    using name by (simp_all add: PRE_EXT_FILE_NAME_LEN_def)
  from read_messageE [OF S this w] show ?thesis using that by blast
qed

section \<open>Blocks of a file\<close>

text \<open>How the download loop cuts a file: full blocks, then a rest that is shorter than a block.\<close>

function file_chunks :: "nat \<Rightarrow> byte list \<Rightarrow> byte list list" where
  "file_chunks n xs =
     (if n = 0 \<or> length xs < n then [xs] else take n xs # file_chunks n (drop n xs))"
  by pat_completeness auto

termination file_chunks
  by (relation "measure (length \<circ> snd)") auto

declare file_chunks.simps [simp del]

lemma file_chunks_props:
  "file_chunks n xs \<noteq> []" "concat (file_chunks n xs) = xs"
  "0 < n \<Longrightarrow> \<forall>c \<in> set (file_chunks n xs). length c \<le> n"
  by (induction n xs rule: file_chunks.induct; subst file_chunks.simps; auto)+

text \<open>Blocks of exactly that size followed by a shorter one are cut where they were joined.\<close>

lemma file_chunks_concat:
  assumes "0 < n" "\<forall>c \<in> set cs. length c = n" "length z < n"
  shows "file_chunks n (concat cs @ z) = cs @ [z]"
  using assms(2)
  by (induction cs) (use assms in \<open>auto simp: file_chunks.simps [of n]\<close>)

definition download_bytes ::
    "'st sodium \<Rightarrow> byte list \<Rightarrow> byte list \<Rightarrow> byte list \<Rightarrow> byte list \<Rightarrow> byte list list \<Rightarrow> byte list" where
  "download_bytes S key nonce header salt cs =
     frames S key nonce [header, salt] @ chunk_frames S key (counter S 2 nonce) cs"

lemma read_in_file:
  "read_in n \<lparr>in_src = Regular xs, eofbit = False, failbit = False, badbit = False\<rparr> =
     (take n xs, \<lparr>in_src = Regular (drop n xs), eofbit = (length xs < n), failbit = (length xs < n),
        badbit = False\<rparr>)"
  by (simp add: read_in_def)

lemma open_in_file:
  "resolve d s = Inr p \<Longrightarrow> lookup d p = Some (File bs) \<Longrightarrow>
     open_in d s = \<lparr>in_src = Regular bs, eofbit = False, failbit = False, badbit = False\<rparr>"
  by (simp add: open_in_def)

section \<open>Names and slots\<close>

text \<open>The name a client asks for, as the handler finds it in its buffer.\<close>

lemma c_str_of_request:
  assumes "0 \<notin> set name"
  shows "c_str (write_into buf (name @ [0])) = Some name"
  using c_str_terminated [OF assms] by (simp add: write_into_def)

lemma next_writable_idle:
  assumes "idle_buffer cap b" obtains slot b' where "next_writable b = Some (slot, b')"
  using hand_overE [OF assms] by metis

lemma writer_turn_idle:
  assumes "idle_buffer cap b" "next_writable b = Some (slot, b1)"
  obtains b2 where "writer_turn (publish (length data) (store_slot slot data b1)) = (data, b2)"
    "idle_buffer cap b2"
  using hand_overE [OF assms(1), of data] assms(2) by (metis Pair_inject option.inject)

lemma live_disk [simp]: "live (w\<lparr>disk := d\<rparr>) = live w"
  by (simp add: live_def)

end
