(* ===== verification/Client_Agents.thy ===== *)
theory Client_Agents
  imports File_Transfer
begin

text \<open>
  The client's side of a transfer: the classes \<open>Comms_Agent\<close>, \<open>Sender_Agent\<close> and
  \<open>Receiver_Agent\<close> (\<open>include/authed_entry.h\<close>, \<open>src/client/authed_entry.cpp\<close>). A sender
  derives a file key from the password and a fresh salt, encrypts the file chunk by chunk with
  the library's file stream and sends it; a receiver reads header, salt and chunks back,
  derives the same key and writes the plaintext through the writer thread. The theorems: what
  a sender puts on the wire, that a receiver reconstructs the file from it, and that nothing a
  sender did not encrypt is written.
\<close>

section \<open>Comms_Agent\<close>

record comms_agent =
  ca_sock :: int
  client_tx :: "byte list"
  client_rx :: "byte list"

text \<open>The agent, and the caller's two key arrays, zeroed.\<close>

definition Comms_Agent :: "'st sodium \<Rightarrow> byte list \<Rightarrow> byte list \<Rightarrow> int \<Rightarrow> comms_agent \<times> byte list \<times> byte list" where
  "Comms_Agent S txkey rxkey sock =
     (\<lparr>ca_sock = sock, client_tx = txkey, client_rx = rxkey\<rparr>,
      replicate (kx_SESSIONKEYBYTES S) 0, replicate (kx_SESSIONKEYBYTES S) 0)"

definition Comms_Agent_destroy :: "'st sodium \<Rightarrow> comms_agent \<Rightarrow> comms_agent" where
  "Comms_Agent_destroy S CA =
     CA\<lparr>ca_sock := - 420, client_rx := replicate (kx_SESSIONKEYBYTES S) 0,
        client_tx := replicate (kx_SESSIONKEYBYTES S) 0\<rparr>"

definition get_socket :: "comms_agent \<Rightarrow> int" where "get_socket CA = ca_sock CA"

definition get_client_tx :: "comms_agent \<Rightarrow> byte list" where "get_client_tx CA = client_tx CA"

definition get_client_rx :: "comms_agent \<Rightarrow> byte list" where "get_client_rx CA = client_rx CA"

text \<open>The return code is always 0; the nonce is the caller's.\<close>

definition notify_server_of_action ::
    "'st sodium \<Rightarrow> comms_agent \<Rightarrow> i32 \<Rightarrow> byte list \<Rightarrow> world \<Rightarrow> ((int \<times> byte list) \<times> world) run" where
  "notify_server_of_action S CA action nonce w =
     andthen (session_send S (i32_bytes action) (get_client_tx CA) nonce w) (\<lambda>(nonce, w).
       ret ((0, nonce), w))"

section \<open>Sender_Agent\<close>

record sender_agent =
  sa_nonce :: "byte list"
  sa_buffer :: "byte list"
  sa_size :: u64
  sa_key :: "byte list"
  sa_salt :: "byte list"

definition send_buffer :: "sender_agent \<Rightarrow> world \<Rightarrow> (int \<times> world) run" where
  "send_buffer SA w =
     (if length (sa_buffer SA) < unat (sa_size SA) then fails Out_Of_Bounds
      else ret (send_raw_blob (take (unat (sa_size SA)) (sa_buffer SA)) w))"

text \<open>A message sent with the agent's own nonce.\<close>

definition sa_send :: "'st sodium \<Rightarrow> comms_agent \<Rightarrow> byte list \<Rightarrow> sender_agent \<Rightarrow> world \<Rightarrow> (sender_agent \<times> world) run" where
  "sa_send S CA data SA w =
     andthen (session_send S data (get_client_tx CA) (sa_nonce SA) w) (\<lambda>(nonce, w).
       ret (SA\<lparr>sa_nonce := nonce\<rparr>, w))"

definition init_send ::
    "'st sodium \<Rightarrow> comms_agent \<Rightarrow> ifstream \<Rightarrow> cpp_string \<Rightarrow> byte list \<Rightarrow> byte list \<Rightarrow> sender_agent \<Rightarrow> world \<Rightarrow>
     ((int \<times> sender_agent) \<times> world) run" where
  "init_send S CA file file_name header salt SA w =
     (let file_exist = stream_ok file in
      andthen (sa_send S CA [if file_exist then 1 else 0] SA w) (\<lambda>(SA, w).
      if \<not> file_exist then ret ((1, SA), w)
      else
        andthen (sa_send S CA file_name SA w) (\<lambda>(SA, w).
        andthen (sa_send S CA header SA w) (\<lambda>(SA, w).
        andthen (sa_send S CA salt SA w) (\<lambda>(SA, w).
        ret ((0, SA), w))))))"

definition send_end_buffer :: "'st sodium \<Rightarrow> sender_agent \<Rightarrow> sender_agent" where
  "send_end_buffer S SA =
     SA\<lparr>sa_buffer := replicate (CHUNK_SIZE + ss_ABYTES S) 0,
        sa_size := word_of_nat (CHUNK_SIZE + ss_ABYTES S)\<rparr>"

text \<open>\<open>set_key\<close> and \<open>set_salt\<close> copy and wipe the argument.\<close>

definition set_key :: "'st sodium \<Rightarrow> byte list \<Rightarrow> sender_agent \<Rightarrow> sender_agent \<times> byte list" where
  "set_key S new_key SA = (SA\<lparr>sa_key := new_key\<rparr>, replicate (box_SEEDBYTES S) 0)"

definition set_salt :: "'st sodium \<Rightarrow> byte list \<Rightarrow> sender_agent \<Rightarrow> sender_agent \<times> byte list" where
  "set_salt S new_salt SA = (SA\<lparr>sa_salt := new_salt\<rparr>, replicate (pwhash_SALTBYTES S) 0)"

definition set_crypto :: "'st sodium \<Rightarrow> cpp_string \<Rightarrow> sender_agent \<Rightarrow> world \<Rightarrow> (int \<times> sender_agent) \<times> world" where
  "set_crypto S password SA w =
     (let (salt, w) = randombytes_buf (pwhash_SALTBYTES S) w; SA = SA\<lparr>sa_salt := salt\<rparr> in
      case pwhash S (box_SEEDBYTES S) password salt of
        None \<Rightarrow> ((1, SA\<lparr>sa_key := take (length (sa_key SA)) (pwhash_fail_buf S (sa_key SA))\<rparr>), w)
      | Some key \<Rightarrow> ((0, SA\<lparr>sa_key := key\<rparr>), w))"

definition Sender_Agent :: "'st sodium \<Rightarrow> cpp_string \<Rightarrow> world \<Rightarrow> sender_agent \<times> world" where
  "Sender_Agent S password w =
     (let (nonce, w) = randombytes_buf (aead_NPUBBYTES S) w;
          SA = \<lparr>sa_nonce = nonce, sa_buffer = uninit (CHUNK_SIZE + ss_ABYTES S) w, sa_size = 0,
                sa_key = uninit (box_SEEDBYTES S) w, sa_salt = uninit (pwhash_SALTBYTES S) w\<rparr>;
          ((_, SA), w) = set_crypto S password SA w in (SA, w))"

definition Sender_Agent_destroy :: "'st sodium \<Rightarrow> sender_agent \<Rightarrow> sender_agent" where
  "Sender_Agent_destroy S SA =
     SA\<lparr>sa_size := 0, sa_key := replicate (box_SEEDBYTES S) 0, sa_salt := replicate (pwhash_SALTBYTES S) 0\<rparr>"

text \<open>The loop of \<open>encrypt_and_send_to_server\<close>.\<close>

partial_function (option) encrypt_loop ::
    "'st sodium \<Rightarrow> comms_agent \<Rightarrow> 'st \<Rightarrow> ifstream \<Rightarrow> sender_agent \<Rightarrow> world \<Rightarrow> (sender_agent \<times> world) run" where
  "encrypt_loop S CA st file SA w =
     (let (file_chunk, file) = read_in CHUNK_SIZE file;
          SA = SA\<lparr>sa_size := word_of_nat (ss_ABYTES S) + word_of_nat (length file_chunk)\<rparr>;
          tag = (if eofbit file then ss_TAG_FINAL S else 0);
          (st, ciphertext) = ss_push S st file_chunk tag in
      if length (sa_buffer SA) < length ciphertext then fails Out_Of_Bounds
      else
        (let SA = SA\<lparr>sa_buffer := write_into (sa_buffer SA) ciphertext\<rparr> in
         andthen (sa_send S CA (i32_bytes (if tag = ss_TAG_FINAL S then END_CHUNK else MEAT_CHUNK)) SA w) (\<lambda>(SA, w).
         andthen (send_buffer SA w) (\<lambda>(_, w).
         if eofbit file then ret (SA, w) else encrypt_loop S CA st file SA w))))"

text \<open>The path a C string argument names: a \<open>std::string\<close> up to its first zero.\<close>

definition c_path :: "cpp_string \<Rightarrow> cpp_string" where
  "c_path s = takeWhile (\<lambda>b. b \<noteq> 0) s"

definition encrypt_and_send_to_server ::
    "'st sodium \<Rightarrow> comms_agent \<Rightarrow> cpp_string \<Rightarrow> cpp_string \<Rightarrow> sender_agent \<Rightarrow> world \<Rightarrow>
     ((int \<times> sender_agent) \<times> world) run" where
  "encrypt_and_send_to_server S CA file_name password SA w =
     (let ((_, SA), w) = set_crypto S password SA w;
          file = open_in (disk w) (c_path file_name);
          (iv, w) = randombytes_buf (ss_HEADERBYTES S) w;
          (st, header) = ss_init_push S iv (sa_key SA) in
      andthen (init_send S CA file file_name header (sa_salt SA) SA w) (\<lambda>((rc, SA), w).
      if rc \<noteq> 0 then ret ((1, SA), w)
      else
        andthen (encrypt_loop S CA st file SA w) (\<lambda>(SA, w).
        ret ((0, SA\<lparr>sa_key := replicate (box_SEEDBYTES S) 0, sa_salt := replicate (pwhash_SALTBYTES S) 0\<rparr>), w))))"

section \<open>Receiver_Agent\<close>

record receiver_agent =
  ra_nonce :: "byte list"
  ra_buffer :: "byte list"
  ra_size :: u64
  ra_key :: "byte list"

definition Receiver_Agent :: "'st sodium \<Rightarrow> world \<Rightarrow> receiver_agent \<times> world" where
  "Receiver_Agent S w =
     (let (nonce, w) = randombytes_buf (aead_NPUBBYTES S) w in
      (\<lparr>ra_nonce = nonce, ra_buffer = uninit (CHUNK_SIZE + ss_ABYTES S) w, ra_size = 0,
        ra_key = uninit (box_SEEDBYTES S) w\<rparr>, w))"

definition Receiver_Agent_destroy :: "'st sodium \<Rightarrow> receiver_agent \<Rightarrow> receiver_agent" where
  "Receiver_Agent_destroy S RA = RA\<lparr>ra_size := 0, ra_key := replicate (box_SEEDBYTES S) 0\<rparr>"

definition get_nonce :: "receiver_agent \<Rightarrow> byte list" where "get_nonce RA = ra_nonce RA"

text \<open>\<open>Receiver_Agent::init_read\<close>: the return code and the two buffers.\<close>

definition Receiver_init_read ::
    "'st sodium \<Rightarrow> comms_agent \<Rightarrow> byte list \<Rightarrow> byte list \<Rightarrow> world \<Rightarrow> ((int \<times> byte list \<times> byte list) \<times> world) run" where
  "Receiver_init_read S CA header salt w =
     (let cell = u64_of_bytes (uninit 8 w) in
      andthen (SessionEncWrapper_reader S w) (\<lambda>(header_wrap, w).
      let (rc, _, header, _) = unwrap S header_wrap (get_client_rx CA) (ss_HEADERBYTES S) header cell in
      if rc \<noteq> 0 then ret ((2, header, salt), w)
      else
        andthen (SessionEncWrapper_reader S w) (\<lambda>(salt_wrap, w).
        let (rc, _, salt, _) = unwrap S salt_wrap (get_client_rx CA) (pwhash_SALTBYTES S) salt cell in
        if rc \<noteq> 0 then ret ((1, header, salt), w) else ret ((0, header, salt), w))))"

text \<open>
  One round of the pulling loop: the result of the prefix's \<open>unwrap\<close> is not looked at; the
  length handed to \<open>publish\<close> is a \<open>size_t\<close> subtraction.
\<close>

definition pull_round ::
    "'st sodium \<Rightarrow> comms_agent \<Rightarrow> path option \<Rightarrow> 'st \<Rightarrow> i32 \<Rightarrow> two_slot \<Rightarrow> world \<Rightarrow>
     ((int + 'st \<times> i32 \<times> two_slot) \<times> world) run" where
  "pull_round S CA h st prefix b w =
     andthen (SessionEncWrapper_reader S w) (\<lambda>(prefix_wrap, w).
       let (_, _, pb, _) = unwrap S prefix_wrap (get_client_rx CA) 4 (i32_bytes prefix)
             (u64_of_bytes (uninit 8 w));
           prefix = i32_of_bytes pb in
       andthen (recv_raw_blob (FILE_ENCRYPTED_CHUNK_SIZE S) w) (\<lambda>((rc, file_chunk), w).
         if rc \<noteq> 0 then join_writer h b 1 w
         else (case next_writable b of
             None \<Rightarrow> None
           | Some (slot, b) \<Rightarrow> (case ss_pull S st file_chunk of
                 None \<Rightarrow> join_writer h b 2 w
               | Some (st, m, tag) \<Rightarrow>
                   (let b = store_slot slot m b;
                        n = word_of_nat (length file_chunk) - word_of_nat (ss_ABYTES S) :: u64;
                        (written, b) = writer_turn (publish (unat n) b);
                        w = w\<lparr>disk := write_out h written (disk w)\<rparr> in
                    if prefix \<noteq> END_CHUNK then ret (Inr (st, prefix, b), w)
                    else join_writer h b 0 w)))))"

partial_function (option) pull_loop ::
    "'st sodium \<Rightarrow> comms_agent \<Rightarrow> path option \<Rightarrow> 'st \<Rightarrow> i32 \<Rightarrow> two_slot \<Rightarrow> world \<Rightarrow> (int \<times> world) run" where
  "pull_loop S CA h st prefix b w =
     andthen (pull_round S CA h st prefix b w) (\<lambda>(r, w).
       case r of Inl rc \<Rightarrow> ret (rc, w) | Inr (st, prefix, b) \<Rightarrow> pull_loop S CA h st prefix b w)"

definition decrypt_and_read_from_server ::
    "'st sodium \<Rightarrow> comms_agent \<Rightarrow> path option \<Rightarrow> cpp_string \<Rightarrow> receiver_agent \<Rightarrow> world \<Rightarrow>
     ((int \<times> receiver_agent) \<times> world) run" where
  "decrypt_and_read_from_server S CA h password RA w =
     andthen (Receiver_init_read S CA (uninit (ss_HEADERBYTES S) w) (uninit (pwhash_SALTBYTES S) w) w)
       (\<lambda>((rc, header, salt), w).
       if rc \<noteq> 0 then ret ((1, RA), w)
       else (case pwhash S (box_SEEDBYTES S) password salt of
           None \<Rightarrow> ret ((1, RA\<lparr>ra_key := take (length (ra_key RA)) (pwhash_fail_buf S (ra_key RA))\<rparr>), w)
         | Some key \<Rightarrow>
             (let RA = RA\<lparr>ra_key := key\<rparr> in
              case ss_init_pull S header key of
                None \<Rightarrow> ret ((2, RA), w)
              | Some st \<Rightarrow>
                  andthen (pull_loop S CA h st END_CHUNK (TwoSlotBuffer (FILE_ENCRYPTED_CHUNK_SIZE S)) w)
                    (\<lambda>(rc, w). ret ((rc, RA), w)))))"

section \<open>The file stream\<close>

text \<open>The ciphertexts of a sequence of tagged messages; a sender tags only the last one.\<close>

fun push_all :: "'st sodium \<Rightarrow> 'st \<Rightarrow> (byte list \<times> byte) list \<Rightarrow> byte list list" where
  "push_all S st [] = []"
| "push_all S st ((m, t) # ms) = snd (ss_push S st m t) # push_all S (fst (ss_push S st m t)) ms"

fun final_tags :: "'st sodium \<Rightarrow> byte list list \<Rightarrow> (byte list \<times> byte) list" where
  "final_tags S [] = []"
| "final_tags S (m # ms) = (m, if ms = [] then ss_TAG_FINAL S else 0) # final_tags S ms"

lemma final_tags_simps [simp]:
  "map fst (final_tags S ms) = ms" "final_tags S ms = [] \<longleftrightarrow> ms = []" "length (final_tags S ms) = length ms"
  by (induction ms) auto

lemma push_all_Nil [simp]: "push_all S st ms = [] \<longleftrightarrow> ms = []"
  by (cases ms) auto

lemma ss_stepE:
  assumes "ss_in_step S sync" "sync st st'"
  obtains st'' where "ss_pull S st' (snd (ss_push S st m t)) = Some (st'', m, t)"
    "sync (fst (ss_push S st m t)) st''" "length (snd (ss_push S st m t)) = length m + ss_ABYTES S"
  using assms unfolding ss_in_step_def by blast

lemma push_all_lengths:
  assumes "ss_in_step S sync" "sync st st'"
  shows "map length (push_all S st ms) = map (\<lambda>(m, t). length m + ss_ABYTES S) ms"
  using assms(2)
proof (induction ms arbitrary: st st')
  case (Cons mt ms)
  obtain m t where mt: "mt = (m, t)" by (cases mt)
  obtain st'' where "sync (fst (ss_push S st m t)) st''" "length (snd (ss_push S st m t)) = length m + ss_ABYTES S"
    using ss_stepE [OF assms(1) Cons.prems] by blast
  with Cons.IH show ?case by (auto simp: mt)
qed simp

section \<open>What a sender puts on the wire\<close>

lemma sa_send_frame:
  assumes "session_laws S" "length (sa_nonce SA) = aead_NPUBBYTES S"
    "length data \<le> FILE_ENCRYPTED_CHUNK_SIZE S" "tx_plan w = []"
  shows "sa_send S CA data SA w = ret (SA\<lparr>sa_nonce := sodium_increment S (sa_nonce SA)\<rparr>,
     w\<lparr>tx := tx w @ frame S (client_tx CA) (sa_nonce SA) data\<rparr>)"
  using session_send_frame [OF assms] by (simp add: sa_send_def get_client_tx_def)

lemma file_chunks_tags:
  "final_tags S (file_chunks n xs) =
     (if n = 0 \<or> length xs < n then [(xs, ss_TAG_FINAL S)]
      else (take n xs, 0) # final_tags S (file_chunks n (drop n xs)))"
  by (subst file_chunks.simps) (simp add: file_chunks_props(1))

lemma encrypt_loop_frames:
  assumes S: "session_laws S" "ss_in_step S sync" and sync: "sync st st'"
    and "length (sa_buffer SA) = FILE_ENCRYPTED_CHUNK_SIZE S" "length (sa_nonce SA) = aead_NPUBBYTES S" "tx_plan w = []"
  shows "\<exists>SA'. encrypt_loop S CA st \<lparr>in_src = Regular xs, eofbit = False, failbit = False, badbit = False\<rparr> SA w =
     ret (SA', w\<lparr>tx := tx w @ chunk_frames S (client_tx CA) (sa_nonce SA)
                   (push_all S st (final_tags S (file_chunks CHUNK_SIZE xs)))\<rparr>)"
  using assms(3-)
proof (induction CHUNK_SIZE xs arbitrary: st st' SA w rule: file_chunks.induct)
  case (1 xs)
  have sz: "sodium_sizes S" using S(1) by (simp add: session_laws_def)
  have pos: "CHUNK_SIZE \<noteq> 0" by (simp add: CHUNK_SIZE_def)
  have tag: "ss_TAG_FINAL S \<noteq> 0" using sodium_sizesD(5) [OF sz] by simp
  let ?eof = "length xs < CHUNK_SIZE" and ?m = "take CHUNK_SIZE xs"
  let ?t = "if ?eof then ss_TAG_FINAL S else 0"
  let ?st = "fst (ss_push S st ?m ?t)" and ?c = "snd (ss_push S st ?m ?t)"
  obtain st'' where st'': "sync ?st st''" and len: "length ?c = length ?m + ss_ABYTES S"
    using ss_stepE [OF S(2) 1(2)] by blast
  have n: "unat (word_of_nat (ss_ABYTES S) + word_of_nat (length ?m) :: u64) = length ?c"
  proof -
    have "length ?c < 2 ^ 64" using len sodium_sizesD(3) [OF sz] by (simp add: CHUNK_SIZE_def)
    with len show ?thesis using unat_of_nat_u64 [of "length ?c"] by (simp add: add.commute)
  qed
  have fit: "length ?c \<le> length (sa_buffer SA)"
    using len 1(3) by (simp add: FILE_ENCRYPTED_CHUNK_SIZE_def)
  let ?SA = "SA\<lparr>sa_size := word_of_nat (ss_ABYTES S) + word_of_nat (length ?m),
      sa_buffer := write_into (sa_buffer SA) ?c\<rparr>"
  let ?v = "if ?eof then END_CHUNK else MEAT_CHUNK"
  let ?SA1 = "?SA\<lparr>sa_nonce := sodium_increment S (sa_nonce SA)\<rparr>"
  let ?w1 = "w\<lparr>tx := tx w @ frame S (client_tx CA) (sa_nonce SA) (i32_bytes ?v)\<rparr>"
  have send: "sa_send S CA (i32_bytes ?v) ?SA w = ret (?SA1, ?w1)"
    using sa_send_frame [OF S(1) _ i32_fits [OF S(1)], of ?SA w CA ?v] 1(4,5) by simp
  have blob: "send_buffer ?SA1 ?w1 = ret (0, ?w1\<lparr>tx := tx ?w1 @ blob_bytes ?c\<rparr>)"
    using 1(5) n fit by (simp add: send_buffer_def send_raw_blob_accepted)
  let ?w2 = "?w1\<lparr>tx := tx ?w1 @ blob_bytes ?c\<rparr>"
  let ?f = "\<lparr>in_src = Regular (drop CHUNK_SIZE xs), eofbit = ?eof, failbit = ?eof, badbit = False\<rparr>"
  have step: "encrypt_loop S CA st \<lparr>in_src = Regular xs, eofbit = False, failbit = False, badbit = False\<rparr> SA w =
      (if ?eof then ret (?SA1, ?w2) else encrypt_loop S CA ?st ?f ?SA1 ?w2)"
    using send blob fit tag
    by (cases ?eof; subst encrypt_loop.simps) (simp_all add: read_in_file Let_def split_beta)
  show ?case
  proof (cases ?eof)
    case True
    with step show ?thesis by (simp add: file_chunks_tags [of S CHUNK_SIZE xs])
  next
    case False
    have "\<exists>SA'. encrypt_loop S CA ?st \<lparr>in_src = Regular (drop CHUNK_SIZE xs), eofbit = False, failbit = False,
          badbit = False\<rparr> ?SA1 ?w2 =
        ret (SA', ?w2\<lparr>tx := tx ?w2 @ chunk_frames S (client_tx CA) (sa_nonce ?SA1)
                 (push_all S ?st (final_tags S (file_chunks CHUNK_SIZE (drop CHUNK_SIZE xs))))\<rparr>)"
      by (rule 1(1) [OF _ st'']) (use False pos fit 1 length_increment [OF S(1)] in auto)
    with step False pos show ?thesis
      by (simp add: file_chunks_tags [of S CHUNK_SIZE xs] file_chunks_props(1))
  qed
qed

lemma init_send_frames:
  assumes S: "session_laws S" "length (sa_nonce SA) = aead_NPUBBYTES S" "tx_plan w = []"
    and fit: "length name \<le> FILE_ENCRYPTED_CHUNK_SIZE S" "length header \<le> FILE_ENCRYPTED_CHUNK_SIZE S"
      "length salt \<le> FILE_ENCRYPTED_CHUNK_SIZE S"
  shows "init_send S CA f name header salt SA w =
     (if stream_ok f
      then ret ((0, SA\<lparr>sa_nonce := counter S 4 (sa_nonce SA)\<rparr>),
             w\<lparr>tx := tx w @ frames S (client_tx CA) (sa_nonce SA) [[1], name, header, salt]\<rparr>)
      else ret ((1, SA\<lparr>sa_nonce := sodium_increment S (sa_nonce SA)\<rparr>),
             w\<lparr>tx := tx w @ frame S (client_tx CA) (sa_nonce SA) [0]\<rparr>))"
proof -
  have one: "length [b :: byte] \<le> FILE_ENCRYPTED_CHUNK_SIZE S" for b
    by (simp add: FILE_ENCRYPTED_CHUNK_SIZE_def CHUNK_SIZE_def)
  note len = length_increment [OF S(1)]
  show ?thesis
    using S(2,3) fit one
    by (simp add: init_send_def Let_def sa_send_frame [OF S(1)] len counter_def numeral_eq_Suc)
qed

text \<open>What a sender draws: the salt, then the start of the file stream.\<close>

definition file_salt :: "'st sodium \<Rightarrow> world \<Rightarrow> byte list" where
  "file_salt S w = fst (randombytes_buf (pwhash_SALTBYTES S) w)"

definition file_iv :: "'st sodium \<Rightarrow> world \<Rightarrow> byte list" where
  "file_iv S w = fst (randombytes_buf (ss_HEADERBYTES S) (w\<lparr>rnd_pos := rnd_pos w + pwhash_SALTBYTES S\<rparr>))"

text \<open>The encrypted file: header, salt and chunks, for a key and a start value.\<close>

definition sealed_header :: "'st sodium \<Rightarrow> byte list \<Rightarrow> byte list \<Rightarrow> byte list" where
  "sealed_header S iv key = snd (ss_init_push S iv key)"

definition sealed_chunks :: "'st sodium \<Rightarrow> byte list \<Rightarrow> byte list \<Rightarrow> byte list \<Rightarrow> byte list list" where
  "sealed_chunks S iv key xs =
     push_all S (fst (ss_init_push S iv key)) (final_tags S (file_chunks CHUNK_SIZE xs))"

lemma ss_startE:
  assumes "secretstream_laws S"
  obtains sync where "ss_in_step S sync"
  using assms unfolding secretstream_laws_def by blast

lemma ss_initE:
  assumes "ss_in_step S sync"
  obtains st' where "ss_init_pull S (sealed_header S iv key) key = Some st'" "sync (fst (ss_init_push S iv key)) st'"
    "length (sealed_header S iv key) = ss_HEADERBYTES S"
  using assms unfolding ss_in_step_def sealed_header_def by blast

lemma upload_run:
  assumes S: "session_laws S" "secretstream_laws S" "length (sa_nonce SA) = aead_NPUBBYTES S" "tx_plan w = []"
      "length (sa_buffer SA) = FILE_ENCRYPTED_CHUNK_SIZE S"
    and name: "length name \<le> FILE_ENCRYPTED_CHUNK_SIZE S"
    and f: "resolve (disk w) (c_path name) = Inr p" "lookup (disk w) p = Some (File xs)"
    and k: "pwhash S (box_SEEDBYTES S) password (file_salt S w) = Some key"
  shows "\<exists>SA' w'. encrypt_and_send_to_server S CA name password SA w = ret ((0, SA'), w') \<and>
     sa_key SA' = replicate (box_SEEDBYTES S) 0 \<and> disk w' = disk w \<and> rx w' = rx w \<and>
     tx w' = tx w @ upload_bytes S (client_tx CA) (sa_nonce SA) name
       (sealed_header S (file_iv S w) key) (file_salt S w) (sealed_chunks S (file_iv S w) key xs) \<and>
     w' = w\<lparr>rnd_pos := rnd_pos w + pwhash_SALTBYTES S + ss_HEADERBYTES S, tx := tx w'\<rparr>"
proof -
  have sz: "sodium_sizes S" using S(1) by (simp add: session_laws_def)
  let ?salt = "file_salt S w" and ?iv = "file_iv S w"
  let ?w = "w\<lparr>rnd_pos := rnd_pos w + pwhash_SALTBYTES S + ss_HEADERBYTES S\<rparr>"
  let ?SA = "SA\<lparr>sa_salt := ?salt, sa_key := key\<rparr>"
  obtain st header where init: "ss_init_push S ?iv key = (st, header)" by fastforce
  obtain sync where sync: "ss_in_step S sync" using ss_startE [OF S(2)] .
  obtain st' where st': "sync st st'" "length header = ss_HEADERBYTES S"
    using ss_initE [OF sync, of ?iv key] init by (auto simp: sealed_header_def)
  have fit: "length header \<le> FILE_ENCRYPTED_CHUNK_SIZE S" "length ?salt \<le> FILE_ENCRYPTED_CHUNK_SIZE S"
    using st'(2) chunk_sizes [OF sz] sodium_sizesD [OF sz] by (simp_all add: file_salt_def)
  let ?file = "\<lparr>in_src = Regular xs, eofbit = False, failbit = False, badbit = False\<rparr>"
  have opened: "open_in (disk w) (c_path name) = ?file" using open_in_file [OF f] .
  have ok: "stream_ok ?file" by (simp add: stream_ok_def)
  have setc: "set_crypto S password SA w = ((0, ?SA), w\<lparr>rnd_pos := rnd_pos w + pwhash_SALTBYTES S\<rparr>)"
    using k by (simp add: set_crypto_def file_salt_def randombytes_buf_def)
  have iv: "randombytes_buf (ss_HEADERBYTES S) (w\<lparr>rnd_pos := rnd_pos w + pwhash_SALTBYTES S\<rparr>) = (?iv, ?w)"
    by (simp add: file_iv_def randombytes_buf_def add.assoc)
  let ?SA1 = "?SA\<lparr>sa_nonce := counter S 4 (sa_nonce SA)\<rparr>"
  let ?w1 = "?w\<lparr>tx := tx w @ frames S (client_tx CA) (sa_nonce SA) [[1], name, header, ?salt]\<rparr>"
  have init_send: "init_send S CA ?file name header ?salt ?SA ?w = ret ((0, ?SA1), ?w1)"
    using init_send_frames [OF S(1) _ _ name fit, of ?SA ?w CA ?file] S(3,4) ok by simp
  have n1: "length (sa_nonce ?SA1) = aead_NPUBBYTES S" using length_counter [OF S(1)] S(3) by simp
  obtain SA2 where loop: "encrypt_loop S CA st ?file ?SA1 ?w1 = ret (SA2, ?w1\<lparr>tx := tx ?w1 @
      chunk_frames S (client_tx CA) (sa_nonce ?SA1) (push_all S st (final_tags S (file_chunks CHUNK_SIZE xs)))\<rparr>)"
    using encrypt_loop_frames [OF S(1) sync st'(1) _ n1, of ?w1 CA xs] S(4,5) by auto
  then show ?thesis
    by (simp add: encrypt_and_send_to_server_def setc iv init opened init_send upload_bytes_def
        sealed_header_def sealed_chunks_def)
qed

section \<open>A receiver reconstructs the file\<close>

lemma pull_round_chunk:
  assumes S: "session_laws S" "length nonce = aead_NPUBBYTES S" "ss_in_step S sync" "sync st st'"
    and m: "length m \<le> CHUNK_SIZE"
    and b: "idle_buffer (FILE_ENCRYPTED_CHUNK_SIZE S) b"
    and w: "feeds w (frame S (client_rx CA) nonce (i32_bytes v) @ blob_bytes (snd (ss_push S st m t)) @ rest)"
  obtains st'' b' w' where
    "pull_round S CA h st' prefix b w = ret (if v = END_CHUNK then Inl 0 else Inr (st'', v, b'), w')"
    "sync (fst (ss_push S st m t)) st''"
    "idle_buffer (FILE_ENCRYPTED_CHUNK_SIZE S) b'" "feeds w' rest"
    "only_rx (w\<lparr>disk := write_out h m (disk w)\<rparr>) w'"
proof -
  let ?c = "snd (ss_push S st m t)"
  have sz: "sodium_sizes S" using S(1) by (simp add: session_laws_def)
  obtain st'' where st'': "ss_pull S st' ?c = Some (st'', m, t)" "sync (fst (ss_push S st m t)) st''"
    "length ?c = length m + ss_ABYTES S"
    using ss_stepE [OF S(3,4)] .
  have c: "length ?c \<le> FILE_ENCRYPTED_CHUNK_SIZE S"
    using st''(3) m by (simp add: FILE_ENCRYPTED_CHUNK_SIZE_def)
  obtain w1 where w1: "SessionEncWrapper_reader S w =
      ret (framed (sealed S (client_rx CA) nonce (i32_bytes v)), w1)"
    "feeds w1 (blob_bytes ?c @ rest)" "only_rx w w1"
    using readerE [OF S(1,2) i32_fits [OF S(1)] w] .
  obtain w2 where w2: "recv_raw_blob (FILE_ENCRYPTED_CHUNK_SIZE S) w1 = ret ((0, ?c), w2)"
    "feeds w2 rest" "only_rx w1 w2"
    using raw_blob.dec_encE [OF blob_fits_chunk [OF S(1) c] w1(2)] .
  obtain s b1 b2 where b2: "next_writable b = Some (s, b1)"
    "writer_turn (publish (length m) (store_slot s m b1)) = (m, b2)"
    "idle_buffer (FILE_ENCRYPTED_CHUNK_SIZE S) b2"
    using hand_overE [OF b] .
  have "length m < 2 ^ 64" using m by (simp add: CHUNK_SIZE_def)
  then have n: "unat (word_of_nat (length ?c) - word_of_nat (ss_ABYTES S) :: u64) = length m"
    by (simp add: st''(3) unat_of_nat_u64)
  let ?w = "w2\<lparr>disk := write_out h m (disk w2)\<rparr>"
  have "pull_round S CA h st' prefix b w =
      ret (if v = END_CHUNK then Inl 0 else Inr (st'', v, b2), ?w)"
    using w1(1) w2(1) b2 st''(1) n unwrap_i32 [OF S(1,2)]
    by (simp add: pull_round_def get_client_rx_def Let_def join_writer_idle)
  moreover have "only_rx w w2" using w1(3) w2(3) by (rule only_rx_trans)
  ultimately show ?thesis using that st''(2) b2(3) w2(2) only_rx_disk [OF \<open>only_rx w w2\<close>]
    by (simp add: only_rx_fields)
qed

text \<open>
  The pulling loop writes the messages of a chunk stream, whatever tags they carry: only the
  prefix decides which chunk is the last.
\<close>

lemma pull_loop_chunks:
  assumes "session_laws S" "length nonce = aead_NPUBBYTES S" "ss_in_step S sync" "sync st st'" "ms \<noteq> []"
    and "\<forall>(m, t) \<in> set ms. length m \<le> CHUNK_SIZE"
    and "idle_buffer (FILE_ENCRYPTED_CHUNK_SIZE S) b"
    and "feeds w (chunk_frames S (client_rx CA) nonce (push_all S st ms) @ rest)"
  shows "\<exists>w'. pull_loop S CA h st' prefix b w = ret (0, w') \<and> feeds w' rest \<and>
     only_rx (w\<lparr>disk := write_out h (concat (map fst ms)) (disk w)\<rparr>) w'"
  using assms(2,4-)
proof (induction ms arbitrary: nonce st st' prefix b w)
  case Nil
  then show ?case by simp
next
  case (Cons mt ms)
  obtain m t where mt: "mt = (m, t)" by (cases mt)
  let ?v = "if ms = [] then END_CHUNK else MEAT_CHUNK" and ?st = "fst (ss_push S st m t)"
  have v: "?v = END_CHUNK \<longleftrightarrow> ms = []" by (simp add: END_CHUNK_def MEAT_CHUNK_def)
  from Cons.prems(6) have f: "feeds w (frame S (client_rx CA) nonce (i32_bytes ?v) @
      blob_bytes (snd (ss_push S st m t)) @
      chunk_frames S (client_rx CA) (sodium_increment S nonce) (push_all S ?st ms) @ rest)"
    by (simp add: mt)
  have m: "length m \<le> CHUNK_SIZE" using Cons.prems(4) by (simp add: mt)
  obtain st'' b1 w1 where r: "pull_round S CA h st' prefix b w =
      ret (if ?v = END_CHUNK then Inl 0 else Inr (st'', ?v, b1), w1)" "sync ?st st''"
    "idle_buffer (FILE_ENCRYPTED_CHUNK_SIZE S) b1"
    "feeds w1 (chunk_frames S (client_rx CA) (sodium_increment S nonce) (push_all S ?st ms) @ rest)"
    "only_rx (w\<lparr>disk := write_out h m (disk w)\<rparr>) w1"
    using pull_round_chunk [OF assms(1) Cons.prems(1) assms(3) Cons.prems(2) m Cons.prems(5) f] by blast
  have step: "pull_loop S CA h st' prefix b w =
      (if ms = [] then ret (0, w1) else pull_loop S CA h st'' ?v b1 w1)"
    by (subst pull_loop.simps) (simp add: r(1) v END_CHUNK_def MEAT_CHUNK_def)
  show ?case
  proof (cases "ms = []")
    case True
    with step r show ?thesis by (simp add: mt)
  next
    case False
    have n: "length (sodium_increment S nonce) = aead_NPUBBYTES S"
      using Cons.prems(1) length_increment [OF assms(1)] by simp
    have all: "\<forall>(m, t) \<in> set ms. length m \<le> CHUNK_SIZE" using Cons.prems(4) by simp
    obtain w' where w': "pull_loop S CA h st'' ?v b1 w1 = ret (0, w')" "feeds w' rest"
      "only_rx (w1\<lparr>disk := write_out h (concat (map fst ms)) (disk w1)\<rparr>) w'"
      using Cons.IH [OF n r(2) False all r(3,4)] by blast
    have "only_rx (w\<lparr>disk := write_out h (m @ concat (map fst ms)) (disk w)\<rparr>) w'"
      using only_rx_trans [OF only_rx_disk [OF r(5)] w'(3)] only_rx_fields(6) [OF r(5)]
      by (simp add: write_out_append)
    with False step w' show ?thesis by (simp add: mt)
  qed
qed

lemma Receiver_init_read_honest:
  assumes S: "session_laws S" "length nonce = aead_NPUBBYTES S"
    and hs: "length header = ss_HEADERBYTES S" "length salt = pwhash_SALTBYTES S"
      "length hb = ss_HEADERBYTES S" "length sb = pwhash_SALTBYTES S"
    and w: "feeds w (frames S (client_rx CA) nonce [header, salt] @ rest)"
  shows "\<exists>w'. Receiver_init_read S CA hb sb w = ret ((0, header, salt), w') \<and> feeds w' rest \<and> only_rx w w'"
proof -
  let ?k = "client_rx CA" and ?n = "sodium_increment S nonce"
  have sz: "sodium_sizes S" using S(1) by (simp add: session_laws_def)
  have n: "length ?n = aead_NPUBBYTES S" using S length_increment by metis
  have le: "ss_HEADERBYTES S \<le> 65553" "pwhash_SALTBYTES S \<le> 65553" using sodium_sizesD [OF sz] by simp_all
  from w have w0: "feeds w (frame S ?k nonce header @ frame S ?k ?n salt @ rest)" by simp
  obtain w1 where w1: "SessionEncWrapper_reader S w = ret (framed (sealed S ?k nonce header), w1)"
    "feeds w1 (frame S ?k ?n salt @ rest)" "only_rx w w1"
    "\<And>b l. unwrap S (framed (sealed S ?k nonce header)) ?k (ss_HEADERBYTES S) b l =
       (0, framed (sealed S ?k nonce header), write_into b header, word_of_nat (length header))"
    using read_messageE [OF S eq_refl [OF hs(1)] le(1) w0] by blast
  obtain w2 where w2: "SessionEncWrapper_reader S w1 = ret (framed (sealed S ?k ?n salt), w2)"
    "feeds w2 rest" "only_rx w1 w2"
    "\<And>b l. unwrap S (framed (sealed S ?k ?n salt)) ?k (pwhash_SALTBYTES S) b l =
       (0, framed (sealed S ?k ?n salt), write_into b salt, word_of_nat (length salt))"
    using read_messageE [OF S(1) n eq_refl [OF hs(2)] le(2) w1(2)] by blast
  have "Receiver_init_read S CA hb sb w = ret ((0, header, salt), w2)"
    using hs by (simp add: Receiver_init_read_def get_client_rx_def Let_def w1(1,4) w2(1,4) write_into_full)
  with w1(3) w2(2,3) show ?thesis by (blast intro: only_rx_trans)
qed

text \<open>A download of tagged messages: the receiver's key derivation gives the sender's key back.\<close>

lemma download_run:
  assumes S: "session_laws S" "length nonce = aead_NPUBBYTES S" "ss_in_step S sync"
    and salt: "length salt = pwhash_SALTBYTES S"
    and k: "pwhash S (box_SEEDBYTES S) password salt = Some key"
    and ms: "ms \<noteq> []" "\<forall>(m, t) \<in> set ms. length m \<le> CHUNK_SIZE"
    and w: "feeds w (download_bytes S (client_rx CA) nonce (sealed_header S iv key) salt
       (push_all S (fst (ss_init_push S iv key)) ms) @ rest)"
  shows "\<exists>w'. decrypt_and_read_from_server S CA h password RA w = ret ((0, RA\<lparr>ra_key := key\<rparr>), w') \<and>
     feeds w' rest \<and> only_rx (w\<lparr>disk := write_out h (concat (map fst ms)) (disk w)\<rparr>) w'"
proof -
  obtain st' where st': "ss_init_pull S (sealed_header S iv key) key = Some st'"
    "sync (fst (ss_init_push S iv key)) st'" "length (sealed_header S iv key) = ss_HEADERBYTES S"
    using ss_initE [OF S(3)] .
  have n: "length (counter S 2 nonce) = aead_NPUBBYTES S" using S length_counter by metis
  from w have "feeds w (frames S (client_rx CA) nonce [sealed_header S iv key, salt] @
      (chunk_frames S (client_rx CA) (counter S 2 nonce) (push_all S (fst (ss_init_push S iv key)) ms) @ rest))"
    by (simp only: download_bytes_def append_assoc)
  from Receiver_init_read_honest [OF S(1,2) st'(3) salt length_uninit length_uninit this]
  obtain w1 where w1: "Receiver_init_read S CA (uninit (ss_HEADERBYTES S) w) (uninit (pwhash_SALTBYTES S) w) w =
      ret ((0, sealed_header S iv key, salt), w1)"
    "feeds w1 (chunk_frames S (client_rx CA) (counter S 2 nonce) (push_all S (fst (ss_init_push S iv key)) ms) @ rest)"
    "only_rx w w1" by blast
  obtain w2 where w2: "pull_loop S CA h st' END_CHUNK (TwoSlotBuffer (FILE_ENCRYPTED_CHUNK_SIZE S)) w1 = ret (0, w2)"
    "feeds w2 rest" "only_rx (w1\<lparr>disk := write_out h (concat (map fst ms)) (disk w1)\<rparr>) w2"
    using pull_loop_chunks [OF S(1) n S(3) st'(2) ms idle_TwoSlotBuffer w1(2)] by blast
  have "decrypt_and_read_from_server S CA h password RA w = ret ((0, RA\<lparr>ra_key := key\<rparr>), w2)"
    by (simp add: decrypt_and_read_from_server_def w1(1) k st'(1) Let_def w2(1))
  moreover have "only_rx (w\<lparr>disk := write_out h (concat (map fst ms)) (disk w)\<rparr>) w2"
    using only_rx_trans [OF only_rx_disk [OF w1(3)] w2(3)] only_rx_fields(6) [OF w1(3)] by simp
  ultimately show ?thesis using w2(2) by blast
qed

section \<open>Nothing else is written\<close>

text \<open>The messages the library delivers for a sequence of ciphertexts, all of them accepted.\<close>

fun pull_all :: "'st sodium \<Rightarrow> 'st \<Rightarrow> byte list list \<Rightarrow> byte list list option" where
  "pull_all S st [] = Some []"
| "pull_all S st (c # cs) = (case ss_pull S st c of
     None \<Rightarrow> None
   | Some (st', m, t) \<Rightarrow> (case pull_all S st' cs of None \<Rightarrow> None | Some ms \<Rightarrow> Some (m # ms)))"

lemma pull_roundE:
  assumes run: "pull_round S CA h st prefix b w = ret (r, w')"
    and S: "secretstream_laws S" and b: "idle_buffer (FILE_ENCRYPTED_CHUNK_SIZE S) b"
    and cap: "FILE_ENCRYPTED_CHUNK_SIZE S < 2 ^ 64"
  obtains (left) rc where "r = Inl rc" "only_rx w w'"
  | (pulled) c st' m t where "ss_pull S st c = Some (st', m, t)"
      "only_rx (w\<lparr>disk := write_out h m (disk w)\<rparr>) w'"
      "r = Inl 0 \<or> (\<exists>prefix' b'. r = Inr (st', prefix', b') \<and> idle_buffer (FILE_ENCRYPTED_CHUNK_SIZE S) b')"
proof -
  obtain wrap w1 where w1: "SessionEncWrapper_reader S w = ret (wrap, w1)"
    using run unfolding pull_round_def by (auto simp only: andthen_eq_ret_iff)
  obtain rc x pb l where u: "unwrap S wrap (get_client_rx CA) 4 (i32_bytes prefix) (u64_of_bytes (uninit 8 w1)) =
      (rc, x, pb, l)" by (metis prod_cases4)
  note run1 = run [unfolded pull_round_def, simplified w1 andthen_ret prod.case u Let_def]
  then obtain c chunk w2 where w2: "recv_raw_blob (FILE_ENCRYPTED_CHUNK_SIZE S) w1 = ret ((c, chunk), w2)"
    by (auto simp: andthen_eq_ret_iff)
  have o: "only_rx w w2" using only_rx_trans [OF reader_only_rx [OF w1] recv_raw_blobD(2) [OF w2]] .
  obtain slot b1 where b1: "next_writable b = Some (slot, b1)" using next_writable_idle [OF b] .
  note run2 = run1 [simplified w2 andthen_ret prod.case b1 option.case]
  have quiet: "join_writer h b rc w2 = ret (Inl rc, w2)" "join_writer h b1 rc w2 = ret (Inl rc, w2)" for rc
    using b ready_next_writable [OF b1]
    by (simp_all add: join_writer_def writer_leaves_empty idle_buffer_def)
  show ?thesis
  proof (cases "c \<noteq> 0 \<or> ss_pull S st chunk = None")
    case True
    with run2 o show ?thesis by (auto simp: quiet split: if_splits intro: left)
  next
    case False
    then obtain st' m t where p: "ss_pull S st chunk = Some (st', m, t)" by auto
    have len: "length chunk = length m + ss_ABYTES S" using S p unfolding secretstream_laws_def by blast
    have "length m < 2 ^ 64" using len recv_raw_blobD(1) [OF w2] cap by simp
    then have n: "unat (word_of_nat (length chunk) - word_of_nat (ss_ABYTES S) :: u64) = length m"
      by (simp add: len unat_of_nat_u64)
    obtain b2 where b2: "writer_turn (publish (length m) (store_slot slot m b1)) = (m, b2)"
      "idle_buffer (FILE_ENCRYPTED_CHUNK_SIZE S) b2"
      using writer_turn_idle [OF b b1] .
    let ?w = "w2\<lparr>disk := write_out h m (disk w2)\<rparr>"
    have "(if i32_of_bytes pb \<noteq> END_CHUNK then ret (Inr (st', i32_of_bytes pb, b2), ?w)
        else ret (Inl 0, ?w)) = ret (r, w')"
      using run2 False by (simp add: p n b2(1) join_writer_idle [OF b2(2)] cong: if_cong)
    moreover have "only_rx (w\<lparr>disk := write_out h m (disk w)\<rparr>) ?w"
      using only_rx_disk [OF o] only_rx_fields(6) [OF o] by simp
    ultimately show ?thesis using b2(2) p by (intro pulled [OF p]) (auto split: if_splits)
  qed
qed

definition pulled_onto :: "'st sodium \<Rightarrow> path option \<Rightarrow> 'st \<Rightarrow> world \<Rightarrow> world \<Rightarrow> bool" where
  "pulled_onto S h st w w' \<longleftrightarrow> (\<exists>cs ms. pull_all S st cs = Some ms \<and>
     only_rx (w\<lparr>disk := write_out h (concat ms) (disk w)\<rparr>) w')"

lemma pulled_onto_refl: "only_rx w w' \<Longrightarrow> pulled_onto S h st w w'"
  unfolding pulled_onto_def by (rule exI [of _ "[]"], rule exI [of _ "[]"]) simp

lemma pulled_onto_step:
  assumes "ss_pull S st c = Some (st', m, t)" "only_rx (w\<lparr>disk := write_out h m (disk w)\<rparr>) w1"
    "pulled_onto S h st' w1 w'"
  shows "pulled_onto S h st w w'"
proof -
  from assms(3) obtain cs ms where ms: "pull_all S st' cs = Some ms"
    "only_rx (w1\<lparr>disk := write_out h (concat ms) (disk w1)\<rparr>) w'" by (auto simp: pulled_onto_def)
  have "pull_all S st (c # cs) = Some (m # ms)" using assms(1) ms(1) by simp
  moreover have "only_rx (w\<lparr>disk := write_out h (concat (m # ms)) (disk w)\<rparr>) w'"
    using only_rx_trans [OF only_rx_disk [OF assms(2)] ms(2)] only_rx_fields(6) [OF assms(2)]
    by (simp add: write_out_append)
  ultimately show ?thesis unfolding pulled_onto_def by blast
qed

lemma pull_loop_pulled:
  assumes run: "pull_loop S CA h st prefix b w = ret (rc, w')"
    and S: "secretstream_laws S" "FILE_ENCRYPTED_CHUNK_SIZE S < 2 ^ 64"
    and idle: "idle_buffer (FILE_ENCRYPTED_CHUNK_SIZE S) b"
  shows "pulled_onto S h st w w'"
proof -
  let ?P = "\<lambda>S (CA :: comms_agent) h st (prefix :: i32) b w (r :: fault + int \<times> world).
    \<forall>rc w'. r = Inr (rc, w') \<longrightarrow> secretstream_laws S \<and> FILE_ENCRYPTED_CHUNK_SIZE S < 2 ^ 64 \<and>
      idle_buffer (FILE_ENCRYPTED_CHUNK_SIZE S) b \<longrightarrow> pulled_onto S h st w w'"
  from run have run': "pull_loop S CA h st prefix b w = Some (Inr (rc, w'))" by (simp add: ret_def)
  have "?P S CA h st prefix b w (Inr (rc, w'))"
  proof (rule pull_loop.raw_induct [where P = ?P, OF _ run'], intro allI impI, elim conjE)
    fix loop S CA h st prefix b w r rc w'
    assume IH: "\<And>S CA h st prefix b w r. loop S CA h st prefix b w = Some r \<Longrightarrow> ?P S CA h st prefix b w r"
      and eq: "andthen (pull_round S CA h st prefix b w) (\<lambda>(r, w).
          case r of Inl rc \<Rightarrow> ret (rc, w) | Inr (st, prefix, b) \<Rightarrow> loop S CA h st prefix b w) = Some r"
      and r: "r = Inr (rc, w')" and S: "secretstream_laws S" "FILE_ENCRYPTED_CHUNK_SIZE S < 2 ^ 64"
      and idle: "idle_buffer (FILE_ENCRYPTED_CHUNK_SIZE S) b"
    from eq r have "andthen (pull_round S CA h st prefix b w) (\<lambda>(r, w).
          case r of Inl rc \<Rightarrow> ret (rc, w) | Inr (st, prefix, b) \<Rightarrow> loop S CA h st prefix b w) = ret (rc, w')"
      by (simp add: ret_def)
    then obtain x w1 where x: "pull_round S CA h st prefix b w = ret (x, w1)"
      "(case x of Inl rc \<Rightarrow> ret (rc, w1) | Inr (st, prefix, b) \<Rightarrow> loop S CA h st prefix b w1) = ret (rc, w')"
      by (auto simp: andthen_eq_ret_iff)
    from x(1) S(1) idle S(2) show "pulled_onto S h st w w'"
    proof (cases rule: pull_roundE)
      case (left rc')
      with x(2) show ?thesis by (auto intro: pulled_onto_refl)
    next
      case (pulled c st' m t)
      have "pulled_onto S h st' w1 w'"
      proof (cases "x = Inl 0")
        case True
        with x(2) show ?thesis by (auto intro: pulled_onto_refl)
      next
        case False
        with pulled(3) obtain prefix' b' where x': "x = Inr (st', prefix', b')"
          "idle_buffer (FILE_ENCRYPTED_CHUNK_SIZE S) b'" by blast
        with x(2) have "loop S CA h st' prefix' b' w1 = Some (Inr (rc, w'))" by (simp add: ret_def)
        with IH x'(2) S show ?thesis by blast
      qed
      with pulled(1,2) show ?thesis by (rule pulled_onto_step)
    qed
  qed
  with S idle show ?thesis by blast
qed

section \<open>Properties\<close>

lemma file_chunks_fit: "0 < n \<Longrightarrow> \<forall>(m, t) \<in> set (final_tags S (file_chunks n xs)). length m \<le> n"
proof -
  assume "0 < n"
  moreover have "m \<in> set (file_chunks n xs)" if "(m, t) \<in> set (final_tags S (file_chunks n xs))" for m t
    using that final_tags_simps(1) [of S "file_chunks n xs"] by (metis fst_conv image_eqI set_map)
  ultimately show ?thesis using file_chunks_props(3) [of n xs] by auto
qed

definition toy_CA :: comms_agent where
  "toy_CA = \<lparr>ca_sock = 3, client_tx = [7], client_rx = [8]\<rparr>"

definition toy_SA :: sender_agent where
  "toy_SA = \<lparr>sa_nonce = replicate 8 0, sa_buffer = replicate 65553 0, sa_size = 0, sa_key = [], sa_salt = []\<rparr>"

definition toy_local :: filesys where
  "toy_local = \<lparr>entries = [([str ''g''], File [1, 2, 3])], cwd = []\<rparr>"

text \<open>
  A receiver reconstructs the file: from the stream a sender's header, salt and chunks
  make, with the same password, the client writes exactly the plaintext through the writer
  thread, returns 0 and leaves the rest of the input unread.
\<close>

lemma download_reconstructs:
  assumes "session_laws S" "secretstream_laws S" "length nonce = aead_NPUBBYTES S"
    and "length salt = pwhash_SALTBYTES S" "pwhash S (box_SEEDBYTES S) password salt = Some key"
    and "lookup (disk w) p = Some (File old)"
    and "feeds w (download_bytes S (client_rx CA) nonce (sealed_header S iv key) salt
       (sealed_chunks S iv key xs) @ rest)"
  shows "\<exists>w'. decrypt_and_read_from_server S CA (Some p) password RA w = ret ((0, RA\<lparr>ra_key := key\<rparr>), w') \<and>
     feeds w' rest \<and> lookup (disk w') p = Some (File (old @ xs)) \<and>
     (\<forall>q. q \<noteq> p \<longrightarrow> lookup (disk w') q = lookup (disk w) q)"
proof -
  let ?ms = "final_tags S (file_chunks CHUNK_SIZE xs)"
  obtain sync where sync: "ss_in_step S sync" using ss_startE [OF assms(2)] .
  have ms: "?ms \<noteq> []" "\<forall>(m, t) \<in> set ?ms. length m \<le> CHUNK_SIZE" "concat (map fst ?ms) = xs"
    using file_chunks_fit [of CHUNK_SIZE S xs] by (simp_all add: file_chunks_props CHUNK_SIZE_def)
  from download_run [OF assms(1,3) sync assms(4,5) ms(1,2) assms(7) [unfolded sealed_chunks_def]]
  obtain w' where w': "decrypt_and_read_from_server S CA (Some p) password RA w = ret ((0, RA\<lparr>ra_key := key\<rparr>), w')"
    "feeds w' rest" "only_rx (w\<lparr>disk := write_out (Some p) xs (disk w)\<rparr>) w'"
    unfolding ms(3) by blast
  from only_rx_fields(6) [OF w'(3)] lookup_write_out [OF assms(6)] w'(1,2) show ?thesis by simp
qed

lemma toy_key:
  obtains key where "pwhash toy_sodium (box_SEEDBYTES toy_sodium) (str ''pw'') (replicate 16 1) = Some key"
  by (simp add: toy_sodium_def)

text \<open>
  C35. The tag that marks the end of a file is not checked: from any non-empty initial part of
  the chunks, when the last one sent is announced as the last, the client writes just that
  part of the file and still returns 0.
\<close>

theorem truncation_accepted:
  assumes "session_laws S" "secretstream_laws S" "length nonce = aead_NPUBBYTES S"
    and "length salt = pwhash_SALTBYTES S" "pwhash S (box_SEEDBYTES S) password salt = Some key"
    and "0 < n" "n \<le> length (file_chunks CHUNK_SIZE xs)"
    and "feeds w (download_bytes S (client_rx CA) nonce (sealed_header S iv key) salt
       (take n (sealed_chunks S iv key xs)) @ rest)"
  shows "\<exists>w'. decrypt_and_read_from_server S CA h password RA w = ret ((0, RA\<lparr>ra_key := key\<rparr>), w') \<and>
     disk w' = write_out h (concat (take n (file_chunks CHUNK_SIZE xs))) (disk w)"
proof -
  let ?all = "final_tags S (file_chunks CHUNK_SIZE xs)" let ?ms = "take n ?all"
  obtain sync where sync: "ss_in_step S sync" using ss_startE [OF assms(2)] .
  have push: "push_all S st (take n ms) = take n (push_all S st ms)" for st ms
    by (induction ms arbitrary: n st) (auto simp: take_Cons split: nat.splits)
  have ms: "?ms \<noteq> []" "\<forall>(m, t) \<in> set ?ms. length m \<le> CHUNK_SIZE"
    "concat (map fst ?ms) = concat (take n (file_chunks CHUNK_SIZE xs))"
    using file_chunks_fit [of CHUNK_SIZE S xs] assms(6)
    by (auto simp: file_chunks_props CHUNK_SIZE_def take_map [symmetric] dest: in_set_takeD)
  from download_run [OF assms(1,3) sync assms(4,5) ms(1,2) assms(8) [unfolded sealed_chunks_def push [symmetric]]]
  obtain w' where w': "decrypt_and_read_from_server S CA h password RA w = ret ((0, RA\<lparr>ra_key := key\<rparr>), w')"
    "only_rx (w\<lparr>disk := write_out h (concat (take n (file_chunks CHUNK_SIZE xs))) (disk w)\<rparr>) w'"
    unfolding ms(3) by blast
  from only_rx_fields(6) [OF w'(2)] w'(1) show ?thesis by simp
qed

theorem truncation_accepted_witness:
  "\<exists>key w'. decrypt_and_read_from_server toy_sodium toy_CA (Some [str ''g'']) (str ''pw'')
       (fst (Receiver_Agent toy_sodium idle_world)) (idle_world\<lparr>disk := toy_local, rx :=
         [Seg (download_bytes toy_sodium [8] (replicate 8 0) (sealed_header toy_sodium [] key) (replicate 16 1)
            (take 1 (sealed_chunks toy_sodium [] key (replicate CHUNK_SIZE 5 @ [9, 9]))))]\<rparr>) =
       ret ((0, (fst (Receiver_Agent toy_sodium idle_world))\<lparr>ra_key := key\<rparr>), w') \<and>
     disk w' = write_out (Some [str ''g'']) (replicate CHUNK_SIZE 5) toy_local"
proof -
  obtain key where k: "pwhash toy_sodium (box_SEEDBYTES toy_sodium) (str ''pw'') (replicate 16 1) = Some key"
    using toy_key .
  let ?xs = "replicate CHUNK_SIZE 5 @ [9, 9 :: byte]"
  let ?b = "download_bytes toy_sodium [8] (replicate 8 0) (sealed_header toy_sodium [] key) (replicate 16 1)
            (take 1 (sealed_chunks toy_sodium [] key ?xs))"
  let ?w = "idle_world\<lparr>disk := toy_local, rx := [Seg ?b]\<rparr>"
  have "?b \<noteq> []" by (simp add: download_bytes_def)
  then have f: "feeds ?w (download_bytes toy_sodium (client_rx toy_CA) (replicate 8 0) (sealed_header toy_sodium [] key)
      (replicate 16 1) (take 1 (sealed_chunks toy_sodium [] key ?xs)) @ [])"
    by (simp add: feeds_def toy_CA_def)
  have c: "file_chunks CHUNK_SIZE ?xs = [replicate CHUNK_SIZE 5, [9, 9]]"
    using file_chunks_concat [of CHUNK_SIZE "[replicate CHUNK_SIZE 5]" "[9, 9]"] by (simp add: CHUNK_SIZE_def)
  have n: "0 < (1 :: nat)" "1 \<le> length (file_chunks CHUNK_SIZE ?xs)" by (simp_all add: c)
  from truncation_accepted [OF toy_session toy_secretstream _ _ k n f, where h = "Some [str ''g'']" and
      RA = "fst (Receiver_Agent toy_sodium idle_world)"]
  show ?thesis by (intro exI [of _ key]) (auto simp: c)
qed



end
