(* ===== verification/Key_Exchange.thy ===== *)
theory Key_Exchange
  imports Session_Enc
begin

text \<open>
  The key exchange at the start of a connection: \<open>server_crypt_gen\<close> and
  \<open>client_crypt_gen\<close> (\<open>src/encryption_utils/encryption_utils.cpp\<close>). Both sides send their
  public key before they read the other's. The theorems: two honest sides end with the same
  two session keys, crossed; and what each return code says about the peer's key.
\<close>

section \<open>The two sides\<close>

text \<open>
  The return code, the own key pair and the two session key buffers. \<open>crypto_kx_keypair\<close>
  draws as many random bytes as a key has.
\<close>

type_synonym crypt_gen = "int \<times> byte list \<times> byte list \<times> byte list \<times> byte list"

definition server_crypt_gen ::
    "'st sodium \<Rightarrow> byte list \<Rightarrow> byte list \<Rightarrow> world \<Rightarrow> (crypt_gen \<times> world) run" where
  "server_crypt_gen S rxbuf txbuf w =
     (let (seed, w) = randombytes_buf (kx_PUBLICKEYBYTES S) w;
          (server_pk, server_sk) = kx_keypair S seed;
          w = snd (send server_pk w) in
      andthen (recv_fully (kx_PUBLICKEYBYTES S) w) (\<lambda>((ok, client_pk), w).
        if \<not> ok then ret ((2, server_pk, server_sk, rxbuf, txbuf), w)
        else (case kx_server_session_keys S server_pk server_sk client_pk of
            None \<Rightarrow> ret ((1, server_pk, server_sk, kx_fail_buf S rxbuf, kx_fail_buf S txbuf), w)
          | Some (rxkey, txkey) \<Rightarrow> ret ((0, server_pk, server_sk, rxkey, txkey), w))))"

definition client_crypt_gen ::
    "'st sodium \<Rightarrow> byte list \<Rightarrow> byte list \<Rightarrow> world \<Rightarrow> (crypt_gen \<times> world) run" where
  "client_crypt_gen S rxbuf txbuf w =
     (let (seed, w) = randombytes_buf (kx_PUBLICKEYBYTES S) w;
          (client_pk, client_sk) = kx_keypair S seed;
          w = snd (send client_pk w) in
      andthen (recv_fully (kx_PUBLICKEYBYTES S) w) (\<lambda>((ok, server_pk), w).
        if \<not> ok then ret ((2, client_pk, client_sk, rxbuf, txbuf), w)
        else (case kx_client_session_keys S client_pk client_sk server_pk of
            None \<Rightarrow> ret ((1, client_pk, client_sk, kx_fail_buf S rxbuf, kx_fail_buf S txbuf), w)
          | Some (rxkey, txkey) \<Rightarrow> ret ((0, client_pk, client_sk, rxkey, txkey), w))))"

text \<open>Neither side touches the disk.\<close>

lemma disk_send [simp]: "disk (snd (send bs w)) = disk w"
  by (simp add: send_def split: list.splits tx_event.splits)

lemma server_crypt_gen_disk:
  assumes "server_crypt_gen S rb tb w = ret (x, w')"
  shows "disk w' = disk w"
proof -
  let ?w = "snd (send (fst (kx_keypair S (fst (randombytes_buf (kx_PUBLICKEYBYTES S) w))))
    (snd (randombytes_buf (kx_PUBLICKEYBYTES S) w)))"
  from assms obtain r where "recv_fully (kx_PUBLICKEYBYTES S) ?w = ret (r, w')"
    by (auto simp: server_crypt_gen_def Let_def split_beta andthen_eq_ret_iff split: if_splits option.splits)
  with recv_fullyD(3) [of _ ?w] have "disk w' = disk ?w" using only_rx_fields(6) by (cases r) blast
  then show ?thesis by (simp add: randombytes_buf_def)
qed

section \<open>Agreement\<close>

text \<open>The key pair a side is about to draw.\<close>

definition own_keys :: "'st sodium \<Rightarrow> world \<Rightarrow> byte list \<times> byte list" where
  "own_keys S w = kx_keypair S (fst (randombytes_buf (kx_PUBLICKEYBYTES S) w))"

text \<open>What both sides have done before they look at the other's key.\<close>

definition announced :: "'st sodium \<Rightarrow> world \<Rightarrow> world" where
  "announced S w = w\<lparr>rnd_pos := rnd_pos w + kx_PUBLICKEYBYTES S, tx := tx w @ fst (own_keys S w)\<rparr>"

lemma crypt_gen_announced:
  assumes "tx_plan w = []"
  shows "server_crypt_gen S rxbuf txbuf w =
      andthen (recv_fully (kx_PUBLICKEYBYTES S) (announced S w)) (\<lambda>((ok, client_pk), w').
        if \<not> ok then ret ((2, fst (own_keys S w), snd (own_keys S w), rxbuf, txbuf), w')
        else (case kx_server_session_keys S (fst (own_keys S w)) (snd (own_keys S w)) client_pk of
            None \<Rightarrow> ret ((1, fst (own_keys S w), snd (own_keys S w), kx_fail_buf S rxbuf, kx_fail_buf S txbuf), w')
          | Some (rxkey, txkey) \<Rightarrow> ret ((0, fst (own_keys S w), snd (own_keys S w), rxkey, txkey), w')))" (is ?server)
      "client_crypt_gen S rxbuf txbuf w =
      andthen (recv_fully (kx_PUBLICKEYBYTES S) (announced S w)) (\<lambda>((ok, server_pk), w').
        if \<not> ok then ret ((2, fst (own_keys S w), snd (own_keys S w), rxbuf, txbuf), w')
        else (case kx_client_session_keys S (fst (own_keys S w)) (snd (own_keys S w)) server_pk of
            None \<Rightarrow> ret ((1, fst (own_keys S w), snd (own_keys S w), kx_fail_buf S rxbuf, kx_fail_buf S txbuf), w')
          | Some (rxkey, txkey) \<Rightarrow> ret ((0, fst (own_keys S w), snd (own_keys S w), rxkey, txkey), w')))" (is ?client)
proof -
  let ?seed = "fst (randombytes_buf (kx_PUBLICKEYBYTES S) w)"
  obtain pk sk where k: "kx_keypair S ?seed = (pk, sk)" by fastforce
  then have own: "own_keys S w = (pk, sk)" by (simp add: own_keys_def)
  have r: "randombytes_buf (kx_PUBLICKEYBYTES S) w = (?seed, w\<lparr>rnd_pos := rnd_pos w + kx_PUBLICKEYBYTES S\<rparr>)"
    by (simp add: randombytes_buf_def)
  have "snd (send pk (w\<lparr>rnd_pos := rnd_pos w + kx_PUBLICKEYBYTES S\<rparr>)) = announced S w"
    using assms by (simp add: send_all_accepted announced_def own)
  then show ?server ?client
    unfolding server_crypt_gen_def client_crypt_gen_def Let_def own fst_conv snd_conv
    by (subst r, simp add: k)+
qed

text \<open>
  C22. Key agreement: when each side receives the public key the other sends, both return 0,
  the server's receiving key is the client's sending key and the other way round, and what
  follows on the connection is left unread.
\<close>

theorem keys_agree:
  assumes "kx_laws S" "tx_plan w = []" "tx_plan v = []"
    and "feeds w (fst (own_keys S v) @ rest)" "feeds v (fst (own_keys S w) @ rest')"
  shows "\<exists>k k' w' v'.
     server_crypt_gen S rb tb w = ret ((0, fst (own_keys S w), snd (own_keys S w), k, k'), w') \<and>
     client_crypt_gen S rb' tb' v = ret ((0, fst (own_keys S v), snd (own_keys S v), k', k), v') \<and>
     length k = kx_SESSIONKEYBYTES S \<and> length k' = kx_SESSIONKEYBYTES S \<and>
     feeds w' rest \<and> feeds v' rest' \<and>
     only_rx (announced S w) w' \<and> only_rx (announced S v) v'"
proof -
  have len: "length (fst (own_keys S u)) = kx_PUBLICKEYBYTES S" for u
    using assms(1) by (simp add: kx_laws_def own_keys_def)
  have fw: "feeds (announced S w) (fst (own_keys S v) @ rest)"
    and fv: "feeds (announced S v) (fst (own_keys S w) @ rest')"
    using assms(4,5) by (simp_all add: feeds_def announced_def)
  obtain w' where w': "recv_fully (kx_PUBLICKEYBYTES S) (announced S w) = ret ((True, fst (own_keys S v)), w')"
    "feeds w' rest" "only_rx (announced S w) w'"
    using readsE [OF reads_recv_fully [OF len] fw] .
  obtain v' where v': "recv_fully (kx_PUBLICKEYBYTES S) (announced S v) = ret ((True, fst (own_keys S w)), v')"
    "feeds v' rest'" "only_rx (announced S v) v'"
    using readsE [OF reads_recv_fully [OF len] fv] .
  obtain k' k where k: "kx_client_session_keys S (fst (own_keys S v)) (snd (own_keys S v)) (fst (own_keys S w)) = Some (k', k)"
    "kx_server_session_keys S (fst (own_keys S w)) (snd (own_keys S w)) (fst (own_keys S v)) = Some (k, k')"
    "length k' = kx_SESSIONKEYBYTES S" "length k = kx_SESSIONKEYBYTES S"
    using assms(1) unfolding kx_laws_def own_keys_def by metis
  show ?thesis
    using w' v' k by (simp add: crypt_gen_announced assms(2,3))
qed

theorem keys_agree_witness:
  "\<exists>k k' w' v'.
     server_crypt_gen toy_sodium [] [] (idle_world\<lparr>rx := [Seg (replicate 32 1)]\<rparr>) =
       ret ((0, replicate 32 0, replicate 32 0, k, k'), w') \<and>
     client_crypt_gen toy_sodium [] [] (idle_world\<lparr>rnd := (\<lambda>_. 1), rx := [Seg (replicate 32 0)]\<rparr>) =
       ret ((0, replicate 32 1, replicate 32 1, k', k), v')"
proof -
  let ?w = "idle_world\<lparr>rx := [Seg (replicate 32 1)]\<rparr>"
  let ?v = "idle_world\<lparr>rnd := (\<lambda>_. 1), rx := [Seg (replicate 32 0)]\<rparr>"
  have k: "own_keys toy_sodium ?w = (replicate 32 0, replicate 32 0)"
    "own_keys toy_sodium ?v = (replicate 32 1, replicate 32 1)"
    by (simp_all add: own_keys_def randombytes_buf_def idle_world_def map_replicate_trivial toy_sodium_def)
  have p: "tx_plan ?w = []" "tx_plan ?v = []" by (simp_all add: idle_world_def)
  have "feeds ?w (fst (own_keys toy_sodium ?v) @ [])" "feeds ?v (fst (own_keys toy_sodium ?w) @ [])"
    by (simp_all add: feeds_def k)
  from keys_agree [OF toy_kx p this, where rb = "[]" and tb = "[]" and rb' = "[]" and tb' = "[]"]
  show ?thesis by (auto simp: k)
qed

lemma rx_send [simp]: "rx (snd (send bs w)) = rx w" "rx (snd (randombytes_buf n w)) = rx w"
  by (simp_all add: send_def randombytes_buf_def split: list.splits tx_event.splits)

text \<open>
  C32. What the return code of the server's side says, on any input and whatever becomes of the
  key it sends. The own pair is always the one drawn. Code 2: fewer bytes than a key has were
  taken from the input, and the key buffers are as they were; input that holds fewer bytes
  always gives this code. Code 1: a whole key was taken and the library refused it. Code 0: a
  whole key was taken and the session keys are those the library derives from it and the own
  pair. There is no other code, and nothing beyond the key is taken.
\<close>

theorem crypt_gen_result:
  assumes "server_crypt_gen S rb tb w = ret ((rc, pk, sk, k, k'), w')"
  shows "(pk, sk) = own_keys S w \<and> rc \<in> {0, 1, 2} \<and>
     (\<exists>peer. rx_data (rx w) = peer @ rx_data (rx w') \<and>
        (if rc = 2 then length peer < kx_PUBLICKEYBYTES S \<and> k = rb \<and> k' = tb
         else length peer = kx_PUBLICKEYBYTES S \<and>
           kx_server_session_keys S pk sk peer = (if rc = 0 then Some (k, k') else None))) \<and>
     (length (rx_data (rx w)) < kx_PUBLICKEYBYTES S \<longrightarrow> rc = 2)"
proof -
  let ?u = "snd (send (fst (own_keys S w)) (snd (randombytes_buf (kx_PUBLICKEYBYTES S) w)))"
  from assms obtain ok peer where r: "recv_fully (kx_PUBLICKEYBYTES S) ?u = ret ((ok, peer), w')"
    and c: "(\<not> ok \<and> rc = 2 \<and> k = rb \<and> k' = tb) \<or>
      (ok \<and> rc = 1 \<and> kx_server_session_keys S pk sk peer = None) \<or>
      (ok \<and> rc = 0 \<and> kx_server_session_keys S pk sk peer = Some (k, k'))"
    and own: "(pk, sk) = own_keys S w"
    by (auto simp: server_crypt_gen_def own_keys_def Let_def split_beta andthen_eq_ret_iff split: if_splits option.splits)
  have "read_exactly (kx_PUBLICKEYBYTES S) [] ?u ok peer w'"
    using recv_loop_integrity r by (simp add: recv_fully_def)
  then have d: "rx_data (rx w) = peer @ rx_data (rx w')" "ok \<longleftrightarrow> length peer = kx_PUBLICKEYBYTES S"
    "length peer \<le> kx_PUBLICKEYBYTES S"
    by (auto simp: read_exactly_def)
  then have "length (rx_data (rx w)) < kx_PUBLICKEYBYTES S \<Longrightarrow> \<not> ok" by auto
  with c d own show ?thesis by (auto simp: prod_eq_iff)
qed

text \<open>A library that refuses every key, and a peer that sends one; and a peer that sends nothing.\<close>

theorem crypt_gen_result_witness:
  "(\<exists>pk sk k k' w'. server_crypt_gen (toy_sodium\<lparr>kx_server_session_keys := \<lambda>_ _ _. None\<rparr>) [5] [6]
        (idle_world\<lparr>rx := [Seg (replicate 40 1)]\<rparr>) = ret ((1, pk, sk, k, k'), w') \<and> rx_data (rx w') = replicate 8 1) \<and>
   (\<exists>rc pk sk k k' w'. server_crypt_gen toy_sodium [5] [6] (idle_world\<lparr>rx_last := Peer_Closed\<rparr>) =
       ret ((rc, pk, sk, k, k'), w') \<and> rc = 2 \<and> k = [5] \<and> k' = [6])"
proof
  let ?w = "idle_world\<lparr>rx_last := Peer_Closed\<rparr>"
  have p: "tx_plan ?w = []" by (simp add: idle_world_def)
  have "recv_fully 32 (announced toy_sodium ?w) = ret ((False, []), announced toy_sodium ?w)"
    unfolding recv_fully_def by (subst recv_loop.simps) (simp add: recv_def announced_def idle_world_def EINTR_def)
  then obtain rc pk sk k k' w' where run: "server_crypt_gen toy_sodium [5] [6] ?w = ret ((rc, pk, sk, k, k'), w')"
    by (simp add: crypt_gen_announced(1) [OF p])
  from crypt_gen_result [OF run] have "rc = 2 \<and> k = [5] \<and> k' = [6]" by (simp add: idle_world_def)
  with run show "\<exists>rc pk sk k k' w'. server_crypt_gen toy_sodium [5] [6] ?w = ret ((rc, pk, sk, k, k'), w') \<and>
      rc = 2 \<and> k = [5] \<and> k' = [6]" by blast
next
  let ?S = "toy_sodium\<lparr>kx_server_session_keys := \<lambda>_ _ _. None\<rparr>" and ?w = "idle_world\<lparr>rx := [Seg (replicate 40 1)]\<rparr>"
  have p: "tx_plan ?w = []" by (simp add: idle_world_def)
  have n: "kx_PUBLICKEYBYTES ?S = 32" by simp
  have "feeds (announced ?S ?w) (replicate 32 1 @ replicate 8 1)"
    by (simp add: feeds_def announced_def replicate_add [symmetric])
  then obtain v where "recv_fully 32 (announced ?S ?w) = ret ((True, replicate 32 1), v)"
    using readsE [OF reads_recv_fully [of "replicate 32 1" 32]] by (metis length_replicate)
  then obtain rc pk sk k k' w' where run: "server_crypt_gen ?S [5] [6] ?w = ret ((rc, pk, sk, k, k'), w')" and rc: "rc = 1"
    by (simp add: crypt_gen_announced(1) [OF p])
  from crypt_gen_result [OF run] rc obtain peer where "replicate 40 1 = peer @ rx_data (rx w')" "length peer = 32"
    by (auto simp: n)
  then have "rx_data (rx w') = drop 32 (replicate 40 1)" by (metis append_eq_conv_conj)
  with run rc show "\<exists>pk sk k k' w'. server_crypt_gen ?S [5] [6] ?w = ret ((1, pk, sk, k, k'), w') \<and>
      rx_data (rx w') = replicate 8 1" by auto
qed

end
