(* ===== verification/Client.thy ===== *)
theory Client
  imports Client_Agents Key_Exchange
begin

text \<open>
  The client program (\<open>src/client/client.cpp\<close>): reading from the terminal, credentials, the
  four requests, the session loop and \<open>main\<close>. Prompts and log output are left
  out; what a listing or a deletion tells the user is kept in \<open>cout\<close>. Setting
  up the socket (\<open>inet_pton\<close>, \<open>bind\<close>) is a parameter of \<open>main\<close>.
\<close>

unbundle bit_operations_syntax

section \<open>Standard input\<close>

definition is_space :: "byte \<Rightarrow> bool" where
  "is_space b \<longleftrightarrow> b = 32 \<or> (9 \<le> b \<and> b \<le> 13)"

definition is_digit :: "byte \<Rightarrow> bool" where
  "is_digit b \<longleftrightarrow> 48 \<le> b \<and> b \<le> 57"

text \<open>
  \<open>std::cin >> x\<close>: whether the stream is good afterwards, the new value of \<open>x\<close>, and the
  environment. At the end of the input, or on a stream that has already failed, the variable
  keeps its value.
\<close>

definition cin_ready :: "world \<Rightarrow> bool \<times> world" where
  "cin_ready w =
     (if cin_fail w then (False, w)
      else (let w = w\<lparr>cin_rest := dropWhile is_space (cin_rest w)\<rparr> in
            if cin_rest w = [] then (False, w\<lparr>cin_fail := True\<rparr>) else (True, w)))"

definition cin_string :: "cpp_string \<Rightarrow> world \<Rightarrow> bool \<times> cpp_string \<times> world" where
  "cin_string old w =
     (let (good, w) = cin_ready w in
      if good then (True, takeWhile (\<lambda>b. \<not> is_space b) (cin_rest w),
                    w\<lparr>cin_rest := dropWhile (\<lambda>b. \<not> is_space b) (cin_rest w)\<rparr>)
      else (False, old, w))"

definition cin_char :: "byte \<Rightarrow> world \<Rightarrow> bool \<times> byte \<times> world" where
  "cin_char old w =
     (let (good, w) = cin_ready w in
      if good then (True, hd (cin_rest w), w\<lparr>cin_rest := tl (cin_rest w)\<rparr>) else (False, old, w))"

definition dec_value :: "byte list \<Rightarrow> int" where
  "dec_value ds = foldl (\<lambda>v d. 10 * v + (int (unat d) - 48)) 0 ds"

text \<open>
  Extraction of an \<open>int\<close>: an optional sign and digits; without a digit the value becomes 0
  and the stream fails, outside the range it becomes the nearest bound and the stream fails.
\<close>

definition cin_int :: "i32 \<Rightarrow> world \<Rightarrow> bool \<times> i32 \<times> world" where
  "cin_int old w =
     (let (good, w) = cin_ready w in
      if \<not> good then (False, old, w)
      else
        (let sign = hd (cin_rest w);
             rest = (if sign = 43 \<or> sign = 45 then tl (cin_rest w) else cin_rest w);
             ds = takeWhile is_digit rest;
             w = w\<lparr>cin_rest := dropWhile is_digit rest\<rparr>;
             v = (if sign = 45 then - dec_value ds else dec_value ds) in
         if ds = [] then (False, 0, w\<lparr>cin_fail := True\<rparr>)
         else if v < - (2 ^ 31) then (False, - (2 ^ 31), w\<lparr>cin_fail := True\<rparr>)
         else if 2 ^ 31 - 1 < v then (False, 2 ^ 31 - 1, w\<lparr>cin_fail := True\<rparr>)
         else (True, word_of_int v, w)))"

text \<open>\<open>cin.clear(); cin.ignore()\<close>\<close>

definition cin_retry :: "world \<Rightarrow> world" where
  "cin_retry w = w\<lparr>cin_fail := False, cin_rest := tl (cin_rest w)\<rparr>"

text \<open>The template \<open>get_stuff\<close> at its two types.\<close>

partial_function (option) get_stuff_string :: "cpp_string \<Rightarrow> world \<Rightarrow> (cpp_string \<times> world) run" where
  "get_stuff_string stuff w =
     (let (good, stuff, w) = cin_string stuff w in
      if good then ret (stuff, w) else get_stuff_string stuff (cin_retry w))"

partial_function (option) get_stuff_int :: "i32 \<Rightarrow> world \<Rightarrow> (i32 \<times> world) run" where
  "get_stuff_int stuff w =
     (let (good, stuff, w) = cin_int stuff w in
      if good then ret (stuff, w) else get_stuff_int stuff (cin_retry w))"

section \<open>The terminal's echo\<close>

text \<open>The local mode flags of the terminal, of which one bit is the echo.\<close>

definition ECHO :: "32 word" where "ECHO = 8"

definition disable_echo :: "world \<Rightarrow> world" where
  "disable_echo w = w\<lparr>c_lflag := c_lflag w AND NOT ECHO\<rparr>"

definition enable_echo :: "world \<Rightarrow> world" where
  "enable_echo w = w\<lparr>c_lflag := c_lflag w OR ECHO\<rparr>"

lemma echo_restored [simp]: "x AND NOT ECHO OR ECHO = x OR ECHO"
  by (rule bit_eqI) (auto simp: bit_simps)

text \<open>While the password is typed nothing is echoed; afterwards the terminal echoes again.\<close>

lemma echo_flags: "c_lflag (disable_echo w) AND ECHO = 0" "c_lflag (enable_echo w) AND ECHO = ECHO"
  "c_lflag (enable_echo (disable_echo w)) = c_lflag w OR ECHO"
  by (auto intro!: bit_eqI simp: disable_echo_def enable_echo_def bit_simps)

section \<open>Credentials and intentions\<close>

text \<open>
  The return code, the user name (wiped), the password and the caller's nonce. The server's
  answer is read with a single \<open>recv\<close> into a variable that holds -1.
\<close>

definition send_credentials ::
    "'st sodium \<Rightarrow> byte list \<Rightarrow> byte list \<Rightarrow> world \<Rightarrow>
     ((int \<times> cpp_string \<times> cpp_string \<times> byte list) \<times> world) run" where
  "send_credentials S txkey nonce w =
     andthen (get_stuff_string [] w) (\<lambda>(username, w).
     andthen (get_stuff_string [] (disable_echo w)) (\<lambda>(password, w).
     andthen (session_send S (username @ [0]) txkey nonce (enable_echo w)) (\<lambda>(nonce, w).
     andthen (session_send S (password @ [0]) txkey nonce w) (\<lambda>(nonce, w).
     andthen (recv 4 w) (\<lambda>((_, bs), w).
       let auth_stat = i32_of_bytes (write_into (i32_bytes (- 1)) bs) in
       if auth_stat = - 1 then fails (Exit_Process (- 1))
       else ret ((0, replicate (length username) 0, password, nonce), w))))))"

definition send_intention ::
    "'st sodium \<Rightarrow> byte list \<Rightarrow> i32 \<Rightarrow> byte list \<Rightarrow> world \<Rightarrow> ((int \<times> byte list) \<times> world) run" where
  "send_intention S txkey intent nonce w =
     andthen (session_send S (i32_bytes intent) txkey nonce w) (\<lambda>(nonce, w). ret ((0, nonce), w))"

section \<open>The four requests\<close>

text \<open>
  Download. The extraction of the name is not checked; \<open>resize\<close> to a length that wrapped
  around throws. The result of the transfer is not looked at.
\<close>

definition RFFS_Handler ::
    "'st sodium \<Rightarrow> comms_agent \<Rightarrow> receiver_agent \<Rightarrow> cpp_string \<Rightarrow> world \<Rightarrow> ((int \<times> receiver_agent) \<times> world) run" where
  "RFFS_Handler S CA RA password w =
     (let (_, file_name, w) = cin_string [] w in
      andthen (session_send S (file_name @ [0]) (get_client_tx CA) (get_nonce RA) w) (\<lambda>(nonce, w).
      let RA = RA\<lparr>ra_nonce := nonce\<rparr> in
      if length file_name < 4 then fails Uncaught_Exception
      else
        (let file_name = take (length file_name - 4) file_name;
             (h, d) = open_out (disk w) (c_path file_name) in
         andthen (decrypt_and_read_from_server S CA h password RA (w\<lparr>disk := d\<rparr>)) (\<lambda>((_, RA), w).
         ret ((0, RA), w)))))"

definition WTFS_Handler ::
    "'st sodium \<Rightarrow> comms_agent \<Rightarrow> sender_agent \<Rightarrow> cpp_string \<Rightarrow> world \<Rightarrow> ((int \<times> sender_agent) \<times> world) run" where
  "WTFS_Handler S CA SA password w =
     andthen (get_stuff_string [] w) (\<lambda>(file_name, w).
     andthen (encrypt_and_send_to_server S CA file_name password SA w) (\<lambda>((rc, SA), w).
     ret ((if rc \<noteq> 0 then 1 else 0, SA), w)))"

text \<open>The loop of a listing: the return code, and the names appended to what the user sees.\<close>

fun list_names :: "'st sodium \<Rightarrow> comms_agent \<Rightarrow> nat \<Rightarrow> world \<Rightarrow> (int \<times> world) run" where
  "list_names S CA 0 w = ret (0, w)"
| "list_names S CA (Suc n) w =
     andthen (SessionEncWrapper_reader S w) (\<lambda>(name_wrap, w).
     if is_corrupted name_wrap then ret (1, w)
     else
       (let (rc, _, filename, _) = unwrap S name_wrap (get_client_rx CA) (MAX_FILE_NAME_LENGTH - 1)
              (replicate MAX_FILE_NAME_LENGTH 0) (u64_of_bytes (uninit 8 w)) in
        if rc \<noteq> 0 then ret (1, w)
        else (case c_str filename of
            None \<Rightarrow> fails Out_Of_Bounds
          | Some name \<Rightarrow> list_names S CA n (w\<lparr>cout := cout w @ [name]\<rparr>))))"

definition LFFS_Handler :: "'st sodium \<Rightarrow> comms_agent \<Rightarrow> world \<Rightarrow> (int \<times> world) run" where
  "LFFS_Handler S CA w =
     andthen (SessionEncWrapper_reader S w) (\<lambda>(count_wrap, w).
     if is_corrupted count_wrap then ret (1, w)
     else
       (let (rc, _, cb, _) = unwrap S count_wrap (get_client_rx CA) 4 (uninit 4 w) (u64_of_bytes (uninit 8 w)) in
        if rc \<noteq> 0 then ret (1, w) else list_names S CA (nat (sint (i32_of_bytes cb))) w))"

definition deleted_msg :: cpp_string where "deleted_msg = str ''deleted successfully''"

definition not_deleted_msg :: cpp_string where
  "not_deleted_msg = str ''failed to delete (file may not exist)''"

definition DFFS_Handler :: "'st sodium \<Rightarrow> comms_agent \<Rightarrow> world \<Rightarrow> (int \<times> world) run" where
  "DFFS_Handler S CA w =
     (let (_, file_name, w) = cin_string [] w;
          (nonce, w) = randombytes_buf (aead_NPUBBYTES S) w in
      andthen (session_send S (file_name @ [0]) (get_client_tx CA) nonce w) (\<lambda>(_, w).
      andthen (SessionEncWrapper_reader S w) (\<lambda>(result_wrap, w).
      if is_corrupted result_wrap then ret (1, w)
      else
        (let (rc, _, rb, _) = unwrap S result_wrap (get_client_rx CA) 4 (uninit 4 w) (u64_of_bytes (uninit 8 w)) in
         if rc \<noteq> 0 then ret (1, w)
         else if i32_of_bytes rb = ACK_SUC then ret (0, w\<lparr>cout := cout w @ [deleted_msg]\<rparr>)
         else ret (0, w\<lparr>cout := cout w @ [not_deleted_msg]\<rparr>)))))"

section \<open>The session\<close>

text \<open>
  One round of the loop of \<open>authed_comms\<close>: \<open>Inl\<close> returns from the function, \<open>Inr\<close> gives
  the nonce and the user's answer to whether there is another action (no, when the round ends
  in \<open>break\<close>).
\<close>

definition comms_round ::
    "'st sodium \<Rightarrow> comms_agent \<Rightarrow> cpp_string \<Rightarrow> byte list \<Rightarrow> byte \<Rightarrow> world \<Rightarrow>
     ((int + byte list \<times> byte) \<times> world) run" where
  "comms_round S CA password nonce perform_next w =
     andthen (notify_server_of_action S CA NEW_ACTION nonce w) (\<lambda>((rc, nonce), w).
     if rc \<noteq> 0 then ret (Inr (nonce, 110), w) else
     andthen (get_stuff_int CONFUSION w) (\<lambda>(intention, w).
     let (SA, w) = Sender_Agent S password w; (RA, w) = Receiver_Agent S w in
     if intention = CONFUSION then ret (Inl (- 1), w)
     else
       andthen
         (if intention = READ_FROM_FILESYSTEM then
            andthen (send_intention S (get_client_tx CA) intention nonce w) (\<lambda>((_, nonce), w).
            andthen (RFFS_Handler S CA RA password w) (\<lambda>(_, w). ret (nonce, w)))
          else if intention = WRITE_TO_FILESYSTEM then
            andthen (send_intention S (get_client_tx CA) intention nonce w) (\<lambda>((_, nonce), w).
            andthen (WTFS_Handler S CA SA password w) (\<lambda>(_, w). ret (nonce, w)))
          else if intention = LIST_FILES then
            andthen (send_intention S (get_client_tx CA) intention nonce w) (\<lambda>((_, nonce), w).
            andthen (LFFS_Handler S CA w) (\<lambda>(_, w). ret (nonce, w)))
          else if intention = DELETE_FILE then
            andthen (send_intention S (get_client_tx CA) intention nonce w) (\<lambda>((_, nonce), w).
            andthen (DFFS_Handler S CA w) (\<lambda>(_, w). ret (nonce, w)))
          else ret (nonce, w)) (\<lambda>(nonce, w).
       let (_, perform_next, w) = cin_char perform_next w in
       ret (Inr (nonce, perform_next), w))))"

text \<open>The loop and what follows it: the return code and the password, which is wiped at the end.\<close>

partial_function (option) comms_loop ::
    "'st sodium \<Rightarrow> comms_agent \<Rightarrow> cpp_string \<Rightarrow> byte list \<Rightarrow> byte \<Rightarrow> world \<Rightarrow> ((int \<times> cpp_string) \<times> world) run" where
  "comms_loop S CA password nonce perform_next w =
     andthen (comms_round S CA password nonce perform_next w) (\<lambda>(r, w).
       case r of
         Inl rc \<Rightarrow> ret ((rc, password), w)
       | Inr (nonce, perform_next) \<Rightarrow>
           if perform_next = 121 \<or> perform_next = 89 then comms_loop S CA password nonce perform_next w
           else andthen (notify_server_of_action S CA NO_ACTION nonce w) (\<lambda>(_, w).
             ret ((0, replicate (length password) 0), w)))"

definition authed_comms ::
    "'st sodium \<Rightarrow> int \<Rightarrow> byte list \<Rightarrow> byte list \<Rightarrow> cpp_string \<Rightarrow> byte list \<Rightarrow> world \<Rightarrow> ((int \<times> cpp_string) \<times> world) run" where
  "authed_comms S sock txkey rxkey password nonce w =
     (let (CA, _, _) = Comms_Agent S txkey rxkey sock in comms_loop S CA password nonce 110 w)"

text \<open>
  \<open>main\<close>: whether the server address parses; for the optional source address whether it
  parses and whether \<open>bind\<close> succeeds. The result of \<open>connect\<close> is not looked at.
\<close>

definition client_main ::
    "'st sodium \<Rightarrow> int \<Rightarrow> bool \<Rightarrow> (bool \<times> bool) option \<Rightarrow> world \<Rightarrow> (int \<times> world) run" where
  "client_main S sock server_ip_ok bind_arg w =
     (if \<not> server_ip_ok then ret (1, w)
      else if bind_arg \<noteq> None \<and> (\<not> fst (the bind_arg) \<or> \<not> snd (the bind_arg)) then ret (1, w)
      else
        andthen (client_crypt_gen S (uninit (kx_SESSIONKEYBYTES S) w) (uninit (kx_SESSIONKEYBYTES S) w) w)
          (\<lambda>((rc, _, _, rxkey, txkey), w).
        if rc \<noteq> 0 then ret (1, w)
        else
          (let (nonce, w) = randombytes_buf (aead_NPUBBYTES S) w in
           andthen (send_credentials S txkey nonce w) (\<lambda>((rc, _, password, nonce), w).
           if rc \<noteq> 0 then ret (2, w)
           else andthen (authed_comms S sock txkey rxkey password nonce w) (\<lambda>(_, w). ret (0, w))))))"

end
