(* ===== verification/FS_Operator.thy ===== *)
theory FS_Operator
  imports File_Transfer
begin

text \<open>
  The server's handlers for an authenticated connection: the class \<open>FS_Operator\<close>
  (\<open>include/read_write_handlers.h\<close>, \<open>src/server/read_write_handlers.cpp\<close>). Every handler is
  modelled whole, with its error returns, over the connection's environment; the writer thread
  of the upload handler is scheduled eagerly (theory \<open>Two_Slot_Buffer\<close> shows that the
  schedule does not matter). The theorems: an upload stores exactly the bytes sent, a download
  sends exactly the bytes stored, every handler stays inside the user's directory for plain
  names, and the upload loop ends on every connection that does not stall.
\<close>

section \<open>The operator\<close>

record fs_operator =
  op_sock :: int
  user_dir :: cpp_string
  server_rx :: "byte list"
  server_tx :: "byte list"
  op_nonce :: "byte list"

definition ext :: cpp_string where "ext = str ''.enc''"

definition base_dir :: cpp_string where "base_dir = str ''MEF_S/''"

text \<open>
  The constructor gives the operator and the caller's two key arrays, zeroed;
  \<open>create_directories\<close> may throw.
\<close>

definition FS_Operator ::
    "'st sodium \<Rightarrow> int \<Rightarrow> cpp_string \<Rightarrow> byte list \<Rightarrow> byte list \<Rightarrow> world \<Rightarrow>
     ((fs_operator \<times> byte list \<times> byte list) \<times> world) run" where
  "FS_Operator S sock username rxkey txkey w =
     (let dir = base_dir @ username @ [slash] in
      case create_directories (disk w) dir of
        Inl e \<Rightarrow> fails Uncaught_Exception
      | Inr d \<Rightarrow>
          (let (nonce, w) = randombytes_buf (aead_NPUBBYTES S) (w\<lparr>disk := d\<rparr>) in
           ret ((\<lparr>op_sock = sock, user_dir = dir, server_rx = rxkey, server_tx = txkey,
                  op_nonce = nonce\<rparr>,
                 replicate (kx_SESSIONKEYBYTES S) 0, replicate (kx_SESSIONKEYBYTES S) 0), w)))"

definition FS_Operator_destroy :: "'st sodium \<Rightarrow> fs_operator \<Rightarrow> fs_operator" where
  "FS_Operator_destroy S op =
     op\<lparr>op_sock := - 420, user_dir := replicate (length (user_dir op)) 0,
        server_tx := replicate (kx_SESSIONKEYBYTES S) 0,
        server_rx := replicate (kx_SESSIONKEYBYTES S) 0,
        op_nonce := replicate (aead_NPUBBYTES S) 0\<rparr>"

definition fresh_nonce :: "'st sodium \<Rightarrow> fs_operator \<Rightarrow> world \<Rightarrow> fs_operator \<times> world" where
  "fresh_nonce S op w =
     (let (nonce, w) = randombytes_buf (aead_NPUBBYTES S) w in (op\<lparr>op_nonce := nonce\<rparr>, w))"

text \<open>A wrapper is constructed with the operator's key and nonce and sent.\<close>

definition op_send :: "'st sodium \<Rightarrow> byte list \<Rightarrow> fs_operator \<Rightarrow> world \<Rightarrow> (fs_operator \<times> world) run" where
  "op_send S data op w =
     andthen (session_send S data (server_tx op) (op_nonce op) w) (\<lambda>(nonce, w).
       ret (op\<lparr>op_nonce := nonce\<rparr>, w))"

section \<open>Upload\<close>

text \<open>
  \<open>init_read\<close>: the return code and the three output buffers. The length cell of the file
  name is an uninitialised local variable until \<open>unwrap\<close> succeeds; only its code 2 is
  checked.
\<close>

definition init_read ::
    "'st sodium \<Rightarrow> fs_operator \<Rightarrow> byte list \<Rightarrow> byte list \<Rightarrow> byte list \<Rightarrow> world \<Rightarrow>
     ((int \<times> byte list \<times> byte list \<times> byte list) \<times> world) run" where
  "init_read S op file_name_buf header salt w =
     (let cell = u64_of_bytes (uninit 8 w) in
      andthen (SessionEncWrapper_reader S w) (\<lambda>(confirm_wrap, w).
      let (rc, _, confirm, _) = unwrap S confirm_wrap (server_rx op) 1 [0] cell in
      if rc \<noteq> 0 then ret ((6, file_name_buf, header, salt), w)
      else if hd confirm = 0 then ret ((5, file_name_buf, header, salt), w)
      else andthen (SessionEncWrapper_reader S w) (\<lambda>(file_name_wrap, w).
        if is_corrupted file_name_wrap then ret ((9, file_name_buf, header, salt), w)
        else
          (let (rc, _, file_name_buf, len) =
                 unwrap S file_name_wrap (server_rx op) PRE_EXT_FILE_NAME_LEN file_name_buf cell in
           if rc = 2 then ret ((8, file_name_buf, header, salt), w)
           else if word_of_nat MAX_FILE_NAME_LENGTH < len + word_of_nat (length ext)
             then ret ((7, file_name_buf, header, salt), w)
           else if length file_name_buf \<le> unat len then fails Out_Of_Bounds
           else
             (let file_name_buf = file_name_buf[unat len := 0] in
              andthen (SessionEncWrapper_reader S w) (\<lambda>(header_wrap, w).
              if is_corrupted header_wrap then ret ((4, file_name_buf, header, salt), w)
              else
                (let (rc, header_wrap, header, _) =
                       unwrap S header_wrap (server_rx op) (ss_HEADERBYTES S) header cell in
                 if rc \<noteq> 0 \<and> is_corrupted header_wrap then ret ((3, file_name_buf, header, salt), w)
                 else andthen (SessionEncWrapper_reader S w) (\<lambda>(salt_wrap, w).
                   if is_corrupted salt_wrap then ret ((2, file_name_buf, header, salt), w)
                   else
                     (let (rc, _, salt, _) =
                            unwrap S salt_wrap (server_rx op) (pwhash_SALTBYTES S) salt cell in
                      if rc \<noteq> 0 then ret ((1, file_name_buf, header, salt), w)
                      else ret ((0, file_name_buf, header, salt), w))))))))))"

text \<open>
  One round of the receiving loop leaves it with a return code or goes on with the prefix and
  the slots.
\<close>

type_synonym round = "int + i32 \<times> two_slot"

definition WTFS_round ::
    "'st sodium \<Rightarrow> fs_operator \<Rightarrow> path option \<Rightarrow> i32 \<Rightarrow> two_slot \<Rightarrow> world \<Rightarrow> (round \<times> world) run" where
  "WTFS_round S op h prefix b w =
     andthen (SessionEncWrapper_reader S w) (\<lambda>(prefix_wrap, w).
       if is_corrupted prefix_wrap then join_writer h b 0 w
       else
         (let (rc, _, pb, _) =
                unwrap S prefix_wrap (server_rx op) 4 (i32_bytes prefix) (u64_of_bytes (uninit 8 w));
              prefix = i32_of_bytes pb in
          if rc \<noteq> 0 then join_writer h b 0 w
          else (case next_writable b of
              None \<Rightarrow> None
            | Some (slot, b) \<Rightarrow>
                andthen (recv_raw_blob (FILE_ENCRYPTED_CHUNK_SIZE S) w) (\<lambda>((rc, data), w).
                  let b = store_slot slot data b in
                  if rc \<noteq> 0 then join_writer h b 1 w
                  else
                    (let (written, b) = writer_turn (publish (length data) b);
                         w = w\<lparr>disk := write_out h written (disk w)\<rparr> in
                     if prefix = END_CHUNK then join_writer h b 0 w
                     else if prefix = MEAT_CHUNK then ret (Inr (prefix, b), w)
                     else join_writer h b 0 w)))))"

partial_function (option) WTFS_loop ::
    "'st sodium \<Rightarrow> fs_operator \<Rightarrow> path option \<Rightarrow> i32 \<Rightarrow> two_slot \<Rightarrow> world \<Rightarrow> (int \<times> world) run" where
  "WTFS_loop S op h prefix b w =
     andthen (WTFS_round S op h prefix b w) (\<lambda>(r, w).
       case r of Inl rc \<Rightarrow> ret (rc, w) | Inr (prefix, b) \<Rightarrow> WTFS_loop S op h prefix b w)"

definition WTFS_Handler__Server :: "'st sodium \<Rightarrow> fs_operator \<Rightarrow> world \<Rightarrow> (int \<times> world) run" where
  "WTFS_Handler__Server S op w =
     andthen (init_read S op (uninit (FILE_ENCRYPTED_CHUNK_SIZE S) w) (uninit (ss_HEADERBYTES S) w)
        (uninit (pwhash_SALTBYTES S) w) w) (\<lambda>((rc, file_name_buf, header, salt), w).
       if rc \<noteq> 0 then ret (1, w)
       else (case c_str file_name_buf of
           None \<Rightarrow> fails Out_Of_Bounds
         | Some name \<Rightarrow>
             (let file_name = user_dir op @ name @ ext;
                  (h, d) = open_out (disk w) file_name;
                  d = write_out h salt (write_out h header d) in
              WTFS_loop S op h END_CHUNK (TwoSlotBuffer (FILE_ENCRYPTED_CHUNK_SIZE S)) (w\<lparr>disk := d\<rparr>))))"

section \<open>Download\<close>

partial_function (option) RFFS_loop ::
    "'st sodium \<Rightarrow> ifstream \<Rightarrow> fs_operator \<Rightarrow> world \<Rightarrow> ((int \<times> fs_operator) \<times> world) run" where
  "RFFS_loop S file op w =
     (let (chunk, file) = read_in (FILE_ENCRYPTED_CHUNK_SIZE S) file in
      andthen (op_send S (i32_bytes (if eofbit file then END_CHUNK else MEAT_CHUNK)) op w) (\<lambda>(op, w).
        let w = snd (send_raw_blob chunk w) in
        if eofbit file then ret ((0, op), w) else RFFS_loop S file op w))"

definition RFFS_Handler__Server ::
    "'st sodium \<Rightarrow> fs_operator \<Rightarrow> world \<Rightarrow> ((int \<times> fs_operator) \<times> world) run" where
  "RFFS_Handler__Server S op w =
     (let (op, w) = fresh_nonce S op w in
      andthen (SessionEncWrapper_reader S w) (\<lambda>(wrap, w).
      if is_corrupted wrap then ret ((3, op), w)
      else
        (let (rc, _, file_name_buf, _) = unwrap S wrap (server_rx op) PRE_EXT_FILE_NAME_LEN
               (uninit MAX_FILE_NAME_LENGTH w) (u64_of_bytes (uninit 8 w)) in
         if rc \<noteq> 0 then ret ((2, op), w)
         else (case c_str file_name_buf of
             None \<Rightarrow> fails Out_Of_Bounds
           | Some name \<Rightarrow>
               (let file = open_in (disk w) (user_dir op @ name) in
                if \<not> stream_ok file then ret ((1, op), w)
                else
                  (let (hb, file) = read_in (ss_HEADERBYTES S) file in
                   andthen (op_send S (write_into (uninit (ss_HEADERBYTES S) w) hb) op w) (\<lambda>(op, w).
                   let (sb, file) = read_in (pwhash_SALTBYTES S) file in
                   andthen (op_send S (write_into (uninit (pwhash_SALTBYTES S) w) sb) op w) (\<lambda>(op, w).
                   RFFS_loop S file op w))))))))"

section \<open>List and delete\<close>

fun send_names ::
    "'st sodium \<Rightarrow> cpp_string list \<Rightarrow> fs_operator \<Rightarrow> world \<Rightarrow> (fs_operator \<times> world) run" where
  "send_names S [] op w = ret (op, w)"
| "send_names S (name # names) op w =
     (let (op, w) = fresh_nonce S op w in
      andthen (op_send S (name @ [0]) op w) (\<lambda>(op, w). send_names S names op w))"

definition LFFS_Handler__Server ::
    "'st sodium \<Rightarrow> fs_operator \<Rightarrow> world \<Rightarrow> ((int \<times> fs_operator) \<times> world) run" where
  "LFFS_Handler__Server S op w =
     (case directory_names (disk w) (user_dir op) of
        Inl e \<Rightarrow> fails Uncaught_Exception
      | Inr names \<Rightarrow>
          (let (op, w) = fresh_nonce S op w in
           andthen (op_send S (i32_bytes (word_of_nat (length names))) op w) (\<lambda>(op, w).
           andthen (send_names S names op w) (\<lambda>(op, w). ret ((0, op), w)))))"

definition DFFS_Handler__Server ::
    "'st sodium \<Rightarrow> fs_operator \<Rightarrow> world \<Rightarrow> ((int \<times> fs_operator) \<times> world) run" where
  "DFFS_Handler__Server S op w =
     (let (op, w) = fresh_nonce S op w in
      andthen (SessionEncWrapper_reader S w) (\<lambda>(wrap, w).
      if is_corrupted wrap then ret ((2, op), w)
      else
        (let (rc, _, file_name_buf, _) = unwrap S wrap (server_rx op) PRE_EXT_FILE_NAME_LEN
               (replicate MAX_FILE_NAME_LENGTH 0) (u64_of_bytes (uninit 8 w)) in
         if rc \<noteq> 0 then ret ((1, op), w)
         else (case c_str file_name_buf of
             None \<Rightarrow> fails Out_Of_Bounds
           | Some name \<Rightarrow>
               (case remove_path (disk w) (user_dir op @ name) of
                  Inl e \<Rightarrow> fails Uncaught_Exception
                | Inr (removed, d) \<Rightarrow>
                    (let result = (if removed then ACK_SUC else ACK_FAIL);
                         (op, w) = fresh_nonce S op (w\<lparr>disk := d\<rparr>) in
                     andthen (op_send S (i32_bytes result) op w) (\<lambda>(op, w). ret ((0, op), w))))))))"

section \<open>Notices and intents\<close>

definition receive_notice_of_new_action :: "'st sodium \<Rightarrow> fs_operator \<Rightarrow> world \<Rightarrow> (int \<times> world) run" where
  "receive_notice_of_new_action S op w =
     andthen (SessionEncWrapper_reader S w) (\<lambda>(wrap, w).
       if is_corrupted wrap then ret (3, w)
       else
         (let (rc, _, notice, _) =
                unwrap S wrap (server_rx op) 4 (uninit 4 w) (u64_of_bytes (uninit 8 w)) in
          if rc \<noteq> 0 then ret (2, w)
          else if i32_of_bytes notice \<noteq> NEW_ACTION then ret (1, w)
          else ret (0, w)))"

definition read_intent :: "'st sodium \<Rightarrow> fs_operator \<Rightarrow> world \<Rightarrow> (i32 \<times> world) run" where
  "read_intent S op w =
     andthen (SessionEncWrapper_reader S w) (\<lambda>(wrap, w).
       if is_corrupted wrap then ret (INVALID_READ_INTENT, w)
       else
         (let (rc, _, intent, _) =
                unwrap S wrap (server_rx op) 4 (uninit 4 w) (u64_of_bytes (uninit 8 w)) in
          if rc \<noteq> 0 then ret (INVALID_READ_INTENT, w)
          else ret (i32_of_bytes intent, w)))"

text \<open>One round of the upload loop.\<close>

lemma WTFS_round_chunk:
  assumes S: "session_laws S" "length nonce = aead_NPUBBYTES S"
    and c: "length c \<le> FILE_ENCRYPTED_CHUNK_SIZE S"
    and b: "idle_buffer (FILE_ENCRYPTED_CHUNK_SIZE S) b"
    and w: "feeds w (frame S (server_rx op) nonce (i32_bytes v) @ blob_bytes c @ rest)"
  obtains b' w' where
    "WTFS_round S op h prefix b w = ret (if v = MEAT_CHUNK then Inr (v, b') else Inl 0, w')"
    "idle_buffer (FILE_ENCRYPTED_CHUNK_SIZE S) b'" "feeds w' rest"
    "only_rx (w\<lparr>disk := write_out h c (disk w)\<rparr>) w'"
proof -
  obtain w1 where w1: "SessionEncWrapper_reader S w =
      ret (framed (sealed S (server_rx op) nonce (i32_bytes v)), w1)"
    "feeds w1 (blob_bytes c @ rest)" "only_rx w w1"
    using readerE [OF S i32_fits [OF S(1)] w] .
  obtain w2 where w2: "recv_raw_blob (FILE_ENCRYPTED_CHUNK_SIZE S) w1 = ret ((0, c), w2)"
    "feeds w2 rest" "only_rx w1 w2"
    using raw_blob.dec_encE [OF blob_fits_chunk [OF S(1) c] w1(2)] .
  obtain s b1 b2 where b2: "next_writable b = Some (s, b1)"
    "writer_turn (publish (length c) (store_slot s c b1)) = (c, b2)"
    "idle_buffer (FILE_ENCRYPTED_CHUNK_SIZE S) b2"
    using hand_overE [OF b] .
  let ?w = "w2\<lparr>disk := write_out h c (disk w2)\<rparr>"
  have "WTFS_round S op h prefix b w = ret (if v = MEAT_CHUNK then Inr (v, b2) else Inl 0, ?w)"
    using w1(1) w2(1) b2 unwrap_i32 [OF S]
    by (simp add: WTFS_round_def is_corrupted_def Let_def join_writer_idle END_CHUNK_def MEAT_CHUNK_def)
  moreover have "only_rx w w2" using w1(3) w2(3) by (rule only_rx_trans)
  ultimately show ?thesis using that b2(3) w2(2) only_rx_disk [OF \<open>only_rx w w2\<close>]
    by (simp add: only_rx_fields)
qed

lemma WTFS_loop_chunks:
  assumes "session_laws S" "length nonce = aead_NPUBBYTES S" "cs \<noteq> []"
    and "\<forall>c \<in> set cs. length c \<le> FILE_ENCRYPTED_CHUNK_SIZE S"
    and "idle_buffer (FILE_ENCRYPTED_CHUNK_SIZE S) b"
    and "feeds w (chunk_frames S (server_rx op) nonce cs @ rest)"
  shows "\<exists>w'. WTFS_loop S op h prefix b w = ret (0, w') \<and> feeds w' rest \<and>
     only_rx (w\<lparr>disk := write_out h (concat cs) (disk w)\<rparr>) w'"
  using assms(2-)
proof (induction cs arbitrary: nonce prefix b w)
  case Nil
  then show ?case by simp
next
  case (Cons c cs)
  let ?v = "if cs = [] then END_CHUNK else MEAT_CHUNK"
  from Cons.prems(5) have "feeds w (frame S (server_rx op) nonce (i32_bytes ?v) @ blob_bytes c @
      chunk_frames S (server_rx op) (sodium_increment S nonce) cs @ rest)" by simp
  with WTFS_round_chunk [OF assms(1) Cons.prems(1) _ Cons.prems(4), where v = ?v and c = c and w = w
      and op = op and h = h and prefix = prefix] Cons.prems(3)
  obtain b1 w1 where r0: "WTFS_round S op h prefix b w =
      ret (if ?v = MEAT_CHUNK then Inr (?v, b1) else Inl 0, w1)"
    and r: "idle_buffer (FILE_ENCRYPTED_CHUNK_SIZE S) b1"
    "feeds w1 (chunk_frames S (server_rx op) (sodium_increment S nonce) cs @ rest)"
    "only_rx (w\<lparr>disk := write_out h c (disk w)\<rparr>) w1"
    by auto
  have step: "WTFS_loop S op h prefix b w =
      (if ?v = MEAT_CHUNK then WTFS_loop S op h ?v b1 w1 else ret (0, w1))"
    by (subst WTFS_loop.simps) (simp add: r0)
  show ?case
  proof (cases "cs = []")
    case True
    with step r show ?thesis by (auto simp: END_CHUNK_def MEAT_CHUNK_def)
  next
    case False
    have "length (sodium_increment S nonce) = aead_NPUBBYTES S"
      using Cons.prems(1) length_increment [OF assms(1)] by simp
    from Cons.IH [OF this False _ r(1,2), of MEAT_CHUNK] Cons.prems(3)
    obtain w' where w': "WTFS_loop S op h MEAT_CHUNK b1 w1 = ret (0, w')" "feeds w' rest"
      "only_rx (w1\<lparr>disk := write_out h (concat cs) (disk w1)\<rparr>) w'" by auto
    have "only_rx (w\<lparr>disk := write_out h (c @ concat cs) (disk w)\<rparr>) w'"
      using only_rx_trans [OF only_rx_disk [OF r(3)] w'(3)] only_rx_fields(6) [OF r(3)]
      by (simp add: write_out_append)
    with False step w' show ?thesis by simp
  qed
qed

section \<open>An upload is stored\<close>

lemma init_read_honest:
  assumes S: "session_laws S" and n: "length nonce = aead_NPUBBYTES S"
    and name: "length name \<le> PRE_EXT_FILE_NAME_LEN" "PRE_EXT_FILE_NAME_LEN < length buf"
    and hs: "length header = ss_HEADERBYTES S" "length salt = pwhash_SALTBYTES S"
      "length hbuf = ss_HEADERBYTES S" "length sbuf = pwhash_SALTBYTES S"
    and w: "feeds w (frames S (server_rx op) nonce [[1], name, header, salt] @ rest)"
  shows "\<exists>w'. init_read S op buf hbuf sbuf w =
       ret ((0, (write_into buf name)[length name := 0], header, salt), w') \<and>
     feeds w' rest \<and> only_rx w w'"
proof -
  let ?k = "server_rx op" and ?n1 = "sodium_increment S nonce"
  let ?n2 = "sodium_increment S ?n1" let ?n3 = "sodium_increment S ?n2"
  have s: "sodium_sizes S" using S by (simp add: session_laws_def)
  note n1 = n [folded length_increment [OF S, of nonce]]
  note n2 = n1 [folded length_increment [OF S, of ?n1]]
  note n3 = n2 [folded length_increment [OF S, of ?n2]]
  have le: "(1 :: nat) \<le> 65553" "PRE_EXT_FILE_NAME_LEN \<le> 65553" "ss_HEADERBYTES S \<le> 65553"
    "pwhash_SALTBYTES S \<le> 65553" "length [1 :: byte] \<le> 1"
    using sodium_sizesD [OF s] by (simp_all add: PRE_EXT_FILE_NAME_LEN_def)
  from w have w0: "feeds w (frame S ?k nonce [1] @ frame S ?k ?n1 name @ frame S ?k ?n2 header @
      frame S ?k ?n3 salt @ rest)" by simp
  obtain w1 where w1: "SessionEncWrapper_reader S w = ret (framed (sealed S ?k nonce [1]), w1)"
    "feeds w1 (frame S ?k ?n1 name @ frame S ?k ?n2 header @ frame S ?k ?n3 salt @ rest)" "only_rx w w1"
    "\<And>b l. unwrap S (framed (sealed S ?k nonce [1])) ?k 1 b l =
       (0, framed (sealed S ?k nonce [1]), write_into b [1], word_of_nat (length [1 :: byte]))"
    using read_messageE [OF S n le(5,1) w0] by blast
  obtain w2 where w2: "SessionEncWrapper_reader S w1 = ret (framed (sealed S ?k ?n1 name), w2)"
    "feeds w2 (frame S ?k ?n2 header @ frame S ?k ?n3 salt @ rest)" "only_rx w1 w2"
    "\<And>b l. unwrap S (framed (sealed S ?k ?n1 name)) ?k PRE_EXT_FILE_NAME_LEN b l =
       (0, framed (sealed S ?k ?n1 name), write_into b name, word_of_nat (length name))"
    using read_messageE [OF S n1 name(1) le(2) w1(2)] by blast
  obtain w3 where w3: "SessionEncWrapper_reader S w2 = ret (framed (sealed S ?k ?n2 header), w3)"
    "feeds w3 (frame S ?k ?n3 salt @ rest)" "only_rx w2 w3"
    "\<And>b l. unwrap S (framed (sealed S ?k ?n2 header)) ?k (ss_HEADERBYTES S) b l =
       (0, framed (sealed S ?k ?n2 header), write_into b header, word_of_nat (length header))"
    using read_messageE [OF S n2 eq_refl [OF hs(1)] le(3) w2(2)] by blast
  obtain w4 where w4: "SessionEncWrapper_reader S w3 = ret (framed (sealed S ?k ?n3 salt), w4)"
    "feeds w4 rest" "only_rx w3 w4"
    "\<And>b l. unwrap S (framed (sealed S ?k ?n3 salt)) ?k (pwhash_SALTBYTES S) b l =
       (0, framed (sealed S ?k ?n3 salt), write_into b salt, word_of_nat (length salt))"
    using read_messageE [OF S n3 eq_refl [OF hs(2)] le(4) w3(2)] by blast
  have len: "length name < 2 ^ 64" using name(1) by (simp add: PRE_EXT_FILE_NAME_LEN_def)
  have u: "unat (word_of_nat (length name) :: u64) = length name" by (rule unat_of_nat_u64 [OF len])
  have c: "\<not> word_of_nat MAX_FILE_NAME_LENGTH < (word_of_nat (length name) + word_of_nat (length ext) :: u64)"
  proof -
    have e: "(word_of_nat (length name) + word_of_nat (length ext) :: u64) = word_of_nat (length name + 4)"
      by (simp add: ext_def str_def)
    have m: "length name + 4 \<le> MAX_FILE_NAME_LENGTH" "MAX_FILE_NAME_LENGTH < 2 ^ 64"
      using name(1) by (simp_all add: PRE_EXT_FILE_NAME_LEN_def MAX_FILE_NAME_LENGTH_def)
    then have "unat (word_of_nat (length name + 4) :: u64) = length name + 4"
      by (intro unat_of_nat_u64) simp
    with m show ?thesis unfolding e word_less_nat_alt by (simp only: unat_of_nat_u64 not_less)
  qed
  have one: "hd (write_into [0] [1 :: byte]) \<noteq> 0" by (simp add: write_into_def)
  have "init_read S op buf hbuf sbuf w =
      ret ((0, (write_into buf name)[length name := 0], header, salt), w4)"
    unfolding init_read_def Let_def
    using one c u name hs
    by (simp add: w1(1) w2(1) w3(1) w4(1) w1(4) w2(4) w3(4) w4(4) is_corrupted_def write_into_full
        del: One_nat_def)
  with w1(3) w2(3) w3(3) w4(2,3) show ?thesis by (blast intro: only_rx_trans)
qed

text \<open>
  The user's directory is there: the operator's prefix ends with a separator and resolves to
  the directory \<open>p\<close>.
\<close>

definition home :: "fs_operator \<Rightarrow> filesys \<Rightarrow> path \<Rightarrow> bool" where
  "home op d p \<longleftrightarrow> (\<exists>s. s \<noteq> [] \<and> user_dir op = s @ [slash]) \<and>
     resolve d (user_dir op) = Inr p \<and> lookup d p = Some Dir"

lemma home_resolve:
  assumes "home op d p" "plain_name s"
  shows "resolve d (user_dir op @ s) = Inr (p @ [s])"
proof -
  from assms(1) obtain t where t: "t \<noteq> []" "user_dir op = t @ [slash]" by (auto simp: home_def)
  with resolve_below [of d t p s] assms show ?thesis by (simp add: home_def)
qed

lemma home_keep_dirs:
  assumes "home op d p" "\<And>r. lookup d r = Some Dir \<Longrightarrow> lookup d' r = Some Dir" "cwd d' = cwd d"
  shows "home op d' p"
  using assms resolve_keep_dirs [of d d' "user_dir op" p] by (auto simp: home_def)

lemma plain_ext: "slash \<notin> set name \<Longrightarrow> plain_name (name @ ext)"
  by (auto simp: plain_name_def ext_def str_def dot_def dotdot_def slash_def of_char_def
      append_eq_Cons_conv horner_sum_simps)

lemma WTFS_run:
  assumes S: "session_laws S" "length nonce = aead_NPUBBYTES S"
    and name: "length name \<le> PRE_EXT_FILE_NAME_LEN" "0 \<notin> set name"
    and hs: "length header = ss_HEADERBYTES S" "length salt = pwhash_SALTBYTES S"
    and cs: "cs \<noteq> []" "\<forall>c \<in> set cs. length c \<le> FILE_ENCRYPTED_CHUNK_SIZE S"
    and w: "feeds w (upload_bytes S (server_rx op) nonce name header salt cs @ rest)"
    and out: "open_out (disk w) (user_dir op @ name @ ext) = (h, d)"
  shows "\<exists>w'. WTFS_Handler__Server S op w = ret (0, w') \<and> feeds w' rest \<and>
     only_rx (w\<lparr>disk := write_out h (header @ salt @ concat cs) d\<rparr>) w'"
proof -
  let ?buf = "uninit (FILE_ENCRYPTED_CHUNK_SIZE S) w" and ?n = "counter S 4 nonce"
  have sz: "sodium_sizes S" using S(1) by (simp add: session_laws_def)
  have b: "PRE_EXT_FILE_NAME_LEN < length ?buf"
    using chunk_sizes [OF sz] by (simp add: PRE_EXT_FILE_NAME_LEN_def)
  obtain w1 where w1: "init_read S op ?buf (uninit (ss_HEADERBYTES S) w) (uninit (pwhash_SALTBYTES S) w) w =
      ret ((0, (write_into ?buf name)[length name := 0], header, salt), w1)"
    "feeds w1 (chunk_frames S (server_rx op) ?n cs @ rest)" "only_rx w w1"
    using init_read_honest [OF S name(1) b hs length_uninit length_uninit] w
    by (metis upload_bytes_def append_assoc)
  have "(write_into ?buf name)[length name := 0] = name @ 0 # drop (length name + 1) ?buf"
    using b name(1) by (simp add: write_into_def list_update_append Cons_nth_drop_Suc [symmetric])
  then have cstr: "c_str ((write_into ?buf name)[length name := 0]) = Some name"
    using c_str_terminated [OF name(2)] by simp
  let ?d = "write_out h salt (write_out h header d)" let ?w = "w1\<lparr>disk := ?d\<rparr>"
  have n: "length ?n = aead_NPUBBYTES S" using S length_counter by metis
  have f: "feeds ?w (chunk_frames S (server_rx op) ?n cs @ rest)" using w1(2) by simp
  obtain w2 where w2: "WTFS_loop S op h END_CHUNK (TwoSlotBuffer (FILE_ENCRYPTED_CHUNK_SIZE S)) ?w =
      ret (0, w2)" "feeds w2 rest" "only_rx (?w\<lparr>disk := write_out h (concat cs) (disk ?w)\<rparr>) w2"
    using WTFS_loop_chunks [OF S(1) n cs idle_TwoSlotBuffer f] by blast
  have d1: "disk w1 = disk w" using only_rx_fields(6) [OF w1(3)] .
  have "WTFS_Handler__Server S op w = ret (0, w2)"
    by (simp add: WTFS_Handler__Server_def w1(1) cstr d1 out Let_def w2(1))
  moreover have "only_rx (w\<lparr>disk := write_out h (header @ salt @ concat cs) d\<rparr>) w2"
    using only_rx_trans [OF only_rx_disk [OF w1(3)] w2(3) [simplified]]
    by (simp add: write_out_append)
  ultimately show ?thesis using w2(2) by blast
qed

lemma WTFS_store_run:
  assumes "session_laws S" "length nonce = aead_NPUBBYTES S"
    and "length name \<le> PRE_EXT_FILE_NAME_LEN" "0 \<notin> set name" "slash \<notin> set name"
    and "length header = ss_HEADERBYTES S" "length salt = pwhash_SALTBYTES S"
    and "cs \<noteq> []" "\<forall>c \<in> set cs. length c \<le> FILE_ENCRYPTED_CHUNK_SIZE S"
    and "home op (disk w) p" "lookup (disk w) (p @ [name @ ext]) \<noteq> Some Dir"
    and "feeds w (upload_bytes S (server_rx op) nonce name header salt cs @ rest)"
  shows "\<exists>w'. WTFS_Handler__Server S op w = ret (0, w') \<and> feeds w' rest \<and> tx w' = tx w \<and>
     tx_plan w' = tx_plan w \<and> cwd (disk w') = cwd (disk w) \<and>
     lookup (disk w') (p @ [name @ ext]) = Some (File (header @ salt @ concat cs)) \<and>
     (\<forall>q. q \<noteq> p @ [name @ ext] \<longrightarrow> lookup (disk w') q = lookup (disk w) q) \<and>
     (keys_once (disk w) \<longrightarrow> keys_once (disk w')) \<and>
     only_rx (w\<lparr>disk := write_out (Some (p @ [name @ ext])) (header @ salt @ concat cs)
       (snd (open_out (disk w) (user_dir op @ name @ ext)))\<rparr>) w'"
proof -
  let ?p = "p @ [name @ ext]"
  have "resolve (disk w) (user_dir op @ name @ ext) = Inr ?p"
    using home_resolve [OF assms(10) plain_ext [OF assms(5)]] .
  then obtain d where out: "open_out (disk w) (user_dir op @ name @ ext) = (Some ?p, d)"
    using assms(11) open_out_ok by blast
  from WTFS_run [OF assms(1-4,6-9,12) out] obtain w' where w': "WTFS_Handler__Server S op w = ret (0, w')"
    "feeds w' rest" "only_rx (w\<lparr>disk := write_out (Some ?p) (header @ salt @ concat cs) d\<rparr>) w'"
    by blast
  have "lookup (disk w') q = (if q = ?p then Some (File (header @ salt @ concat cs)) else lookup (disk w) q)" for q
    using lookup_write_out [OF open_outD(3) [OF out]] open_outD(4) [OF out]
      only_rx_fields(6) [OF w'(3)] by simp
  with w'(1,2) only_rx_fields(1,2,6) [OF w'(3)] cwd_open_out [OF out] keys_once_open_out [OF out]
  show ?thesis using w'(3) by (simp add: out)
qed

text \<open>A small disk with one user on it.\<close>

definition toy_op :: fs_operator where
  "toy_op = \<lparr>op_sock = 4, user_dir = base_dir @ str ''u'' @ [slash], server_rx = [7], server_tx = [8],
     op_nonce = replicate 8 0\<rparr>"

definition toy_disk :: filesys where
  "toy_disk = \<lparr>entries = [([str ''MEF_S''], Dir), ([str ''MEF_S'', str ''u''], Dir),
     ([str ''MEF_S'', str ''u'', str ''f.enc''], File (replicate 40 5 @ [1, 2]))], cwd = []\<rparr>"

lemma toy_home: "home toy_op toy_disk [str ''MEF_S'', str ''u'']"
proof -
  have "resolve toy_disk (user_dir toy_op) = Inr [str ''MEF_S'', str ''u'']"
    "lookup toy_disk [str ''MEF_S'', str ''u''] = Some Dir" by code_simp+
  then show ?thesis by (auto simp: home_def toy_op_def base_dir_def str_def)
qed

section \<open>A stored file is sent\<close>

lemma op_send_frame:
  assumes "session_laws S" "length (op_nonce op) = aead_NPUBBYTES S"
    "length data \<le> FILE_ENCRYPTED_CHUNK_SIZE S" "tx_plan w = []"
  shows "op_send S data op w = ret (op\<lparr>op_nonce := sodium_increment S (op_nonce op)\<rparr>,
     w\<lparr>tx := tx w @ frame S (server_tx op) (op_nonce op) data\<rparr>)"
  using session_send_frame [OF assms] by (simp add: op_send_def)

lemma RFFS_loop_chunks:
  assumes "session_laws S" "length (op_nonce op) = aead_NPUBBYTES S" "tx_plan w = []"
  shows "RFFS_loop S \<lparr>in_src = Regular xs, eofbit = False, failbit = False, badbit = False\<rparr> op w =
    ret ((0, op\<lparr>op_nonce := counter S (length (file_chunks (FILE_ENCRYPTED_CHUNK_SIZE S) xs)) (op_nonce op)\<rparr>),
      w\<lparr>tx := tx w @ chunk_frames S (server_tx op) (op_nonce op)
                 (file_chunks (FILE_ENCRYPTED_CHUNK_SIZE S) xs)\<rparr>)"
  using assms(2,3)
proof (induction "FILE_ENCRYPTED_CHUNK_SIZE S" xs arbitrary: op w rule: file_chunks.induct)
  case (1 xs)
  let ?n = "FILE_ENCRYPTED_CHUNK_SIZE S"
  have pos: "?n \<noteq> 0" using assms(1) by (simp add: session_laws_def chunk_sizes)
  note send = op_send_frame [OF assms(1) 1(2) i32_fits [OF assms(1)] 1(3)]
  have len: "length (sodium_increment S (op_nonce op)) = aead_NPUBBYTES S"
    using 1(2) length_increment [OF assms(1)] by simp
  show ?case
  proof (cases "length xs < ?n")
    case True
    then show ?thesis
      by (subst RFFS_loop.simps, subst (1 2) file_chunks.simps)
        (simp add: read_in_file send send_raw_blob_accepted 1(3) Let_def counter_def)
  next
    case False
    then have "\<not> (?n = 0 \<or> length xs < ?n)" using pos by simp
    note IH = 1(1) [OF this, where op = "op\<lparr>op_nonce := sodium_increment S (op_nonce op)\<rparr>", simplified, OF len]
    from False pos show ?thesis
      by (subst RFFS_loop.simps, subst (1 2) file_chunks.simps)
        (simp add: read_in_file send send_raw_blob_accepted 1(3) Let_def IH counter_def
          file_chunks_props(1) funpow_swap1)
  qed
qed

lemma fresh_nonce_simps:
  "fresh_nonce S op w = (op\<lparr>op_nonce := fst (randombytes_buf (aead_NPUBBYTES S) w)\<rparr>,
     w\<lparr>rnd_pos := rnd_pos w + aead_NPUBBYTES S\<rparr>)"
  by (simp add: fresh_nonce_def randombytes_buf_def)

lemma RFFS_run:
  assumes S: "session_laws S" "length nonce = aead_NPUBBYTES S" "tx_plan w = []"
    and name: "length name < PRE_EXT_FILE_NAME_LEN" "0 \<notin> set name" "plain_name name"
    and hs: "length header = ss_HEADERBYTES S" "length salt = pwhash_SALTBYTES S"
    and f: "home op (disk w) p" "lookup (disk w) (p @ [name]) = Some (File (header @ salt @ body))"
    and w: "feeds w (frame S (server_rx op) nonce (name @ [0]) @ rest)"
  shows "\<exists>op' w'. RFFS_Handler__Server S op w = ret ((0, op'), w') \<and> feeds w' rest \<and>
     disk w' = disk w \<and> (\<exists>n. op' = op\<lparr>op_nonce := n\<rparr>) \<and> tx_plan w' = [] \<and>
     tx w' = tx w @ download_bytes S (server_tx op) (fst (randombytes_buf (aead_NPUBBYTES S) w))
       header salt (file_chunks (FILE_ENCRYPTED_CHUNK_SIZE S) body) \<and>
     only_rx (w\<lparr>rnd_pos := rnd_pos w + aead_NPUBBYTES S, tx := tx w'\<rparr>) w'"
proof -
  let ?n = "fst (randombytes_buf (aead_NPUBBYTES S) w)"
  let ?op = "op\<lparr>op_nonce := ?n\<rparr>" and ?w = "w\<lparr>rnd_pos := rnd_pos w + aead_NPUBBYTES S\<rparr>"
  let ?file = "\<lparr>in_src = Regular (header @ salt @ body), eofbit = False, failbit = False, badbit = False\<rparr>"
  have sz: "sodium_sizes S" using S(1) by (simp add: session_laws_def)
  have "length (name @ [0]) \<le> PRE_EXT_FILE_NAME_LEN" "PRE_EXT_FILE_NAME_LEN \<le> 65553"
    using name(1) by (simp_all add: PRE_EXT_FILE_NAME_LEN_def)
  moreover have "feeds ?w (frame S (server_rx op) nonce (name @ [0]) @ rest)" using w by (simp add: feeds_def)
  ultimately obtain w1 where w1: "SessionEncWrapper_reader S ?w =
      ret (framed (sealed S (server_rx op) nonce (name @ [0])), w1)" "feeds w1 rest" "only_rx ?w w1"
    "\<And>b l. unwrap S (framed (sealed S (server_rx op) nonce (name @ [0]))) (server_rx op) PRE_EXT_FILE_NAME_LEN b l =
       (0, framed (sealed S (server_rx op) nonce (name @ [0])), write_into b (name @ [0]),
        word_of_nat (length (name @ [0])))"
    using read_messageE [OF S(1,2)] by metis
  have w1': "tx w1 = tx w" "tx_plan w1 = []" "disk w1 = disk w"
    using only_rx_fields [OF w1(3)] S(3) by simp_all
  have opened: "open_in (disk w) (user_dir op @ name) = ?file"
    using open_in_file [OF home_resolve [OF f(1) name(3)] f(2)] .
  have fit: "length header \<le> FILE_ENCRYPTED_CHUNK_SIZE S" "length salt \<le> FILE_ENCRYPTED_CHUNK_SIZE S"
    using hs chunk_sizes [OF sz] sodium_sizesD [OF sz] by simp_all
  have n: "length ?n = aead_NPUBBYTES S" by simp
  note n1 = n [folded length_increment [OF S(1), of ?n]]
  note n2 = n1 [folded length_increment [OF S(1), of "sodium_increment S ?n"]]
  have rd: "read_in (ss_HEADERBYTES S) ?file = (header, ?file\<lparr>in_src := Regular (salt @ body)\<rparr>)"
    "read_in (pwhash_SALTBYTES S) (?file\<lparr>in_src := Regular (salt @ body)\<rparr>) =
       (salt, ?file\<lparr>in_src := Regular body\<rparr>)"
    using hs by (simp_all add: read_in_file)
  note send1 = op_send_frame [OF S(1) _ fit(1), where op = ?op and w = w1, simplified, OF w1'(2)]
  let ?op1 = "op\<lparr>op_nonce := sodium_increment S ?n\<rparr>"
    and ?w1 = "w1\<lparr>tx := tx w @ frame S (server_tx op) ?n header\<rparr>"
  note send2 = op_send_frame [OF S(1) _ fit(2), where op = ?op1 and w = ?w1, simplified, OF n1 w1'(2)]
  let ?op2 = "op\<lparr>op_nonce := sodium_increment S (sodium_increment S ?n)\<rparr>"
    and ?w2 = "w1\<lparr>tx := tx w @ frame S (server_tx op) ?n header @
                 frame S (server_tx op) (sodium_increment S ?n) salt\<rparr>"
  note loop = RFFS_loop_chunks [OF S(1), where op = ?op2 and w = ?w2, simplified, OF n2 w1'(2)]
  have ok: "stream_ok ?file" by (simp add: stream_ok_def)
  have "\<exists>op' w'. RFFS_Handler__Server S op w = ret ((0, op'), w') \<and> (\<exists>n. op' = op\<lparr>op_nonce := n\<rparr>) \<and>
      w' = w1\<lparr>tx := tx w @ download_bytes S (server_tx op) ?n header salt
                 (file_chunks (FILE_ENCRYPTED_CHUNK_SIZE S) body)\<rparr>"
    unfolding RFFS_Handler__Server_def fresh_nonce_simps Let_def
    using w1(1) w1' hs ok c_str_of_request [OF name(2)]
    by (simp add: w1(4) is_corrupted_def opened rd [simplified] send1 send2 loop write_into_full download_bytes_def
        counter_def numeral_2_eq_2) blast
  with w1(2) w1' only_rx_tx [OF w1(3)] show ?thesis by (auto simp: feeds_def)
qed

section \<open>The upload handler comes to an end\<close>

lemma init_read_settles:
  "live w \<Longrightarrow> rx_size (rx w) \<le> n \<Longrightarrow> settles n (init_read S op buf hbuf sbuf w)"
  unfolding init_read_def Let_def
  by (intro settles_andthen [OF reader_settles])
    (auto split: prod.splits intro!: settles_andthen [OF reader_settles])

lemma WTFS_round_settles:
  assumes "idle_buffer (FILE_ENCRYPTED_CHUNK_SIZE S) b" "live w"
  shows "settles (rx_size (rx w)) (WTFS_round S op h prefix b w)"
proof -
  obtain slot b1 where b1: "next_writable b = Some (slot, b1)"
    using next_writable_idle [OF assms(1)] .
  show ?thesis
    unfolding WTFS_round_def Let_def b1 join_writer_def
    by (intro settles_andthen [OF reader_settles [OF assms(2) order_refl]])
      (auto split: prod.splits intro!: settles_andthen [OF recv_raw_blob_settles])
qed

text \<open>What a round has done, on any input: it left the loop, or it wrote a chunk and goes on.\<close>

lemma WTFS_roundE:
  assumes "WTFS_round S op h prefix b w = ret (r, w')" "next_writable b = Some (slot, b1)"
  obtains (left) rc bs w1 where "r = Inl rc" "only_rx w w1" "w' = w1\<lparr>disk := write_out h bs (disk w1)\<rparr>"
  | (goes_on) wrap w1 data w2 bs prefix' b' where "r = Inr (prefix', b')"
      "SessionEncWrapper_reader S w = ret (wrap, w1)" "\<not> corrupted wrap"
      "recv_raw_blob (FILE_ENCRYPTED_CHUNK_SIZE S) w1 = ret ((0, data), w2)"
      "writer_turn (publish (length data) (store_slot slot data b1)) = (bs, b')"
      "w' = w2\<lparr>disk := write_out h bs (disk w2)\<rparr>"
proof -
  from assms(1) obtain wrap w1 where w1: "SessionEncWrapper_reader S w = ret (wrap, w1)"
    unfolding WTFS_round_def by (auto simp only: andthen_eq_ret_iff)
  have o1: "only_rx w w1" using reader_only_rx [OF w1] .
  obtain rc x pb l where u: "unwrap S wrap (server_rx op) 4 (i32_bytes prefix) (u64_of_bytes (uninit 8 w1)) =
      (rc, x, pb, l)" by (metis prod_cases4)
  note run = assms(1) [unfolded WTFS_round_def, simplified w1 andthen_ret prod.case u Let_def assms(2) option.case]
  show ?thesis
  proof (cases "corrupted wrap \<or> rc \<noteq> 0")
    case True
    with run o1 show ?thesis
      by (auto simp: is_corrupted_def join_writer_def split: if_splits intro: left)
  next
    case False
    with run obtain c data w2 where w2: "recv_raw_blob (FILE_ENCRYPTED_CHUNK_SIZE S) w1 = ret ((c, data), w2)"
      by (auto simp: is_corrupted_def andthen_eq_ret_iff)
    obtain bs b2 where b2: "writer_turn (publish (length data) (store_slot slot data b1)) = (bs, b2)" by fastforce
    have o2: "only_rx w w2" using only_rx_trans [OF o1 recv_raw_blobD(2) [OF w2]] .
    let ?w = "w2\<lparr>disk := write_out h bs (disk w2)\<rparr>" and ?v = "i32_of_bytes pb"
    have run2: "(if c \<noteq> 0 then join_writer h (store_slot slot data b1) 1 w2
        else if ?v = END_CHUNK then join_writer h b2 0 ?w
        else if ?v = MEAT_CHUNK then ret (Inr (?v, b2), ?w) else join_writer h b2 0 ?w) = ret (r, w')"
      using run False by (simp add: is_corrupted_def w2 b2 cong: if_cong)
    show ?thesis
    proof (cases "c = 0 \<and> ?v \<noteq> END_CHUNK \<and> ?v = MEAT_CHUNK")
      case True
      with run2 False w1 w2 b2 show ?thesis by (intro goes_on) auto
    next
      case False
      with run2 o2 show ?thesis
        by (auto simp: join_writer_def write_out_append split: if_splits intro: left)
    qed
  qed
qed

lemma WTFS_round_goes_on:
  assumes "WTFS_round S op h prefix b w = ret (Inr (prefix', b'), w')"
    "idle_buffer (FILE_ENCRYPTED_CHUNK_SIZE S) b"
  shows "rx_size (rx w') < rx_size (rx w)" "idle_buffer (FILE_ENCRYPTED_CHUNK_SIZE S) b'"
proof -
  obtain slot b1 where b1: "next_writable b = Some (slot, b1)"
    using next_writable_idle [OF assms(2)] .
  from assms(1) b1 have "rx_size (rx w') < rx_size (rx w) \<and> idle_buffer (FILE_ENCRYPTED_CHUNK_SIZE S) b'"
  proof (cases rule: WTFS_roundE)
    case (goes_on wrap w1 data w2 bs)
    with reader_progress [OF goes_on(2,3)] recv_raw_blobD(3) [OF goes_on(4)]
      writer_turn_idle [OF assms(2) b1, of data]
    show ?thesis by auto
  qed auto
  then show "rx_size (rx w') < rx_size (rx w)" "idle_buffer (FILE_ENCRYPTED_CHUNK_SIZE S) b'" by auto
qed

lemma WTFS_loop_settles:
  assumes "idle_buffer (FILE_ENCRYPTED_CHUNK_SIZE S) b" "live w"
  shows "settles (rx_size (rx w)) (WTFS_loop S op h prefix b w)"
  using assms
proof (induction "rx_size (rx w)" arbitrary: prefix b w rule: less_induct)
  case less
  show ?case
  proof (subst WTFS_loop.simps, rule settles_andthen [OF WTFS_round_settles [OF less.prems]])
    fix r w'
    assume r: "WTFS_round S op h prefix b w = ret (r, w')" "live w'" "rx_size (rx w') \<le> rx_size (rx w)"
    show "settles (rx_size (rx w)) (case (r, w') of (r, w) \<Rightarrow>
        case r of Inl rc \<Rightarrow> ret (rc, w) | Inr (prefix, b) \<Rightarrow> WTFS_loop S op h prefix b w)"
    proof (cases r)
      case (Inr pb)
      obtain prefix' b' where pb: "r = Inr (prefix', b')" using Inr by (cases pb) auto
      from settles_mono [OF less.hyps [OF WTFS_round_goes_on [OF r(1) [unfolded pb] less.prems(1)] r(2)] r(3)]
      show ?thesis by (simp add: pb)
    qed (use r in simp)
  qed
qed

lemma WTFS_settles:
  assumes "live w"
  shows "settles (rx_size (rx w)) (WTFS_Handler__Server S op w)"
  unfolding WTFS_Handler__Server_def
proof (rule settles_andthen [OF init_read_settles [OF assms order_refl]], clarify)
  fix rc buf header salt w1
  assume w1: "live w1" "rx_size (rx w1) \<le> rx_size (rx w)"
  have "settles (rx_size (rx w)) (WTFS_loop S op h END_CHUNK
      (TwoSlotBuffer (FILE_ENCRYPTED_CHUNK_SIZE S)) (w1\<lparr>disk := d\<rparr>))" for h d
    by (rule settles_mono [OF WTFS_loop_settles [OF idle_TwoSlotBuffer]]) (use w1 in simp_all)
  with w1 show "settles (rx_size (rx w)) (if rc \<noteq> 0 then ret (1, w1)
     else (case c_str buf of
         None \<Rightarrow> fails Out_Of_Bounds
       | Some name \<Rightarrow>
           (let file_name = user_dir op @ name @ ext;
                (h, d) = open_out (disk w1) file_name;
                d = write_out h salt (write_out h header d) in
            WTFS_loop S op h END_CHUNK (TwoSlotBuffer (FILE_ENCRYPTED_CHUNK_SIZE S)) (w1\<lparr>disk := d\<rparr>))))"
    by (auto simp: Let_def split: option.splits prod.splits)
qed

section \<open>What an upload can change\<close>

text \<open>Between two environments, something was appended through the stream \<open>h\<close> and input was read.\<close>

definition wrote :: "path option \<Rightarrow> world \<Rightarrow> world \<Rightarrow> bool" where
  "wrote h w w' \<longleftrightarrow> (\<exists>bs. only_rx (w\<lparr>disk := write_out h bs (disk w)\<rparr>) w')"

lemma wrote_trans:
  assumes "wrote h u v" "wrote h v w"
  shows "wrote h u w"
proof -
  from assms obtain a b where ab: "only_rx (u\<lparr>disk := write_out h a (disk u)\<rparr>) v"
    "only_rx (v\<lparr>disk := write_out h b (disk v)\<rparr>) w" by (auto simp: wrote_def)
  then have "only_rx (u\<lparr>disk := write_out h (a @ b) (disk u)\<rparr>) w"
    using only_rx_trans [OF only_rx_disk [OF ab(1)] ab(2)] only_rx_fields(6) [OF ab(1)]
    by (simp add: write_out_append)
  then show ?thesis by (auto simp: wrote_def)
qed

lemma wrote_read: "only_rx w w' \<Longrightarrow> wrote h w (w'\<lparr>disk := write_out h bs (disk w')\<rparr>)"
  using only_rx_disk only_rx_fields(6) by (fastforce simp: wrote_def)

lemma wroteD:
  assumes "wrote h w w'"
  shows "h \<noteq> Some q \<Longrightarrow> lookup (disk w') q = lookup (disk w) q" "tx w' = tx w"
  using assms by (auto simp: wrote_def lookup_write_out_other dest: only_rx_fields(1,6))

lemma WTFS_round_wrote:
  assumes "WTFS_round S op h prefix b w = ret (r, w')" "idle_buffer (FILE_ENCRYPTED_CHUNK_SIZE S) b"
  shows "wrote h w w'"
proof -
  obtain slot b1 where b1: "next_writable b = Some (slot, b1)"
    using next_writable_idle [OF assms(2)] .
  from assms(1) b1 show ?thesis
  proof (cases rule: WTFS_roundE)
    case (goes_on wrap w1 data w2 bs prefix' b')
    then show ?thesis
      using wrote_read [OF only_rx_trans [OF reader_only_rx recv_raw_blobD(2)]] by blast
  qed (simp add: wrote_read)
qed

lemma WTFS_loop_wrote:
  assumes run: "WTFS_loop S op h prefix b w = ret (rc, w')"
    and idle: "idle_buffer (FILE_ENCRYPTED_CHUNK_SIZE S) b"
  shows "wrote h w w'"
proof -
  let ?P = "\<lambda>S op h (prefix :: i32) b w (r :: fault + int \<times> world).
    \<forall>rc w'. r = Inr (rc, w') \<longrightarrow> idle_buffer (FILE_ENCRYPTED_CHUNK_SIZE S) b \<longrightarrow> wrote h w w'"
  from run have run': "WTFS_loop S op h prefix b w = Some (Inr (rc, w'))" by (simp add: ret_def)
  have "?P S op h prefix b w (Inr (rc, w'))"
  proof (rule WTFS_loop.raw_induct [where P = ?P, OF _ run'], intro allI impI)
    fix loop S op h prefix b w r rc w'
    assume IH: "\<And>S op h prefix b w r. loop S op h prefix b w = Some r \<Longrightarrow> ?P S op h prefix b w r"
      and eq: "andthen (WTFS_round S op h prefix b w) (\<lambda>(r, w).
          case r of Inl rc \<Rightarrow> ret (rc, w) | Inr (prefix, b) \<Rightarrow> loop S op h prefix b w) = Some r"
      and r: "r = Inr (rc, w')" and idle: "idle_buffer (FILE_ENCRYPTED_CHUNK_SIZE S) b"
    from eq r have "andthen (WTFS_round S op h prefix b w) (\<lambda>(r, w).
          case r of Inl rc \<Rightarrow> ret (rc, w) | Inr (prefix, b) \<Rightarrow> loop S op h prefix b w) = ret (rc, w')"
      by (simp add: ret_def)
    then obtain x w1 where x: "WTFS_round S op h prefix b w = ret (x, w1)"
      "(case x of Inl rc \<Rightarrow> ret (rc, w1) | Inr (prefix, b) \<Rightarrow> loop S op h prefix b w1) = ret (rc, w')"
      by (auto simp: andthen_eq_ret_iff)
    note w1 = WTFS_round_wrote [OF x(1) idle]
    show "wrote h w w'"
    proof (cases x)
      case (Inr pb)
      obtain prefix' b' where pb: "x = Inr (prefix', b')" using Inr by (cases pb) auto
      with x(2) have "loop S op h prefix' b' w1 = Some (Inr (rc, w'))" by (simp add: ret_def)
      with IH WTFS_round_goes_on(2) [OF x(1) [unfolded pb] idle] have "wrote h w1 w'" by blast
      with w1 show ?thesis by (rule wrote_trans)
    qed (use x(2) w1 in simp)
  qed
  with idle show ?thesis by blast
qed

lemma init_read_only_rx:
  assumes "init_read S op buf hbuf sbuf w = ret (x, w')"
  shows "only_rx w w'"
proof -
  have "quiet w (init_read S op buf hbuf sbuf w)"
    unfolding init_read_def Let_def
    by (intro quiet_andthen [OF quiet_reader])
      (auto split: prod.splits intro!: quiet_andthen [OF quiet_reader])
  with assms show ?thesis unfolding quiet_def by blast
qed



text \<open>
  A name with separators leaves the user's directory: the handler for \<open>u\<close> writes into the
  directory of \<open>v\<close>.
\<close>

lemma WTFS_escapes_home:
  assumes "disk w = toy_disk\<lparr>entries := entries toy_disk @ [([str ''MEF_S'', str ''v''], Dir)]\<rparr>"
    and "length header = 24" "length salt = 16" "length c \<le> 65553"
    and "feeds w (upload_bytes toy_sodium [7] (replicate 8 0) (str ''../v/x'') header salt [c])"
  shows "\<exists>w'. WTFS_Handler__Server toy_sodium toy_op w = ret (0, w') \<and>
     lookup (disk w') [str ''MEF_S'', str ''v'', str ''x.enc''] = Some (File (header @ salt @ c))"
proof -
  let ?p = "[str ''MEF_S'', str ''v'', str ''x.enc'']"
  have r: "resolve (disk w) (user_dir toy_op @ str ''../v/x'' @ ext) = Inr ?p"
    "lookup (disk w) ?p \<noteq> Some Dir" unfolding assms(1) by code_simp+
  obtain d where out: "open_out (disk w) (user_dir toy_op @ str ''../v/x'' @ ext) = (Some ?p, d)"
    using open_out_ok [OF r] by blast
  have n: "0 \<notin> set (str ''../v/x'')" by code_simp
  have f: "feeds w (upload_bytes toy_sodium (server_rx toy_op) (replicate 8 0) (str ''../v/x'')
      header salt [c] @ [])" using assms(5) by (simp add: toy_op_def)
  have "\<exists>w'. WTFS_Handler__Server toy_sodium toy_op w = ret (0, w') \<and> feeds w' [] \<and>
      only_rx (w\<lparr>disk := write_out (Some ?p) (header @ salt @ concat [c]) d\<rparr>) w'"
    by (rule WTFS_run [OF toy_session _ _ n _ _ _ _ f out])
      (use assms in \<open>simp_all add: PRE_EXT_FILE_NAME_LEN_def str_def\<close>)
  then obtain w' where w': "WTFS_Handler__Server toy_sodium toy_op w = ret (0, w')"
    "only_rx (w\<lparr>disk := write_out (Some ?p) (header @ salt @ c) d\<rparr>) w'" by auto
  from only_rx_fields(6) [OF w'(2)] lookup_write_out [OF open_outD(3) [OF out]] w'(1)
  show ?thesis by simp
qed

section \<open>A file is deleted\<close>

text \<open>The nonces an operator draws one after the other.\<close>

definition nonce_at :: "'st sodium \<Rightarrow> world \<Rightarrow> nat \<Rightarrow> byte list" where
  "nonce_at S w i = map (\<lambda>j. rnd w (rnd_pos w + i * aead_NPUBBYTES S + j)) [0..<aead_NPUBBYTES S]"

lemma length_nonce_at [simp]: "length (nonce_at S w i) = aead_NPUBBYTES S"
  by (simp add: nonce_at_def)

lemma fresh_nonce_at:
  "fresh_nonce S op w = (op\<lparr>op_nonce := nonce_at S w 0\<rparr>, w\<lparr>rnd_pos := rnd_pos w + aead_NPUBBYTES S\<rparr>)"
  by (simp add: fresh_nonce_def randombytes_buf_def nonce_at_def)

lemma nonce_at_Suc: "nonce_at S (w\<lparr>rnd_pos := rnd_pos w + aead_NPUBBYTES S\<rparr>) i = nonce_at S w (Suc i)"
  by (simp add: nonce_at_def add.assoc)

lemma nonce_at_fields [simp]: "nonce_at S (w\<lparr>tx := t\<rparr>) = nonce_at S w" "nonce_at S (w\<lparr>disk := d\<rparr>) = nonce_at S w"
  by (simp_all add: nonce_at_def fun_eq_iff)

lemma nonce_at_only_rx: "only_rx w w' \<Longrightarrow> nonce_at S w' = nonce_at S w"
  by (simp add: nonce_at_def fun_eq_iff only_rx_fields)

lemma remove_file:
  assumes "resolve d s = Inr p" "lookup d p \<noteq> Some Dir"
  obtains d' where "remove_path d s = Inr (lookup d p \<noteq> None, d')" "lookup d' p = None"
    "\<And>q. q \<noteq> p \<Longrightarrow> lookup d' q = lookup d q"
proof (cases "lookup d p")
  case None
  with assms that show ?thesis by (simp add: remove_path_def)
next
  case (Some n)
  with assms obtain bs where n: "n = File bs" by (cases n) auto
  have "p \<noteq> []" using assms(2) by (auto simp: lookup_def)
  with assms Some n show ?thesis
    by (intro that [of "d\<lparr>entries := AList.delete p (entries d)\<rparr>"])
      (simp_all add: remove_path_def lookup_delete)
qed

lemma DFFS_run:
  assumes S: "session_laws S" "length nonce = aead_NPUBBYTES S" "tx_plan w = []"
    and name: "length name < PRE_EXT_FILE_NAME_LEN" "0 \<notin> set name" "plain_name name"
    and f: "home op (disk w) p" "lookup (disk w) (p @ [name]) \<noteq> Some Dir"
    and w: "feeds w (frame S (server_rx op) nonce (name @ [0]) @ rest)"
  shows "\<exists>op' w'. DFFS_Handler__Server S op w = ret ((0, op'), w') \<and> feeds w' rest \<and>
     lookup (disk w') (p @ [name]) = None \<and>
     (\<forall>q. q \<noteq> p @ [name] \<longrightarrow> lookup (disk w') q = lookup (disk w) q) \<and>
     tx w' = tx w @ frame S (server_tx op) (nonce_at S w 1)
       (i32_bytes (if lookup (disk w) (p @ [name]) = None then ACK_FAIL else ACK_SUC)) \<and>
     (\<exists>n. op' = op\<lparr>op_nonce := n\<rparr>) \<and> tx_plan w' = [] \<and>
     (\<exists>b. remove_path (disk w) (user_dir op @ name) = Inr (b, disk w')) \<and>
     only_rx (w\<lparr>disk := disk w', rnd_pos := rnd_pos w + 2 * aead_NPUBBYTES S, tx := tx w'\<rparr>) w'"
proof -
  let ?w = "w\<lparr>rnd_pos := rnd_pos w + aead_NPUBBYTES S\<rparr>"
  let ?ans = "if lookup (disk w) (p @ [name]) = None then ACK_FAIL else ACK_SUC"
  have "feeds ?w (frame S (server_rx op) nonce (name @ [0]) @ rest)" using w by (simp add: feeds_def)
  from requestE [OF S(1,2) name(1) this] obtain w1 where w1: "SessionEncWrapper_reader S ?w =
      ret (framed (sealed S (server_rx op) nonce (name @ [0])), w1)" "feeds w1 rest" "only_rx ?w w1"
    "\<And>b l. unwrap S (framed (sealed S (server_rx op) nonce (name @ [0]))) (server_rx op) PRE_EXT_FILE_NAME_LEN b l =
       (0, framed (sealed S (server_rx op) nonce (name @ [0])), write_into b (name @ [0]),
        word_of_nat (length (name @ [0])))" by blast
  have w1': "tx w1 = tx w" "tx_plan w1 = []" "disk w1 = disk w" "nonce_at S w1 0 = nonce_at S w 1"
    using only_rx_fields(1,2,6) [OF w1(3)] S(3)
    by (simp_all add: nonce_at_only_rx [OF w1(3)] nonce_at_Suc)
  obtain d where d: "remove_path (disk w) (user_dir op @ name) =
      Inr (lookup (disk w) (p @ [name]) \<noteq> None, d)" "lookup d (p @ [name]) = None"
    "\<And>q. q \<noteq> p @ [name] \<Longrightarrow> lookup d q = lookup (disk w) q"
    using remove_file [OF home_resolve [OF f(1) name(3)] f(2)] by blast
  note send = op_send_frame [OF S(1) _ i32_fits [OF S(1)], of "op\<lparr>op_nonce := nonce_at S w 1\<rparr>"
      "w1\<lparr>disk := d, rnd_pos := rnd_pos w1 + aead_NPUBBYTES S\<rparr>" ?ans, simplified, OF w1'(2)]
  have "\<exists>op' w'. DFFS_Handler__Server S op w = ret ((0, op'), w') \<and> rx w' = rx w1 \<and> disk w' = d \<and>
      (\<exists>n. op' = op\<lparr>op_nonce := n\<rparr>) \<and> tx_plan w' = [] \<and>
      w' = w1\<lparr>disk := d, rnd_pos := rnd_pos w1 + aead_NPUBBYTES S, tx := tx w'\<rparr> \<and>
      tx w' = tx w @ frame S (server_tx op) (nonce_at S w 1) (i32_bytes ?ans)"
    unfolding DFFS_Handler__Server_def fresh_nonce_at Let_def
    using w1(1) w1' c_str_of_request [OF name(2)] send
    by (auto simp add: w1(4) is_corrupted_def d(1) split: if_splits)
  then obtain op' w' n where r: "DFFS_Handler__Server S op w = ret ((0, op'), w')" "rx w' = rx w1" "disk w' = d"
    "op' = op\<lparr>op_nonce := n\<rparr>" "tx_plan w' = []"
    "tx w' = tx w @ frame S (server_tx op) (nonce_at S w 1) (i32_bytes ?ans)"
    "w' = w1\<lparr>disk := d, rnd_pos := rnd_pos w1 + aead_NPUBBYTES S, tx := tx w'\<rparr>" by blast
  have "feeds w' rest" using w1(2) r(2) by (simp add: feeds_def)
  moreover have "rnd_pos w1 + aead_NPUBBYTES S = rnd_pos w + 2 * aead_NPUBBYTES S"
    using only_rx_fields(4) [OF w1(3)] by simp
  note final = r(7) [unfolded this, symmetric]
  have "only_rx (w\<lparr>disk := d, rnd_pos := rnd_pos w + 2 * aead_NPUBBYTES S, tx := tx w'\<rparr>) w'"
    using only_rx_tx [OF only_rx_rnd [OF only_rx_disk [OF w1(3)]], of "tx w'" "rnd_pos w + 2 * aead_NPUBBYTES S" d]
    unfolding final by simp
  then have "only_rx (w\<lparr>disk := disk w', rnd_pos := rnd_pos w + 2 * aead_NPUBBYTES S, tx := tx w'\<rparr>) w'"
    unfolding r(3) .
  ultimately show ?thesis using r d by blast
qed

end
