(* ===== verification/FS_Requests.thy ===== *)
theory FS_Requests
  imports FS_Operator
begin

text \<open>
  The rest of the server's handlers (\<open>src/server/read_write_handlers.cpp\<close>): the operator's
  constructor gives the user a directory, the listing sends every name of it, a notice or an
  intent is read as it was sent and anything else is rejected, and requests that cannot be
  served.
\<close>

section \<open>The constructor\<close>

lemma make_dirs_one:
  assumes "c \<noteq> []" "c \<noteq> dot" "c \<noteq> dotdot" "lookup d (cur @ [c]) = None \<or> lookup d (cur @ [c]) = Some Dir"
  obtains d' where "\<And>cs. make_dirs d cur (c # cs) = make_dirs d' (cur @ [c]) cs" "cwd d' = cwd d"
    "lookup d' (cur @ [c]) = Some Dir" "\<And>q. q \<noteq> cur @ [c] \<Longrightarrow> lookup d' q = lookup d q"
proof (cases "lookup d (cur @ [c])")
  case None
  with assms show ?thesis
    by (intro that [of "d\<lparr>entries := entries d @ [(cur @ [c], Dir)]\<rparr>"])
      (simp_all add: lookup_snoc_update)
next
  case (Some n)
  with assms show ?thesis by (intro that [of d]) simp_all
qed

definition top_dir :: cpp_string where "top_dir = str ''MEF_S''"

lemma base_dir_split: "split_slash (base_dir @ u @ [slash]) = top_dir # split_slash u @ [[]]"
proof -
  have "base_dir @ u @ [slash] = top_dir @ slash # (u @ slash # [])"
    by (simp add: base_dir_def top_dir_def str_def slash_def of_char_def horner_sum_simps)
  moreover have "split_slash top_dir = [top_dir]" by code_simp
  ultimately show ?thesis by (simp only: split_slash_append) simp
qed

lemma top_dir_name: "top_dir \<noteq> []" "top_dir \<noteq> dot" "top_dir \<noteq> dotdot" "base_dir \<noteq> []" "hd base_dir \<noteq> slash"
  by code_simp+

text \<open>
  C29. The constructor gives every user with a plain name a directory of his own: after it,
  the operator's prefix resolves to \<open>MEF_S/username\<close> below the working directory, every
  other path is as before (up to \<open>MEF_S\<close> itself), and the caller's copies of the session
  keys are zeroed.
\<close>

theorem FS_Operator_home:
  assumes "plain_name u" "lookup (disk w) (cwd (disk w)) = Some Dir"
    and "lookup (disk w) (cwd (disk w) @ [top_dir]) \<in> {None, Some Dir}"
    and "lookup (disk w) (cwd (disk w) @ [top_dir, u]) \<in> {None, Some Dir}"
  shows "\<exists>op w'. FS_Operator S sock u rxkey txkey w =
       ret ((op, replicate (kx_SESSIONKEYBYTES S) 0, replicate (kx_SESSIONKEYBYTES S) 0), w') \<and>
     home op (disk w') (cwd (disk w) @ [top_dir, u]) \<and> server_rx op = rxkey \<and> server_tx op = txkey \<and>
     (\<forall>q. q \<noteq> cwd (disk w) @ [top_dir] \<and> q \<noteq> cwd (disk w) @ [top_dir, u] \<longrightarrow>
        lookup (disk w') q = lookup (disk w) q)"
proof -
  let ?c = "cwd (disk w)" and ?dir = "base_dir @ u @ [slash]"
  have u: "u \<noteq> []" "u \<noteq> dot" "u \<noteq> dotdot" "split_slash u = [u]"
    using assms(1) by (simp_all add: plain_name_def split_slash_plain)
  have st: "start_dir d ?dir = cwd d" for d
    using top_dir_name(4,5) by (simp add: start_dir_def)
  have "lookup (disk w) (?c @ [top_dir]) = None \<or> lookup (disk w) (?c @ [top_dir]) = Some Dir"
    using assms(3) by blast
  from make_dirs_one [OF top_dir_name(1-3) this]
  obtain d1 where d1: "\<And>cs. make_dirs (disk w) ?c (top_dir # cs) = make_dirs d1 (?c @ [top_dir]) cs"
    "cwd d1 = ?c" "lookup d1 (?c @ [top_dir]) = Some Dir"
    "\<And>q. q \<noteq> ?c @ [top_dir] \<Longrightarrow> lookup d1 q = lookup (disk w) q" by blast
  have "lookup d1 ((?c @ [top_dir]) @ [u]) = None \<or> lookup d1 ((?c @ [top_dir]) @ [u]) = Some Dir"
    using assms(4) d1(4) by simp
  from make_dirs_one [OF u(1-3) this]
  obtain d2 where d2: "\<And>cs. make_dirs d1 (?c @ [top_dir]) (u # cs) = make_dirs d2 ((?c @ [top_dir]) @ [u]) cs"
    "cwd d2 = cwd d1" "lookup d2 ((?c @ [top_dir]) @ [u]) = Some Dir"
    "\<And>q. q \<noteq> (?c @ [top_dir]) @ [u] \<Longrightarrow> lookup d2 q = lookup d1 q" by blast
  have mk: "create_directories (disk w) ?dir = Inr d2"
    by (simp only: create_directories_def st base_dir_split u(4) d1(1) d2(1) append_Cons append_Nil) simp
  have dirs: "lookup d2 ?c = Some Dir" "lookup d2 (?c @ [top_dir]) = Some Dir"
    using assms(2) d1(3,4) d2(4) by simp_all
  have res: "resolve d2 ?dir = Inr (?c @ [top_dir, u])"
    using dirs d2(3) top_dir_name u
    by (simp add: resolve_def st d2(2) d1(2) base_dir_split)
  have "home \<lparr>op_sock = sock, user_dir = ?dir, server_rx = rxkey, server_tx = txkey, op_nonce = nc\<rparr> d2
      (?c @ [top_dir, u])" for nc
    using res d2(3) top_dir_name(4) by (auto simp: home_def)
  moreover have "lookup d2 q = lookup (disk w) q" if "q \<noteq> ?c @ [top_dir]" "q \<noteq> ?c @ [top_dir, u]" for q
    using that d1(4) d2(4) by simp
  ultimately show ?thesis by (auto simp: FS_Operator_def mk randombytes_buf_def)
qed

theorem FS_Operator_home_witness:
  "\<exists>op w'. FS_Operator toy_sodium 4 (str ''w'') [7] [8] (idle_world\<lparr>disk := toy_disk\<rparr>) =
       ret ((op, replicate 32 0, replicate 32 0), w') \<and>
     home op (disk w') [str ''MEF_S'', str ''w'']"
proof -
  let ?w = "idle_world\<lparr>disk := toy_disk\<rparr>"
  have c: "cwd toy_disk = []" by (simp add: toy_disk_def)
  have "plain_name (str ''w'')" "lookup toy_disk [] = Some Dir"
    "lookup toy_disk [top_dir] = Some Dir" "lookup toy_disk [top_dir, str ''w''] = None" by code_simp+
  with FS_Operator_home [of "str ''w''" ?w toy_sodium 4 "[7]" "[8]"] c
  show ?thesis by (auto simp: top_dir_def)
qed

section \<open>Listing\<close>

fun name_frames :: "'st sodium \<Rightarrow> byte list \<Rightarrow> (nat \<Rightarrow> byte list) \<Rightarrow> cpp_string list \<Rightarrow> byte list" where
  "name_frames S key nonces [] = []"
| "name_frames S key nonces (n # ns) =
     frame S key (nonces 0) (n @ [0]) @ name_frames S key (nonces \<circ> Suc) ns"

lemma send_names_frames:
  assumes "session_laws S" "\<forall>n \<in> set names. length n < FILE_ENCRYPTED_CHUNK_SIZE S" "tx_plan w = []"
  shows "\<exists>n. send_names S names op w = ret (op\<lparr>op_nonce := n\<rparr>,
     w\<lparr>rnd_pos := rnd_pos w + length names * aead_NPUBBYTES S,
       tx := tx w @ name_frames S (server_tx op) (nonce_at S w) names\<rparr>)"
  using assms(2,3)
proof (induction names arbitrary: op w)
  case Nil
  show ?case by (rule exI [of _ "op_nonce op"]) simp
next
  case (Cons n ns)
  let ?w = "w\<lparr>rnd_pos := rnd_pos w + aead_NPUBBYTES S\<rparr>"
  let ?w1 = "?w\<lparr>tx := tx w @ frame S (server_tx op) (nonce_at S w 0) (n @ [0])\<rparr>"
  let ?op = "op\<lparr>op_nonce := sodium_increment S (nonce_at S w 0)\<rparr>"
  have "length (n @ [0]) \<le> FILE_ENCRYPTED_CHUNK_SIZE S" using Cons.prems(1) by simp
  from op_send_frame [OF assms(1) _ this, of "op\<lparr>op_nonce := nonce_at S w 0\<rparr>" ?w] Cons.prems(2)
  have send: "op_send S (n @ [0]) (op\<lparr>op_nonce := nonce_at S w 0\<rparr>) ?w = ret (?op, ?w1)" by simp
  have "nonce_at S ?w1 = nonce_at S w \<circ> Suc" using nonce_at_Suc by (fastforce simp: nonce_at_def)
  moreover obtain n' where "send_names S ns ?op ?w1 = ret (op\<lparr>op_nonce := n'\<rparr>,
     ?w1\<lparr>rnd_pos := rnd_pos ?w1 + length ns * aead_NPUBBYTES S,
       tx := tx ?w1 @ name_frames S (server_tx op) (nonce_at S ?w1) ns\<rparr>)"
    using Cons.IH [of ?w1 ?op] Cons.prems by auto
  ultimately show ?case by (auto simp: fresh_nonce_at send add.assoc)
qed

lemma LFFS_run:
  assumes "session_laws S" "tx_plan w = []" "home op (disk w) p"
    and "\<forall>n \<in> set (children (disk w) p). length n < FILE_ENCRYPTED_CHUNK_SIZE S"
  shows "\<exists>op' w'. LFFS_Handler__Server S op w = ret ((0, op'), w') \<and> disk w' = disk w \<and> rx w' = rx w \<and>
     tx w' = tx w @
       frame S (server_tx op) (nonce_at S w 0) (i32_bytes (word_of_nat (length (children (disk w) p)))) @
       name_frames S (server_tx op) (nonce_at S w \<circ> Suc) (children (disk w) p) \<and>
     (\<exists>n. op' = op\<lparr>op_nonce := n\<rparr>) \<and> tx_plan w' = [] \<and>
     w' = w\<lparr>rnd_pos := rnd_pos w + (1 + length (children (disk w) p)) * aead_NPUBBYTES S, tx := tx w'\<rparr>"
proof -
  let ?ns = "children (disk w) p" and ?w = "w\<lparr>rnd_pos := rnd_pos w + aead_NPUBBYTES S\<rparr>"
  let ?f = "frame S (server_tx op) (nonce_at S w 0) (i32_bytes (word_of_nat (length ?ns)))"
  let ?op = "op\<lparr>op_nonce := sodium_increment S (nonce_at S w 0)\<rparr>" and ?w1 = "?w\<lparr>tx := tx w @ ?f\<rparr>"
  have names: "directory_names (disk w) (user_dir op) = Inr ?ns"
    using assms(3) by (simp add: directory_names_def home_def)
  have send: "op_send S (i32_bytes (word_of_nat (length ?ns))) (op\<lparr>op_nonce := nonce_at S w 0\<rparr>) ?w = ret (?op, ?w1)"
    using op_send_frame [OF assms(1) _ i32_fits [OF assms(1)], of "op\<lparr>op_nonce := nonce_at S w 0\<rparr>" ?w] assms(2)
    by simp
  have "nonce_at S ?w1 = nonce_at S w \<circ> Suc" using nonce_at_Suc by (fastforce simp: nonce_at_def)
  moreover obtain n' where "send_names S ?ns ?op ?w1 = ret (op\<lparr>op_nonce := n'\<rparr>,
     ?w1\<lparr>rnd_pos := rnd_pos ?w1 + length ?ns * aead_NPUBBYTES S,
       tx := tx ?w1 @ name_frames S (server_tx op) (nonce_at S ?w1) ?ns\<rparr>)"
    using send_names_frames [OF assms(1,4), of ?w1 ?op] assms(2) by auto
  ultimately show ?thesis using assms(2) by (simp add: LFFS_Handler__Server_def names fresh_nonce_at send) blast
qed

section \<open>Notices and intents\<close>

text \<open>
  C30. Nothing but a message encrypted under the session key starts an action: a notice that
  is accepted, and an intent other than \<open>INVALID_READ_INTENT\<close>, came out of a ciphertext
  that encrypts at most four bytes under the operator's receiving key.
\<close>

theorem actions_authentic:
  assumes "aead_laws S"
    and "receive_notice_of_new_action S op w = ret (0, w') \<or>
         (read_intent S op w = ret (v, w') \<and> v \<noteq> INVALID_READ_INTENT)"
  shows "\<exists>wrap m. SessionEncWrapper_reader S w = ret (wrap, w') \<and>
     aead_encrypt S m (wrap_nonce wrap) (server_rx op) = Some (session_encrypted_data wrap) \<and> length m \<le> 4"
proof -
  let ?un = "\<lambda>wrap. unwrap S wrap (server_rx op) 4 (uninit 4 w') (u64_of_bytes (uninit 8 w'))"
  from assms(2) obtain wrap where wrap: "SessionEncWrapper_reader S w = ret (wrap, w')"
    and nc: "\<not> corrupted wrap" and rc: "fst (?un wrap) = 0"
    by (auto simp: receive_notice_of_new_action_def read_intent_def andthen_eq_ret_iff is_corrupted_def
        split: if_splits prod.splits)
  obtain m where m: "aead_decrypt S (session_encrypted_data wrap) (wrap_nonce wrap) (server_rx op) = Some m"
    and c: "\<not> (4 :: u64) < session_encrypted_data_length wrap - word_of_nat (aead_ABYTES S)"
    using rc nc by (auto simp: unwrap_def split: if_splits option.splits)
  have ok: "reader_ok S wrap" using reader_wrapper_ok [OF wrap] .
  have len: "length (session_encrypted_data wrap) = unat (session_encrypted_data_length wrap)"
    using ok nc by (simp add: reader_ok_def)
  have lm: "length (session_encrypted_data wrap) = length m + aead_ABYTES S"
    using aead_decrypt_length [OF assms(1) m] .
  have "session_encrypted_data_length wrap = word_of_nat (length m + aead_ABYTES S)"
    unfolding lm [symmetric] len by simp
  then have "session_encrypted_data_length wrap - word_of_nat (aead_ABYTES S) = word_of_nat (length m)"
    by simp
  moreover have "length m < 2 ^ 64" using lm len unat_u64_less [of "session_encrypted_data_length wrap"] by simp
  ultimately have "length m \<le> 4" using c by (simp add: word_less_nat_alt unat_of_nat_u64)
  with wrap aead_decrypt_sound [OF assms(1) m] show ?thesis by blast
qed

theorem actions_authentic_witness:
  "\<exists>wrap m w'. SessionEncWrapper_reader toy_sodium
       (idle_world\<lparr>rx := [Seg (frame toy_sodium [7] (replicate 8 0) (i32_bytes 88))]\<rparr>) = ret (wrap, w') \<and>
     aead_encrypt toy_sodium m (wrap_nonce wrap) [7] = Some (session_encrypted_data wrap) \<and> length m \<le> 4"
proof -
  let ?w = "idle_world\<lparr>rx := [Seg (frame toy_sodium [7] (replicate 8 0) (i32_bytes NEW_ACTION))]\<rparr>"
  have "feeds ?w (frame toy_sodium (server_rx toy_op) (replicate 8 0) (i32_bytes NEW_ACTION) @ [])"
    by (simp add: feeds_def toy_op_def)
  from readerE [OF toy_session _ i32_fits [OF toy_session] this] obtain w1 where
    "SessionEncWrapper_reader toy_sodium ?w =
      ret (framed (sealed toy_sodium (server_rx toy_op) (replicate 8 0) (i32_bytes NEW_ACTION)), w1)" by auto
  then have "receive_notice_of_new_action toy_sodium toy_op ?w = ret (0, w1)"
    by (simp add: receive_notice_of_new_action_def is_corrupted_def unwrap_i32 [OF toy_session])
  from actions_authentic [OF toy_aead disjI1 [OF this]] show ?thesis
    by (auto simp: toy_op_def NEW_ACTION_def)
qed

section \<open>Requests that cannot be served\<close>

lemma RFFS_missing_run:
  assumes S: "session_laws S" "length nonce = aead_NPUBBYTES S"
    and name: "length name < PRE_EXT_FILE_NAME_LEN" "0 \<notin> set name" "plain_name name"
    and f: "home op (disk w) p" "lookup (disk w) (p @ [name]) = None"
    and w: "feeds w (frame S (server_rx op) nonce (name @ [0]) @ rest)"
  shows "\<exists>op' w'. RFFS_Handler__Server S op w = ret ((1, op'), w') \<and> feeds w' rest \<and>
     disk w' = disk w \<and> tx w' = tx w \<and> (\<exists>n. op' = op\<lparr>op_nonce := n\<rparr>) \<and> tx_plan w' = tx_plan w \<and>
     only_rx (w\<lparr>rnd_pos := rnd_pos w + aead_NPUBBYTES S\<rparr>) w'"
proof -
  let ?w = "w\<lparr>rnd_pos := rnd_pos w + aead_NPUBBYTES S\<rparr>"
  have "feeds ?w (frame S (server_rx op) nonce (name @ [0]) @ rest)" using w by (simp add: feeds_def)
  from requestE [OF S name(1) this] obtain w1 where w1: "SessionEncWrapper_reader S ?w =
      ret (framed (sealed S (server_rx op) nonce (name @ [0])), w1)" "feeds w1 rest" "only_rx ?w w1"
    "\<And>b l. unwrap S (framed (sealed S (server_rx op) nonce (name @ [0]))) (server_rx op) PRE_EXT_FILE_NAME_LEN b l =
       (0, framed (sealed S (server_rx op) nonce (name @ [0])), write_into b (name @ [0]),
        word_of_nat (length (name @ [0])))" by blast
  have w1': "tx w1 = tx w" "disk w1 = disk w" "tx_plan w1 = tx_plan w"
    using only_rx_fields(1,2,6) [OF w1(3)] by simp_all
  have "\<not> stream_ok (open_in (disk w) (user_dir op @ name))"
    using home_resolve [OF f(1) name(3)] f(2) by (simp add: open_in_def stream_ok_def)
  then show ?thesis
    using w1(1,2,3) w1' c_str_of_request [OF name(2)]
    by (auto simp: RFFS_Handler__Server_def fresh_nonce_at w1(4) is_corrupted_def)
qed

text \<open>
  C38. A download or a deletion takes names of at most 249 bytes, although uploads are stored
  under longer ones. Any longer name is refused (code 2 and code 1), nothing is sent in answer
  and the disk stays as it is.
\<close>

theorem long_names_refused:
  assumes S: "session_laws S" "length nonce = aead_NPUBBYTES S"
    and name: "PRE_EXT_FILE_NAME_LEN \<le> length name" "length name < FILE_ENCRYPTED_CHUNK_SIZE S"
    and w: "feeds w (frame S (server_rx op) nonce (name @ [0]) @ rest)"
  shows "(\<exists>op' w'. RFFS_Handler__Server S op w = ret ((2, op'), w') \<and> feeds w' rest \<and> disk w' = disk w \<and> tx w' = tx w) \<and>
     (\<exists>op' w'. DFFS_Handler__Server S op w = ret ((1, op'), w') \<and> feeds w' rest \<and> disk w' = disk w \<and> tx w' = tx w)"
proof -
  let ?w = "w\<lparr>rnd_pos := rnd_pos w + aead_NPUBBYTES S\<rparr>"
  have fit: "length (name @ [0]) \<le> FILE_ENCRYPTED_CHUNK_SIZE S" "PRE_EXT_FILE_NAME_LEN < length (name @ [0])"
    using name by simp_all
  have "feeds ?w (frame S (server_rx op) nonce (name @ [0]) @ rest)" using w by (simp add: feeds_def)
  from readerE [OF S fit(1) this] obtain w1 where w1: "SessionEncWrapper_reader S ?w =
      ret (framed (sealed S (server_rx op) nonce (name @ [0])), w1)" "feeds w1 rest" "only_rx ?w w1" .
  have w1': "tx w1 = tx w" "disk w1 = disk w" using only_rx_fields(1,6) [OF w1(3)] by simp_all
  note u = unwrap_too_long [OF S fit]
  have "RFFS_Handler__Server S op w = ret ((2, op\<lparr>op_nonce := nonce_at S w 0\<rparr>), w1)"
    by (simp add: RFFS_Handler__Server_def fresh_nonce_at w1(1) u is_corrupted_def)
  moreover have "DFFS_Handler__Server S op w = ret ((1, op\<lparr>op_nonce := nonce_at S w 0\<rparr>), w1)"
    by (simp add: DFFS_Handler__Server_def fresh_nonce_at w1(1) u is_corrupted_def)
  ultimately show ?thesis using w1(2) w1' by blast
qed

theorem long_names_refused_witness:
  "\<exists>op' w'. RFFS_Handler__Server toy_sodium toy_op (idle_world\<lparr>disk := toy_disk, rx :=
       [Seg (frame toy_sodium [7] (replicate 8 0) (replicate 250 65 @ [0]))]\<rparr>) = ret ((2, op'), w') \<and> tx w' = []"
proof -
  let ?w = "idle_world\<lparr>disk := toy_disk, rx := [Seg (frame toy_sodium [7] (replicate 8 0) (replicate 250 65 @ [0]))]\<rparr>"
  have f: "feeds ?w (frame toy_sodium (server_rx toy_op) (replicate 8 0) (replicate 250 65 @ [0]) @ [])"
    by (simp add: feeds_def toy_op_def)
  have n: "length (replicate 8 0 :: byte list) = aead_NPUBBYTES toy_sodium"
    "PRE_EXT_FILE_NAME_LEN \<le> length (replicate 250 (65 :: byte))"
    "length (replicate 250 (65 :: byte)) < FILE_ENCRYPTED_CHUNK_SIZE toy_sodium"
    by (simp_all add: PRE_EXT_FILE_NAME_LEN_def)
  from long_names_refused [OF toy_session n f] show ?thesis by (auto simp: idle_world_def)
qed

text \<open>
  A request for a directory (the name \<open>.\<close> is enough) opens, never delivers a byte and never
  reaches the end of the file: the download loop sends empty blocks for ever.
\<close>

lemma op_send_returns:
  assumes "session_laws S" "length data \<le> FILE_ENCRYPTED_CHUNK_SIZE S"
  obtains op' w' where "op_send S data op w = ret (op', w')"
proof -
  from assms(1) have "aead_laws S" by (simp add: session_laws_def)
  then obtain c where "aead_encrypt S data (sodium_increment S (op_nonce op)) (server_tx op) = Some c"
    "length c = length data + aead_ABYTES S" by (rule aead_encryptE)
  with assms(2) that show ?thesis
    by (auto simp: op_send_def session_send_def SessionEncWrapper_sender_def encrypt_stream_buffer_def
        stream_chunk_size_def FILE_ENCRYPTED_CHUNK_SIZE_def)
qed

lemma RFFS_loop_directory:
  fixes f :: ifstream
  assumes "session_laws S" "\<not> eofbit f" "badbit f"
  shows "RFFS_loop S f op w = None"
proof (rule ccontr)
  assume "RFFS_loop S f op w \<noteq> None"
  then obtain r where run: "RFFS_loop S f op w = Some r" by auto
  let ?P = "\<lambda>S f (op :: fs_operator) (w :: world) (r :: fault + (int \<times> fs_operator) \<times> world).
    \<not> (session_laws S \<and> \<not> eofbit f \<and> badbit f)"
  have "?P S f op w r"
  proof (rule RFFS_loop.raw_induct [where P = ?P, OF _ run], rule notI)
    fix loop S and f :: ifstream and op w r
    assume IH: "\<And>S f op w r. loop S f op w = Some r \<Longrightarrow> ?P S f op w r"
      and eq: "(let (chunk, file) = read_in (FILE_ENCRYPTED_CHUNK_SIZE S) f in
      andthen (op_send S (i32_bytes (if eofbit file then END_CHUNK else MEAT_CHUNK)) op w) (\<lambda>(op, w).
        let w = snd (send_raw_blob chunk w) in
        if eofbit file then ret ((0, op), w) else loop S file op w)) = Some r"
      and c: "session_laws S \<and> \<not> eofbit f \<and> badbit f"
    obtain op' w' where "op_send S (i32_bytes MEAT_CHUNK) op w = ret (op', w')"
      using op_send_returns [OF conjunct1 [OF c] i32_fits [OF conjunct1 [OF c]]] .
    with eq c have "loop S (f\<lparr>failbit := True\<rparr>) op' (snd (send_raw_blob [] w')) = Some r"
      by (simp add: read_in_def)
    with IH c show False by fastforce
  qed
  with assms show False by simp
qed

lemma RFFS_hangs:
  assumes S: "session_laws S" and w1: "SessionEncWrapper_reader S (snd (fresh_nonce S op w)) = ret (wrap, w1)" "\<not> corrupted wrap"
    and u: "unwrap S wrap (server_rx op) PRE_EXT_FILE_NAME_LEN (uninit MAX_FILE_NAME_LENGTH w1) (u64_of_bytes (uninit 8 w1)) =
        (0, wrap', buf, len)" "c_str buf = Some name"
    and o: "in_src (open_in (disk w1) (user_dir op @ name)) = Directory"
  shows "RFFS_Handler__Server S op w = None"
proof -
  have o: "open_in (disk w1) (user_dir op @ name) = \<lparr>in_src = Directory, eofbit = False, failbit = False, badbit = False\<rparr>"
    using o by (auto simp: open_in_def split: sum.splits option.splits node.splits)
  have sz: "sodium_sizes S" using S by (simp add: session_laws_def)
  have fit: "length (write_into (uninit (ss_HEADERBYTES S) v) []) \<le> FILE_ENCRYPTED_CHUNK_SIZE S"
    "length (write_into (uninit (pwhash_SALTBYTES S) v) []) \<le> FILE_ENCRYPTED_CHUNK_SIZE S" for v
    using chunk_sizes [OF sz] sodium_sizesD [OF sz] by simp_all
  obtain op1 w2 where w2: "op_send S (write_into (uninit (ss_HEADERBYTES S) w1) [])
      (op\<lparr>op_nonce := nonce_at S w 0\<rparr>) w1 = ret (op1, w2)"
    using op_send_returns [OF S fit(1)] by blast
  obtain op2 w3 where w3: "op_send S (write_into (uninit (pwhash_SALTBYTES S) w2) []) op1 w2 = ret (op2, w3)"
    using op_send_returns [OF S fit(2)] by blast
  show ?thesis
    using w1 w2 w3 u o
    by (simp add: RFFS_Handler__Server_def fresh_nonce_at is_corrupted_def stream_ok_def
        read_in_def RFFS_loop_directory [OF S])
qed

text \<open>The name \<open>.\<close> always leads to the user's own directory.\<close>

lemma home_dot:
  assumes "home op d p"
  shows "resolve d (user_dir op @ dot) = Inr p" "lookup d p = Some Dir"
proof -
  obtain s where s: "s \<noteq> []" "user_dir op = s @ [slash]" using assms by (auto simp: home_def)
  with assms show "resolve d (user_dir op @ dot) = Inr p" using resolve_dot [of d s p] by (simp add: home_def)
  from assms show "lookup d p = Some Dir" by (simp add: home_def)
qed

text \<open>
  C37. An authenticated client can occupy a worker for ever: a download request for any name
  that leads to a directory (the user's own, with \<open>.\<close>, or one above it, with \<open>..\<close>) never
  returns, whatever the client does afterwards.
\<close>

theorem RFFS_directory_hangs:
  assumes S: "session_laws S" "length nonce = aead_NPUBBYTES S"
    and name: "length name < PRE_EXT_FILE_NAME_LEN" "0 \<notin> set name"
    and dir: "resolve (disk w) (user_dir op @ name) = Inr p" "lookup (disk w) p = Some Dir"
    and w: "feeds w (frame S (server_rx op) nonce (name @ [0]) @ rest)"
  shows "RFFS_Handler__Server S op w = None"
proof -
  let ?w = "w\<lparr>rnd_pos := rnd_pos w + aead_NPUBBYTES S\<rparr>"
  have f: "feeds ?w (frame S (server_rx op) nonce (name @ [0]) @ rest)" using w by (simp add: feeds_def)
  obtain w1 where w1: "SessionEncWrapper_reader S ?w =
      ret (framed (sealed S (server_rx op) nonce (name @ [0])), w1)" "only_rx ?w w1"
    "\<And>b l. unwrap S (framed (sealed S (server_rx op) nonce (name @ [0]))) (server_rx op) PRE_EXT_FILE_NAME_LEN b l =
       (0, framed (sealed S (server_rx op) nonce (name @ [0])), write_into b (name @ [0]),
        word_of_nat (length (name @ [0])))"
    using requestE [OF S name(1) f] by blast
  have disk: "disk w1 = disk w" using only_rx_fields(6) [OF w1(2)] by simp
  have o: "in_src (open_in (disk w) (user_dir op @ name)) = Directory" using dir by (simp add: open_in_def)
  have "SessionEncWrapper_reader S (snd (fresh_nonce S op w)) =
      ret (framed (sealed S (server_rx op) nonce (name @ [0])), w1)" using w1(1) by (simp add: fresh_nonce_at)
  from RFFS_hangs [OF S(1) this _ w1(3) c_str_of_request [OF name(2)]] show ?thesis by (simp add: disk o)
qed

text \<open>The directory of all users, above that of the user.\<close>

theorem RFFS_directory_hangs_witness:
  "RFFS_Handler__Server toy_sodium toy_op (idle_world\<lparr>disk := toy_disk, rx :=
       [Seg (frame toy_sodium [7] (replicate 8 0) (dotdot @ [0]))]\<rparr>) = None"
proof (rule RFFS_directory_hangs [OF toy_session])
  let ?w = "idle_world\<lparr>disk := toy_disk, rx := [Seg (frame toy_sodium [7] (replicate 8 0) (dotdot @ [0]))]\<rparr>"
  show "length (replicate 8 0 :: byte list) = aead_NPUBBYTES toy_sodium" by simp
  show "length dotdot < PRE_EXT_FILE_NAME_LEN" "0 \<notin> set dotdot" by code_simp+
  have "resolve toy_disk (user_dir toy_op @ dotdot) = Inr [str ''MEF_S'']" "lookup toy_disk [str ''MEF_S''] = Some Dir"
    by code_simp+
  then show "resolve (disk ?w) (user_dir toy_op @ dotdot) = Inr [str ''MEF_S'']" "lookup (disk ?w) [str ''MEF_S''] = Some Dir"
    by simp_all
  show "feeds ?w (frame toy_sodium (server_rx toy_op) (replicate 8 0) (dotdot @ [0]) @ [])"
    by (simp add: feeds_def toy_op_def)
qed

end
