(* ===== verification/Auth.thy ===== *)
theory Auth
  imports Session_Enc
begin

text \<open>
  Authentication on the server: \<open>login\<close> and \<open>initialize_server\<close> (\<open>src/server/auth.cpp\<close>)
  and \<open>verify_credentials\<close> (\<open>src/server/server.cpp\<close>). The database library (sqlite) is a
  parameter: whether the statement can be prepared, and the row it yields for a user name. The
  theorems: nobody gets in unless the stored hash accepts the password he sent; honest
  credentials are answered according to the database; the buffers are wiped after a login.
\<close>

section \<open>The database\<close>

text \<open>
  \<open>db_row DB u\<close> is the result of stepping the statement for the user \<open>u\<close>: no row, or a row
  whose column is the text or \<open>NULL\<close>.
\<close>

record sqlite3 =
  db_prepare :: bool
  db_row :: "cpp_string \<Rightarrow> cpp_string option option"

text \<open>\<open>sodium_memzero\<close> of a prefix; the length is not checked against the buffer.\<close>

definition memzero :: "byte list \<Rightarrow> nat \<Rightarrow> byte list run" where
  "memzero buf n = (if length buf < n then fails Out_Of_Bounds else ret (replicate n 0 @ drop n buf))"

definition login ::
    "'st sodium \<Rightarrow> sqlite3 \<Rightarrow> byte list \<Rightarrow> u64 \<Rightarrow> byte list \<Rightarrow> u64 \<Rightarrow> (int \<times> byte list \<times> byte list) run" where
  "login S DB username username_len password password_len =
     (if \<not> db_prepare DB then ret (1, username, password)
      else (case c_str username of
          None \<Rightarrow> fails Out_Of_Bounds
        | Some u \<Rightarrow> (case db_row DB u of
              None \<Rightarrow> ret (1, username, password)
            | Some None \<Rightarrow> fails Out_Of_Bounds
            | Some (Some db_password_hash) \<Rightarrow>
                if length password < unat password_len then fails Out_Of_Bounds
                else if \<not> pwhash_str_verify S db_password_hash (take (unat password_len) password)
                  then ret (1, username, password)
                else
                  andthen (memzero username (unat username_len)) (\<lambda>username.
                  andthen (memzero password (unat password_len)) (\<lambda>password.
                  ret (0, username, password))))))"

text \<open>The return code of \<open>sqlite3_open\<close> on the file \<open>MEFSC_DB.db\<close>, and the handle.\<close>

definition initialize_server :: "(cpp_string \<Rightarrow> int \<times> sqlite3) \<Rightarrow> int \<times> sqlite3" where
  "initialize_server sqlite3_open =
     (let (exit, DB) = sqlite3_open (str ''MEFSC_DB.db'') in if exit \<noteq> 0 then (1, DB) else (0, DB))"

text \<open>
  The return code and the user name. The results of the two \<open>unwrap\<close> calls are not looked at.
\<close>

definition verify_credentials ::
    "'st sodium \<Rightarrow> sqlite3 \<Rightarrow> byte list \<Rightarrow> world \<Rightarrow> ((int \<times> cpp_string) \<times> world) run" where
  "verify_credentials S DB rxkey w =
     (let cell = u64_of_bytes (uninit 8 w); buf = uninit (FILE_ENCRYPTED_CHUNK_SIZE S) w in
      andthen (SessionEncWrapper_reader S w) (\<lambda>(username_wrapper, w).
      let (_, _, decrypted_username, decrypted_username_len) =
            unwrap S username_wrapper rxkey (FILE_ENCRYPTED_CHUNK_SIZE S) buf cell in
      (case c_str decrypted_username of
         None \<Rightarrow> fails Out_Of_Bounds
       | Some username \<Rightarrow>
           andthen (SessionEncWrapper_reader S w) (\<lambda>(password_wrapper, w).
           let (_, _, decrypted_password, decrypted_password_len) =
                 unwrap S password_wrapper rxkey (FILE_ENCRYPTED_CHUNK_SIZE S) buf cell in
           andthen (login S DB decrypted_username decrypted_username_len
                      decrypted_password decrypted_password_len) (\<lambda>(rc, _, _).
           if rc \<noteq> 0 then ret ((1, username), w) else ret ((0, username), w))))))"

lemma verify_credentials_quiet: "quiet w (verify_credentials S DB rxkey w)"
proof -
  have "quiet w (andthen (login S DB a b c d) (\<lambda>(rc, _, _). if rc \<noteq> 0 then ret ((1, u), v) else ret ((0, u), v)))"
    if "only_rx w v" for a b c d u v
    using that by (auto simp: quiet_def andthen_eq_ret_iff split: if_splits)
  then show ?thesis
    unfolding verify_credentials_def Let_def
    by (intro quiet_andthen [OF quiet_reader])
      (auto split: prod.splits option.splits intro!: quiet_andthen [OF quiet_reader])
qed

section \<open>Nobody gets in without a matching password\<close>

lemma login_sound:
  assumes "login S DB ub ul pb pl = ret (0, ub', pb')"
  shows "\<exists>u h. c_str ub = Some u \<and> db_row DB u = Some (Some h) \<and>
     pwhash_str_verify S h (take (unat pl) pb) \<and>
     take (unat ul) ub' = replicate (unat ul) 0 \<and> take (unat pl) pb' = replicate (unat pl) 0"
  using assms
  by (auto simp: login_def memzero_def andthen_eq_ret_iff split: if_splits option.splits)

text \<open>
  The next frame of the input, unwrapped into a buffer that held \<open>buf\<close> and a length cell that
  held \<open>len\<close>, leaves \<open>b\<close> and \<open>l\<close> there. If it unwraps with code 0, the first \<open>l\<close> bytes of the
  buffer are what somebody encrypted under the key.
\<close>

definition unwraps_to ::
    "'st sodium \<Rightarrow> byte list \<Rightarrow> world \<Rightarrow> byte list \<Rightarrow> u64 \<Rightarrow> byte list \<Rightarrow> u64 \<Rightarrow> world \<Rightarrow> bool" where
  "unwraps_to S key w buf len b l w' \<longleftrightarrow> (\<exists>wrap rc wrap'.
     SessionEncWrapper_reader S w = ret (wrap, w') \<and> unwrap S wrap key (length buf) buf len = (rc, wrap', b, l) \<and>
     (rc = 0 \<longrightarrow> unat l \<le> length b \<and>
        aead_encrypt S (take (unat l) b) (wrap_nonce wrap) key = Some (session_encrypted_data wrap)))"

lemma unwraps_toI:
  assumes "aead_laws S" "SessionEncWrapper_reader S w = ret (wrap, w')"
    and u: "unwrap S wrap key (length buf) buf len = (rc, wrap', b, l)"
  shows "unwraps_to S key w buf len b l w'"
proof -
  have "unat l \<le> length b \<and> aead_encrypt S (take (unat l) b) (wrap_nonce wrap) key = Some (session_encrypted_data wrap)"
    if "rc = 0"
  proof -
    from u that obtain m where m: "aead_decrypt S (session_encrypted_data wrap) (wrap_nonce wrap) key = Some m"
      and b: "b = write_into buf m" "l = word_of_nat (length m)" and "\<not> corrupted wrap"
      by (auto simp: unwrap_def split: if_splits option.splits)
    with reader_wrapper_ok [OF assms(2)] aead_decrypt_length [OF assms(1) m]
    have "length m \<le> unat (session_encrypted_data_length wrap)" by (simp add: reader_ok_def)
    with unat_u64_less [of "session_encrypted_data_length wrap"] have "unat l = length m"
      by (simp add: b(2) unat_of_nat_u64)
    with aead_decrypt_sound [OF assms(1) m] show ?thesis by (simp add: b(1))
  qed
  with assms(2) u show ?thesis unfolding unwraps_to_def by blast
qed

text \<open>
  The user name and the password of a connection: what its next two frames left in the two
  buffers, the name up to the first zero, the password as long as its length cell says.
\<close>

definition presented :: "'st sodium \<Rightarrow> byte list \<Rightarrow> world \<Rightarrow> cpp_string \<Rightarrow> byte list \<Rightarrow> world \<Rightarrow> bool" where
  "presented S rxkey w u pw w' \<longleftrightarrow> (\<exists>ub ul w1 pb pl.
     unwraps_to S rxkey w (uninit (FILE_ENCRYPTED_CHUNK_SIZE S) w) (u64_of_bytes (uninit 8 w)) ub ul w1 \<and>
     unwraps_to S rxkey w1 (uninit (FILE_ENCRYPTED_CHUNK_SIZE S) w) (u64_of_bytes (uninit 8 w)) pb pl w' \<and>
     c_str ub = Some u \<and> pw = take (unat pl) pb)"

lemma verify_sound:
  assumes "aead_laws S" "verify_credentials S DB rxkey w = ret ((0, u), w')"
  shows "\<exists>h pw. presented S rxkey w u pw w' \<and> db_prepare DB \<and> db_row DB u = Some (Some h) \<and>
     pwhash_str_verify S h pw"
proof -
  let ?buf = "uninit (FILE_ENCRYPTED_CHUNK_SIZE S) w" and ?cell = "u64_of_bytes (uninit 8 w)"
  let ?un = "\<lambda>wrap. unwrap S wrap rxkey (length ?buf) ?buf ?cell"
  from assms(2) obtain uw w1 pw r where
    r: "SessionEncWrapper_reader S w = ret (uw, w1)" "SessionEncWrapper_reader S w1 = ret (pw, w')"
    and c: "c_str (fst (snd (snd (?un uw)))) = Some u"
    and lo: "login S DB (fst (snd (snd (?un uw)))) (snd (snd (snd (?un uw))))
       (fst (snd (snd (?un pw)))) (snd (snd (snd (?un pw)))) = ret r" "fst r = 0"
    by (auto simp: verify_credentials_def Let_def andthen_eq_ret_iff split_beta split: option.splits if_splits)
  obtain rc uw' ub ul where u1: "?un uw = (rc, uw', ub, ul)" by (metis prod_cases4)
  obtain rc' pw' pb pl where u2: "?un pw = (rc', pw', pb, pl)" by (metis prod_cases4)
  note l = lo [unfolded u1 u2 fst_conv snd_conv] and u = u1 c [unfolded u1 fst_conv snd_conv] u2
  have "presented S rxkey w u (take (unat pl) pb) w'"
    unfolding presented_def
    using unwraps_toI [OF assms(1) r(1) u(1)] unwraps_toI [OF assms(1) r(2) u(3)] u(2) by blast
  moreover obtain ub' pb' where l': "login S DB ub ul pb pl = ret (0, ub', pb')" using l by (cases r) auto
  moreover from l' have "db_prepare DB" by (auto simp: login_def split: if_splits)
  ultimately show ?thesis using login_sound [OF l'] u(2) by auto
qed

text \<open>
  C19. On any input whatever: if \<open>verify_credentials\<close> accepts, then the user it names is the
  content of the first frame, that user has a row in the database, and its hash accepted
  exactly the password the second frame carried, encrypted under the session key; only when
  that frame does not unwrap, which the code does not look at, is the password what the
  buffer held before.
\<close>

theorem auth_sound:
  assumes "aead_laws S" "verify_credentials S DB rxkey w = ret ((0, u), w')"
  shows "\<exists>h pw. presented S rxkey w u pw w' \<and> db_prepare DB \<and> db_row DB u = Some (Some h) \<and>
     pwhash_str_verify S h pw"
  using assms by (rule verify_sound)

section \<open>Honest credentials\<close>

text \<open>The two messages a client sends: both strings with their terminating zero.\<close>

definition credential_bytes :: "'st sodium \<Rightarrow> byte list \<Rightarrow> byte list \<Rightarrow> cpp_string \<Rightarrow> cpp_string \<Rightarrow> byte list" where
  "credential_bytes S key nonce u p =
     frame S key nonce (u @ [0]) @ frame S key (sodium_increment S nonce) (p @ [0])"

definition accepts :: "'st sodium \<Rightarrow> sqlite3 \<Rightarrow> cpp_string \<Rightarrow> cpp_string \<Rightarrow> bool" where
  "accepts S DB u p \<longleftrightarrow> db_prepare DB \<and>
     (\<exists>h. db_row DB u = Some (Some h) \<and> pwhash_str_verify S h (p @ [0]))"

lemma login_honest:
  assumes "0 \<notin> set u" "db_row DB u \<noteq> Some None" "length u < 65553" "length p < 65553"
    and "ub = write_into buf (u @ [0])" "pb = write_into buf (p @ [0])"
  shows "\<exists>ub' pb'. login S DB ub (word_of_nat (length u + 1)) pb (word_of_nat (length p + 1)) =
     ret (if accepts S DB u p then 0 else 1, ub', pb')"
proof -
  have u: "unat (word_of_nat (length u + 1) :: u64) = length (u @ [0 :: byte])"
    and p: "unat (word_of_nat (length p + 1) :: u64) = length (p @ [0 :: byte])"
    using unat_of_nat_u64 [of "length u + 1"] unat_of_nat_u64 [of "length p + 1"] assms(3,4) by simp_all
  have c: "c_str ub = Some u"
    using c_str_terminated [OF assms(1)] assms(5) by (simp add: write_into_def)
  have t: "take (length (p @ [0 :: byte])) pb = p @ [0]" unfolding assms(6) by (rule take_write_into)
  have l: "\<not> length ub < length (u @ [0 :: byte])" "\<not> length pb < length (p @ [0 :: byte])"
    using assms(5,6) by simp_all
  show ?thesis
    unfolding login_def u p t memzero_def accepts_def c
    using l assms(2) by (auto split: option.splits simp del: length_append)
qed

text \<open>
  Honest credentials are answered according to the database: the user is accepted exactly when
  there is a row for the name and its hash accepts the password with its terminating zero, and
  the name handed on is the one that was sent.
\<close>

lemma verify_honest:
  assumes S: "session_laws S" "length nonce = aead_NPUBBYTES S"
    and up: "0 \<notin> set u" "length u < FILE_ENCRYPTED_CHUNK_SIZE S" "length p < FILE_ENCRYPTED_CHUNK_SIZE S"
    and db: "db_row DB u \<noteq> Some None"
    and w: "feeds w (credential_bytes S rxkey nonce u p @ rest)"
  shows "\<exists>w'. verify_credentials S DB rxkey w = ret ((if accepts S DB u p then 0 else 1, u), w') \<and>
     feeds w' rest \<and> only_rx w w'"
proof -
  let ?cap = "FILE_ENCRYPTED_CHUNK_SIZE S" and ?n = "sodium_increment S nonce"
  let ?buf = "uninit ?cap w"
  have sz: "sodium_sizes S" using S(1) by (simp add: session_laws_def)
  have cap: "?cap = 65553" using chunk_sizes [OF sz] by simp
  have n: "length ?n = aead_NPUBBYTES S" using S length_increment by metis
  have fit: "length (u @ [0]) \<le> ?cap" "length (p @ [0]) \<le> ?cap" "?cap < 2 ^ 64" using up cap by simp_all
  from w have w0: "feeds w (frame S rxkey nonce (u @ [0]) @ frame S rxkey ?n (p @ [0]) @ rest)"
    by (simp add: credential_bytes_def)
  obtain w1 where w1: "SessionEncWrapper_reader S w = ret (framed (sealed S rxkey nonce (u @ [0])), w1)"
    "feeds w1 (frame S rxkey ?n (p @ [0]) @ rest)" "only_rx w w1"
    using readerE [OF S fit(1) w0] .
  obtain w2 where w2: "SessionEncWrapper_reader S w1 = ret (framed (sealed S rxkey ?n (p @ [0])), w2)"
    "feeds w2 rest" "only_rx w1 w2"
    using readerE [OF S(1) n fit(2) w1(2)] .
  have c: "c_str (write_into ?buf (u @ [0])) = Some u"
    using c_str_terminated [OF up(1)] by (simp add: write_into_def)
  have lt: "length u < 65553" "length p < 65553" using up(2,3) cap by simp_all
  obtain ub' pb' where l: "login S DB (write_into ?buf (u @ [0])) (word_of_nat (length u + 1))
      (write_into ?buf (p @ [0])) (word_of_nat (length p + 1)) =
      ret (if accepts S DB u p then 0 else 1, ub', pb')"
    using login_honest [OF up(1) db lt refl refl] by blast
  have "verify_credentials S DB rxkey w = ret ((if accepts S DB u p then 0 else 1, u), w2)"
    using l by (simp add: verify_credentials_def Let_def w1(1) w2(1) c
        unwrap_sealed [OF S fit(1) fit(1) fit(3)] unwrap_sealed [OF S(1) n fit(2) fit(2) fit(3)])
  with w1(3) w2(2,3) show ?thesis by (blast intro: only_rx_trans)
qed

definition toy_db :: sqlite3 where
  "toy_db = \<lparr>db_prepare = True, db_row = (\<lambda>u. if u = str ''u'' then Some (Some (str ''pw'' @ [0])) else None)\<rparr>"

lemma toy_login:
  "accepts toy_sodium toy_db (str ''u'') (str ''pw'')" "0 \<notin> set (str ''u'')"
  "feeds (idle_world\<lparr>rx := [Seg (credential_bytes toy_sodium [7] (replicate 8 0) (str ''u'') (str ''pw''))]\<rparr>)
     (credential_bytes toy_sodium [7] (replicate 8 0) (str ''u'') (str ''pw'') @ [])"
  by (simp add: accepts_def toy_db_def toy_sodium_def, code_simp, simp add: feeds_def credential_bytes_def)

theorem auth_sound_witness:
  "\<exists>w' h pw. verify_credentials toy_sodium toy_db [7]
       (idle_world\<lparr>rx := [Seg (credential_bytes toy_sodium [7] (replicate 8 0) (str ''u'') (str ''pw''))]\<rparr>) =
       ret ((0, str ''u''), w') \<and>
     presented toy_sodium [7]
       (idle_world\<lparr>rx := [Seg (credential_bytes toy_sodium [7] (replicate 8 0) (str ''u'') (str ''pw''))]\<rparr>) (str ''u'') pw w' \<and>
     db_row toy_db (str ''u'') = Some (Some h) \<and> pwhash_str_verify toy_sodium h pw"
proof -
  obtain w' where v: "verify_credentials toy_sodium toy_db [7]
      (idle_world\<lparr>rx := [Seg (credential_bytes toy_sodium [7] (replicate 8 0) (str ''u'') (str ''pw''))]\<rparr>) =
     ret ((0, str ''u''), w')"
    using verify_honest [OF toy_session _ toy_login(2) _ _ _ toy_login(3), of toy_db] toy_login(1)
    by (auto simp: toy_db_def str_def)
  from auth_sound [OF toy_aead v] v show ?thesis by blast
qed

section \<open>Credentials that did not arrive\<close>

text \<open>
  When the peer closes the connection instead of sending credentials, both wrappers are
  corrupted, both \<open>unwrap\<close> calls fail, and the login runs on whatever the stack held: the
  return code is that of a login with the uninitialised buffer as user name and password.
\<close>

lemma verify_credentials_closed:
  assumes "rx w = []" "rx_last w = Peer_Closed" "errno w \<noteq> EINTR" "c_str (uninit (FILE_ENCRYPTED_CHUNK_SIZE S) w) = Some u"
  shows "verify_credentials S DB rxkey w =
     andthen (login S DB (uninit (FILE_ENCRYPTED_CHUNK_SIZE S) w) (u64_of_bytes (uninit 8 w))
        (uninit (FILE_ENCRYPTED_CHUNK_SIZE S) w) (u64_of_bytes (uninit 8 w)))
       (\<lambda>(rc, _, _). if rc \<noteq> 0 then ret ((1, u), w) else ret ((0, u), w))"
proof -
  have "recv_loop 8 [] w = ret ((False, []), w)"
    using assms by (subst recv_loop.simps) (simp add: recv_def)
  then have r: "recv_fully 8 w = ret ((False, []), w)" by (simp add: recv_fully_def)
  obtain wrap where "SessionEncWrapper_reader S w = ret (wrap, w)" "corrupted wrap" "enc_wrap_type wrap = READER"
    by (simp add: SessionEncWrapper_reader_def r Let_def)
  with assms(4) show ?thesis by (simp add: verify_credentials_def unwrap_def Let_def)
qed

end
