(* ===== verification/Server.thy ===== *)
theory Server
  imports FS_Requests Key_Exchange Auth
begin

text \<open>
  One connection of the server (\<open>src/server/server.cpp\<close>): \<open>handle_conn\<close> with its session
  loop, over the counters and tables the threads share, and the functions around it
  (\<open>set_conn_timeout\<close>, \<open>handle_signal\<close>, \<open>kill_server\<close>, the logger's lines, and \<open>main\<close> up to
  the accept loop). The theorems: what each way out of a connection leaves behind, and how a
  client and the server can lose step; the lemmas on the session loop serve theory
  \<open>File_Store\<close>. The pool of workers is in theory \<open>Worker_Pool\<close>.
\<close>

section \<open>The shared state\<close>

text \<open>\<open>closed\<close> collects the descriptors the program has closed.\<close>

record server =
  total_connections :: u64
  live_connections :: u64
  clients :: "int list"
  client_queue :: "int list"
  server_alive :: bool
  server_sock_fd :: int
  closed :: "int list"

definition POOL_SIZE :: nat where "POOL_SIZE = 8"

text \<open>The initial values of the globals.\<close>

definition server_globals :: server where
  "server_globals = \<lparr>total_connections = 0, live_connections = 0, clients = [], client_queue = [],
     server_alive = True, server_sock_fd = - 1, closed = []\<rparr>"

text \<open>
  The time limits of a connection. The operating system's \<open>setsockopt\<close> is an argument: its
  result for a descriptor, an option and a time in seconds and microseconds, negative if it
  fails.
\<close>

datatype sock_opt = SO_RCVTIMEO | SO_SNDTIMEO

definition set_conn_timeout :: "(int \<Rightarrow> sock_opt \<Rightarrow> nat \<times> nat \<Rightarrow> int) \<Rightarrow> int \<Rightarrow> bool" where
  "set_conn_timeout setsockopt client_sock =
     (let tv = (CONN_TIMEOUT_SEC, CONN_TIMEOUT_USEC) in
      if setsockopt client_sock SO_RCVTIMEO tv < 0 then False
      else if setsockopt client_sock SO_SNDTIMEO tv < 0 then False
      else True)"

text \<open>A connection is only served with both limits in place, ten minutes each.\<close>

lemma set_conn_timeout_limits:
  "set_conn_timeout setsockopt fd \<longleftrightarrow> (\<forall>opt. 0 \<le> setsockopt fd opt (600, 0))"
proof -
  have "(\<forall>opt. P opt) \<longleftrightarrow> P SO_RCVTIMEO \<and> P SO_SNDTIMEO" for P by (metis sock_opt.exhaust)
  then show ?thesis by (simp add: set_conn_timeout_def Let_def CONN_TIMEOUT_SEC_def CONN_TIMEOUT_USEC_def not_less)
qed

text \<open>
  The signal handler and the terminal listener: the state, whether waiting workers are
  notified, and whether the listening socket is shut down.
\<close>

definition handle_signal :: "server \<Rightarrow> server \<times> bool \<times> bool" where
  "handle_signal sv = (sv\<lparr>server_alive := False\<rparr>, True, 0 \<le> server_sock_fd sv)"

definition kill_server :: "byte option \<Rightarrow> server \<Rightarrow> server \<times> bool \<times> bool" where
  "kill_server switch_char sv =
     (if switch_char = Some 113 then (sv\<lparr>server_alive := False\<rparr>, False, True) else (sv, False, False))"

text \<open>What one round of the logger reports: the three numbers and the descriptors.\<close>

definition logger_round :: "server \<Rightarrow> u64 \<times> u64 \<times> nat \<times> int list" where
  "logger_round sv = (live_connections sv, live_connections sv, length (clients sv), clients sv)"

text \<open>The three statements at the end of \<open>handle_conn\<close>, each atomic for the other threads.\<close>

definition erase_client :: "int \<Rightarrow> 'a server_scheme \<Rightarrow> 'a server_scheme" where
  "erase_client fd sv = sv\<lparr>clients := filter (\<lambda>c. c \<noteq> fd) (clients sv)\<rparr>"

definition close_socket :: "int \<Rightarrow> 'a server_scheme \<Rightarrow> 'a server_scheme" where
  "close_socket fd sv = sv\<lparr>closed := closed sv @ [fd]\<rparr>"

definition count_out :: "'a server_scheme \<Rightarrow> 'a server_scheme" where
  "count_out sv = sv\<lparr>live_connections := live_connections sv - 1\<rparr>"

text \<open>
  \<open>main\<close> up to the start of the threads, from the results of \<open>initialize_server\<close>, \<open>socket\<close>,
  \<open>setsockopt\<close>, \<open>bind\<close> and \<open>listen\<close>: \<open>Inl\<close> is the code it returns with, \<open>Inr\<close> means that it goes
  on to accept connections.
\<close>

definition server_setup :: "int \<Rightarrow> int \<Rightarrow> int \<Rightarrow> int \<Rightarrow> int \<Rightarrow> server \<Rightarrow> (int + unit) \<times> server" where
  "server_setup db_stat sock opt_stat bind_stat listen_stat sv =
     (if db_stat \<noteq> 0 then (Inl 1, sv)
      else
        (let sv = sv\<lparr>server_sock_fd := sock\<rparr> in
         if sock = - 1 then (Inl 1, sv)
         else if opt_stat < 0 then (Inl 1, close_socket sock sv)
         else if bind_stat = - 1 then (Inl 1, close_socket sock sv)
         else if listen_stat < 0 then (Inr (), close_socket sock sv)
         else (Inr (), sv)))"

text \<open>
  The server goes on exactly when the database, the socket, its option and the address are
  there. It then has a listening socket unless \<open>listen\<close> failed, which closes the socket and
  goes on all the same.
\<close>

lemma server_setup_result:
  "fst (server_setup db sock opt b l server_globals) = Inr () \<longleftrightarrow> db = 0 \<and> sock \<noteq> - 1 \<and> 0 \<le> opt \<and> b \<noteq> - 1"
  "fst (server_setup db sock opt b l server_globals) = Inr () \<Longrightarrow>
     server_sock_fd (snd (server_setup db sock opt b l server_globals)) = sock \<and>
     (sock \<in> set (closed (snd (server_setup db sock opt b l server_globals))) \<longleftrightarrow> l < 0)"
  by (auto simp: server_setup_def server_globals_def close_socket_def Let_def split: if_splits)

section \<open>A connection\<close>

definition dispatch ::
    "'st sodium \<Rightarrow> i32 \<Rightarrow> fs_operator \<Rightarrow> world \<Rightarrow> (fs_operator \<times> world) run" where
  "dispatch S intent op w =
     (if intent = INVALID_READ_INTENT then ret (op, w)
      else if intent = READ_FROM_FILESYSTEM then
        andthen (RFFS_Handler__Server S op w) (\<lambda>((_, op), w). ret (op, w))
      else if intent = WRITE_TO_FILESYSTEM then
        andthen (WTFS_Handler__Server S op w) (\<lambda>(_, w). ret (op, w))
      else if intent = LIST_FILES then
        andthen (LFFS_Handler__Server S op w) (\<lambda>((_, op), w). ret (op, w))
      else if intent = DELETE_FILE then
        andthen (DFFS_Handler__Server S op w) (\<lambda>((_, op), w). ret (op, w))
      else ret (op, w))"

text \<open>
  The session loop: once a notice was accepted the loop condition stays true, so it ends only
  when a notice is refused.
\<close>

partial_function (option) session_loop ::
    "'st sodium \<Rightarrow> fs_operator \<Rightarrow> world \<Rightarrow> (fs_operator \<times> world) run" where
  "session_loop S op w =
     andthen (receive_notice_of_new_action S op w) (\<lambda>(rc, w).
       if rc \<noteq> 0 then ret (op, w)
       else
         andthen (read_intent S op w) (\<lambda>(intent, w).
         andthen (dispatch S intent op w) (\<lambda>(op, w). session_loop S op w)))"

definition handle_conn ::
    "'st sodium \<Rightarrow> sqlite3 \<Rightarrow> int \<Rightarrow> server \<Rightarrow> world \<Rightarrow> (server \<times> world) run" where
  "handle_conn S DB client_sock sv w =
     andthen (server_crypt_gen S (uninit (kx_SESSIONKEYBYTES S) w) (uninit (kx_SESSIONKEYBYTES S) w) w)
       (\<lambda>((rc, _, _, rxkey, txkey), w).
     if rc \<noteq> 0 then ret (sv, w)
     else
       andthen (verify_credentials S DB rxkey w) (\<lambda>((rc, username), w).
       if rc \<noteq> 0 then
         ret (count_out sv, snd (send (i32_bytes ACK_FAIL) w))
       else
         (let w = snd (send (i32_bytes ACK_SUC) w) in
          andthen (FS_Operator S client_sock username rxkey txkey w) (\<lambda>((OP, _, _), w).
          andthen (session_loop S OP w) (\<lambda>(OP, w).
          ret (count_out (close_socket client_sock (erase_client client_sock sv)), w))))))"

section \<open>What a connection leaves behind\<close>

text \<open>
  C5. Nobody who has not logged in has any effect, on any input: the disk, the table of clients
  and the closed sockets are as before unless the key exchange gave a session key and the
  stored hash of the user this connection named accepted the password this connection
  presented under that key (what its two frames left in the buffers, see \<open>presented\<close>). Only
  then does the connection close its socket, remove its entry and count itself out.
\<close>

theorem no_effect_without_login:
  assumes "aead_laws S" "handle_conn S DB fd sv w = ret (sv', w')"
  shows "(disk w' = disk w \<and> (sv' = sv \<or> sv' = count_out sv)) \<or>
     (\<exists>pk sk rxkey txkey w1 u pw w2 h.
        server_crypt_gen S (uninit (kx_SESSIONKEYBYTES S) w) (uninit (kx_SESSIONKEYBYTES S) w) w =
          ret ((0, pk, sk, rxkey, txkey), w1) \<and>
        presented S rxkey w1 u pw w2 \<and> db_row DB u = Some (Some h) \<and> pwhash_str_verify S h pw \<and>
        sv' = count_out (close_socket fd (erase_client fd sv)))"
proof -
  let ?kb = "uninit (kx_SESSIONKEYBYTES S) w"
  obtain rc pk sk rxkey txkey w1 where w1: "server_crypt_gen S ?kb ?kb w = ret ((rc, pk, sk, rxkey, txkey), w1)"
    using assms(2) unfolding handle_conn_def by (auto simp only: andthen_eq_ret_iff)
  note d1 = server_crypt_gen_disk [OF w1]
  note run = assms(2) [unfolded handle_conn_def, simplified w1 andthen_ret prod.case]
  show ?thesis
  proof (cases "rc = 0")
    case False
    with run d1 show ?thesis by auto
  next
    case True
    with run obtain c u w2 where w2: "verify_credentials S DB rxkey w1 = ret ((c, u), w2)"
      by (auto simp: andthen_eq_ret_iff)
    have "only_rx w1 w2" using verify_credentials_quiet w2 unfolding quiet_def by blast
    then have d2: "disk w2 = disk w" using only_rx_fields(6) d1 by metis
    show ?thesis
    proof (cases "c = 0")
      case False
      with run True d2 show ?thesis by (auto simp: w2)
    next
      case c: True
      with run True have "sv' = count_out (close_socket fd (erase_client fd sv))"
        by (auto simp: w2 Let_def andthen_eq_ret_iff)
      with verify_sound [OF assms(1) w2 [unfolded c]] w1 True show ?thesis by blast
    qed
  qed
qed

text \<open>A peer that closes at once.\<close>

lemma toy_closed_conn:
  "\<exists>w'. handle_conn toy_sodium DB fd sv (idle_world\<lparr>disk := d, rx_last := Peer_Closed\<rparr>) = ret (sv, w')"
proof -
  let ?w = "idle_world\<lparr>disk := d, rx_last := Peer_Closed\<rparr>"
  have r: "recv_fully n v = ret ((False, []), v)" if "rx v = []" "rx_last v = Peer_Closed" "errno v = 0" "0 < n" for n v
    using that unfolding recv_fully_def by (subst recv_loop.simps) (simp add: recv_def EINTR_def)
  have "tx_plan ?w = []" by (simp add: idle_world_def)
  then have "\<exists>pk sk w1. server_crypt_gen toy_sodium (uninit 32 ?w) (uninit 32 ?w) ?w =
      ret ((2, pk, sk, uninit 32 ?w, uninit 32 ?w), w1)"
    by (simp add: crypt_gen_announced(1) announced_def idle_world_def r)
  then show ?thesis by (auto simp: handle_conn_def)
qed

theorem no_effect_without_login_witness:
  "\<exists>sv' w'. handle_conn toy_sodium \<lparr>db_prepare = True, db_row = (\<lambda>_. None)\<rparr> 5 \<lparr>total_connections = 1, live_connections = 1, clients = [5],
        client_queue = [], server_alive = True, server_sock_fd = 3, closed = []\<rparr>
       (idle_world\<lparr>disk := toy_disk, rx_last := Peer_Closed\<rparr>) = ret (sv', w') \<and> disk w' = toy_disk \<and> clients sv' = [5]"
proof -
  let ?DB = "\<lparr>db_prepare = True, db_row = (\<lambda>_. None)\<rparr>"
  let ?w = "idle_world\<lparr>disk := toy_disk, rx_last := Peer_Closed\<rparr>"
  let ?sv = "\<lparr>total_connections = 1, live_connections = 1, clients = [5],
        client_queue = [], server_alive = True, server_sock_fd = 3, closed = []\<rparr>"
  obtain w' where run: "handle_conn toy_sodium ?DB 5 ?sv ?w = ret (?sv, w')" using toy_closed_conn by blast
  from no_effect_without_login [OF toy_aead run] run show ?thesis by auto
qed

section \<open>A session on the wire\<close>

lemma notice_read:
  assumes "session_laws S" "length nonce = aead_NPUBBYTES S"
    and "feeds w (frame S (server_rx op) nonce (i32_bytes v) @ rest)"
  obtains w' where "receive_notice_of_new_action S op w = ret (if v = NEW_ACTION then 0 else 1, w')"
    "read_intent S op w = ret (v, w')" "feeds w' rest" "only_rx w w'"
proof -
  obtain w1 where w1: "SessionEncWrapper_reader S w =
      ret (framed (sealed S (server_rx op) nonce (i32_bytes v)), w1)" "feeds w1 rest" "only_rx w w1"
    using readerE [OF assms(1,2) i32_fits [OF assms(1)] assms(3)] .
  then show ?thesis
    by (intro that [of w1])
      (auto simp: receive_notice_of_new_action_def read_intent_def is_corrupted_def
        unwrap_i32 [OF assms(1,2) length_uninit])
qed

text \<open>What a client announces before each action.\<close>

definition action_bytes :: "'st sodium \<Rightarrow> byte list \<Rightarrow> byte list \<Rightarrow> i32 \<Rightarrow> byte list" where
  "action_bytes S key nonce intent =
     frame S key nonce (i32_bytes NEW_ACTION) @ frame S key (sodium_increment S nonce) (i32_bytes intent)"

lemma session_step:
  assumes S: "session_laws S" "length nonce = aead_NPUBBYTES S"
    and w: "feeds w (action_bytes S (server_rx op) nonce intent @ rest)"
  obtains w' where "feeds w' rest" "only_rx w w'"
    "session_loop S op w = andthen (dispatch S intent op w') (\<lambda>(op, w). session_loop S op w)"
proof -
  let ?n = "sodium_increment S nonce"
  have n: "length ?n = aead_NPUBBYTES S" using S length_increment by metis
  from w have "feeds w (frame S (server_rx op) nonce (i32_bytes NEW_ACTION) @
      frame S (server_rx op) ?n (i32_bytes intent) @ rest)" by (simp add: action_bytes_def)
  from notice_read [OF S this] obtain w1 where w1: "receive_notice_of_new_action S op w = ret (0, w1)"
    "feeds w1 (frame S (server_rx op) ?n (i32_bytes intent) @ rest)" "only_rx w w1" by auto
  from notice_read [OF S(1) n w1(2)] obtain w2 where w2: "read_intent S op w1 = ret (intent, w2)"
    "feeds w2 rest" "only_rx w1 w2" by auto
  have "session_loop S op w = andthen (dispatch S intent op w2) (\<lambda>(op, w). session_loop S op w)"
    by (subst session_loop.simps) (simp add: w1(1) w2(1))
  with w2(2) only_rx_trans [OF w1(3) w2(3)] show ?thesis using that by blast
qed

lemma session_end:
  assumes "session_laws S" "length nonce = aead_NPUBBYTES S" "v \<noteq> NEW_ACTION"
    and "feeds w (frame S (server_rx op) nonce (i32_bytes v) @ rest)"
  obtains w' where "session_loop S op w = ret (op, w')" "feeds w' rest" "only_rx w w'"
proof -
  obtain w1 where w1: "receive_notice_of_new_action S op w = ret (if v = NEW_ACTION then 0 else 1, w1)"
    "feeds w1 rest" "only_rx w w1" using notice_read [OF assms(1,2,4)] .
  have "session_loop S op w = ret (op, w1)"
    using assms(3) by (subst session_loop.simps) (simp add: w1(1))
  with w1 show ?thesis using that by blast
qed

text \<open>
  C36. How the two sides lose step: a client whose user types an intention that does not exist
  announces the action but sends no intent. If the user then goes on with a valid request, the
  server takes the next announcement for the intent and the intent for an announcement, and
  ends the session with the request unserved.
\<close>

theorem skipped_intent_ends_session:
  assumes S: "session_laws S" "length nonce = aead_NPUBBYTES S" "length nonce' = aead_NPUBBYTES S"
      "length nonce'' = aead_NPUBBYTES S"
    and v: "intent \<in> {READ_FROM_FILESYSTEM, WRITE_TO_FILESYSTEM, LIST_FILES, DELETE_FILE}"
    and w: "feeds w (frame S (server_rx op) nonce (i32_bytes NEW_ACTION) @
       frame S (server_rx op) nonce' (i32_bytes NEW_ACTION) @
       frame S (server_rx op) nonce'' (i32_bytes intent) @ request)"
  shows "\<exists>w'. session_loop S op w = ret (op, w') \<and> feeds w' request \<and> only_rx w w'"
proof -
  obtain w1 where w1: "receive_notice_of_new_action S op w = ret (if NEW_ACTION = NEW_ACTION then 0 else 1, w1)"
    "feeds w1 (frame S (server_rx op) nonce' (i32_bytes NEW_ACTION) @
       frame S (server_rx op) nonce'' (i32_bytes intent) @ request)" "only_rx w w1"
    using notice_read [OF S(1,2) w] .
  obtain w2 where w2: "read_intent S op w1 = ret (NEW_ACTION, w2)"
    "feeds w2 (frame S (server_rx op) nonce'' (i32_bytes intent) @ request)" "only_rx w1 w2"
    using notice_read [OF S(1,3) w1(2)] .
  have "intent \<noteq> NEW_ACTION" using v by (auto simp: wire_constants)
  then obtain w3 where w3: "session_loop S op w2 = ret (op, w3)" "feeds w3 request" "only_rx w2 w3"
    using session_end [OF S(1,4) _ w2(2)] by blast
  have "dispatch S NEW_ACTION op w2 = ret (op, w2)" by (simp add: dispatch_def wire_constants)
  then have "session_loop S op w = ret (op, w3)"
    by (subst session_loop.simps) (simp add: w1(1) w2(1) w3(1))
  with w3(2) only_rx_trans [OF w1(3) only_rx_trans [OF w2(3) w3(3)]] show ?thesis by blast
qed

text \<open>One connection of the small disk's user.\<close>

lemma toy_feeds: "bs \<noteq> [] \<Longrightarrow> feeds (idle_world\<lparr>disk := toy_disk, rx := [Seg bs]\<rparr>) bs"
  by (simp add: feeds_def)

theorem skipped_intent_ends_session_witness:
  "\<exists>w'. session_loop toy_sodium toy_op (idle_world\<lparr>disk := toy_disk, rx := [Seg
       (frame toy_sodium [7] (replicate 8 0) (i32_bytes NEW_ACTION) @
        frame toy_sodium [7] (replicate 8 1) (i32_bytes NEW_ACTION) @
        frame toy_sodium [7] (replicate 8 2) (i32_bytes LIST_FILES) @ [])]\<rparr>) = ret (toy_op, w')"
proof -
  let ?b = "frame toy_sodium (server_rx toy_op) (replicate 8 0) (i32_bytes NEW_ACTION) @
        frame toy_sodium (server_rx toy_op) (replicate 8 1) (i32_bytes NEW_ACTION) @
        frame toy_sodium (server_rx toy_op) (replicate 8 2) (i32_bytes LIST_FILES) @ []"
  have f: "feeds (idle_world\<lparr>disk := toy_disk, rx := [Seg ?b]\<rparr>) ?b" by (rule toy_feeds) simp
  have k: "server_rx toy_op = [7]" by (simp add: toy_op_def)
  from skipped_intent_ends_session [OF toy_session _ _ _ _ f] show ?thesis unfolding k by auto
qed

end
