(* ===== verification/File_Store.thy ===== *)
theory File_Store
  imports Server
begin

text \<open>
  What a session promises, and that the server keeps the promise. The specification is a
  partial function from names to contents, four requests, what each does to it and what the
  server answers; paths, streams, threads, frames and nonces do not occur in it. The refinement
  theorem says that a session in which a client sends any sequence of requests takes the user's
  directory through exactly the states of the specification and sends exactly its answers.
\<close>

section \<open>The specification\<close>

type_synonym store = "cpp_string \<rightharpoonup> byte list"

text \<open>\<open>Put\<close> carries the name, the stream header, the salt and the chunks.\<close>

datatype request =
  Put cpp_string "byte list" "byte list" "byte list list"
| Get cpp_string
| Names
| Remove cpp_string

fun after :: "request \<Rightarrow> store \<Rightarrow> store" where
  "after (Put name header salt cs) st = st(name @ ext \<mapsto> header @ salt @ concat cs)"
| "after (Get name) st = st"
| "after Names st = st"
| "after (Remove name) st = st(name := None)"

text \<open>
  What is sent in answer: nothing to an upload, and nothing to a request for a file that is
  not there.
\<close>

fun answers :: "'st sodium \<Rightarrow> byte list \<Rightarrow> request \<Rightarrow> store \<Rightarrow> byte list \<Rightarrow> bool" where
  "answers S key (Put name header salt cs) st out \<longleftrightarrow> out = []"
| "answers S key (Get name) st out \<longleftrightarrow>
     (case st name of
        None \<Rightarrow> out = []
      | Some bs \<Rightarrow> \<exists>nonce header salt body. length nonce = aead_NPUBBYTES S \<and>
          bs = header @ salt @ body \<and> length header = ss_HEADERBYTES S \<and>
          length salt = pwhash_SALTBYTES S \<and>
          out = download_bytes S key nonce header salt (file_chunks (FILE_ENCRYPTED_CHUNK_SIZE S) body))"
| "answers S key Names st out \<longleftrightarrow>
     (\<exists>nonce nonces ns. length nonce = aead_NPUBBYTES S \<and> (\<forall>i. length (nonces i) = aead_NPUBBYTES S) \<and> distinct ns \<and> set ns = dom st \<and>
        out = frame S key nonce (i32_bytes (word_of_nat (length ns))) @ name_frames S key nonces ns)"
| "answers S key (Remove name) st out \<longleftrightarrow>
     (\<exists>nonce. length nonce = aead_NPUBBYTES S \<and>
        out = frame S key nonce (i32_bytes (if st name = None then ACK_FAIL else ACK_SUC)))"

fun transcript :: "'st sodium \<Rightarrow> byte list \<Rightarrow> request list \<Rightarrow> store \<Rightarrow> byte list \<Rightarrow> bool" where
  "transcript S key [] st out \<longleftrightarrow> out = []"
| "transcript S key (r # rs) st out \<longleftrightarrow>
     (\<exists>a b. out = a @ b \<and> answers S key r st a \<and> transcript S key rs (after r st) b)"

section \<open>What a client sends\<close>

fun intent_of :: "request \<Rightarrow> i32" where
  "intent_of (Put name header salt cs) = WRITE_TO_FILESYSTEM"
| "intent_of (Get name) = READ_FROM_FILESYSTEM"
| "intent_of Names = LIST_FILES"
| "intent_of (Remove name) = DELETE_FILE"

fun request_bytes :: "'st sodium \<Rightarrow> byte list \<Rightarrow> byte list \<Rightarrow> request \<Rightarrow> byte list" where
  "request_bytes S key nonce (Put name header salt cs) = upload_bytes S key nonce name header salt cs"
| "request_bytes S key nonce (Get name) = frame S key nonce (name @ [0])"
| "request_bytes S key nonce Names = []"
| "request_bytes S key nonce (Remove name) = frame S key nonce (name @ [0])"

fun request_ok :: "'st sodium \<Rightarrow> request \<Rightarrow> bool" where
  "request_ok S (Put name header salt cs) \<longleftrightarrow>
     length name \<le> PRE_EXT_FILE_NAME_LEN \<and> 0 \<notin> set name \<and> slash \<notin> set name \<and>
     length header = ss_HEADERBYTES S \<and> length salt = pwhash_SALTBYTES S \<and>
     cs \<noteq> [] \<and> (\<forall>c \<in> set cs. length c \<le> FILE_ENCRYPTED_CHUNK_SIZE S)"
| "request_ok S (Get name) \<longleftrightarrow> length name < PRE_EXT_FILE_NAME_LEN \<and> 0 \<notin> set name \<and> plain_name name"
| "request_ok S Names \<longleftrightarrow> True"
| "request_ok S (Remove name) \<longleftrightarrow> length name < PRE_EXT_FILE_NAME_LEN \<and> 0 \<notin> set name \<and> plain_name name"

text \<open>A whole session: every request with the nonces of its announcement and its body, then the good-bye.\<close>

fun session_bytes ::
    "'st sodium \<Rightarrow> byte list \<Rightarrow> (request \<times> byte list \<times> byte list) list \<Rightarrow> byte list \<Rightarrow> byte list" where
  "session_bytes S key [] bye = frame S key bye (i32_bytes NO_ACTION)"
| "session_bytes S key ((r, n, n') # rs) bye =
     action_bytes S key n (intent_of r) @ request_bytes S key n' r @ session_bytes S key rs bye"

definition sendable :: "'st sodium \<Rightarrow> request \<times> byte list \<times> byte list \<Rightarrow> bool" where
  "sendable S = (\<lambda>(r, n, n'). request_ok S r \<and> length n = aead_NPUBBYTES S \<and> length n' = aead_NPUBBYTES S)"

section \<open>The user's directory as a store\<close>

definition store_of :: "filesys \<Rightarrow> path \<Rightarrow> store" where
  "store_of d p = (\<lambda>n. case lookup d (p @ [n]) of Some (File bs) \<Rightarrow> Some bs | _ \<Rightarrow> None)"

text \<open>
  The directory is there and holds only files, each with at least a header and a salt, under
  names that fit into a message; the socket accepts what is sent.
\<close>

definition session_ready :: "'st sodium \<Rightarrow> fs_operator \<Rightarrow> path \<Rightarrow> world \<Rightarrow> bool" where
  "session_ready S op p w \<longleftrightarrow> home op (disk w) p \<and> tx_plan w = [] \<and> keys_once (disk w) \<and>
     (\<forall>n. lookup (disk w) (p @ [n]) \<noteq> Some Dir) \<and>
     (\<forall>n bs. store_of (disk w) p n = Some bs \<longrightarrow>
        ss_HEADERBYTES S + pwhash_SALTBYTES S \<le> length bs \<and> length n < FILE_ENCRYPTED_CHUNK_SIZE S)"

text \<open>
  The environment after a request, up to what is still to be read: how the file is written, which
  nonces are used and what is sent depends on the environment before and on nothing else, in
  particular not on how the network has cut the bytes of the request.
\<close>

fun served :: "'st sodium \<Rightarrow> fs_operator \<Rightarrow> path \<Rightarrow> request \<Rightarrow> world \<Rightarrow> world" where
  "served S op p (Put name header salt cs) w =
     w\<lparr>disk := write_out (Some (p @ [name @ ext])) (header @ salt @ concat cs)
       (snd (open_out (disk w) (user_dir op @ name @ ext)))\<rparr>"
| "served S op p (Get name) w =
     (case store_of (disk w) p name of
        None \<Rightarrow> w\<lparr>rnd_pos := rnd_pos w + aead_NPUBBYTES S\<rparr>
      | Some bs \<Rightarrow> w\<lparr>rnd_pos := rnd_pos w + aead_NPUBBYTES S,
          tx := tx w @ download_bytes S (server_tx op) (fst (randombytes_buf (aead_NPUBBYTES S) w))
            (take (ss_HEADERBYTES S) bs) (take (pwhash_SALTBYTES S) (drop (ss_HEADERBYTES S) bs))
            (file_chunks (FILE_ENCRYPTED_CHUNK_SIZE S) (drop (pwhash_SALTBYTES S) (drop (ss_HEADERBYTES S) bs)))\<rparr>)"
| "served S op p Names w =
     w\<lparr>rnd_pos := rnd_pos w + (1 + length (children (disk w) p)) * aead_NPUBBYTES S,
       tx := tx w @ frame S (server_tx op) (nonce_at S w 0) (i32_bytes (word_of_nat (length (children (disk w) p)))) @
         name_frames S (server_tx op) (nonce_at S w \<circ> Suc) (children (disk w) p)\<rparr>"
| "served S op p (Remove name) w =
     w\<lparr>disk := (case remove_path (disk w) (user_dir op @ name) of Inl _ \<Rightarrow> disk w | Inr (_, d) \<Rightarrow> d),
       rnd_pos := rnd_pos w + 2 * aead_NPUBBYTES S,
       tx := tx w @ frame S (server_tx op) (nonce_at S w 1)
         (i32_bytes (if lookup (disk w) (p @ [name]) = None then ACK_FAIL else ACK_SUC))\<rparr>"

text \<open>What a request leaves, seen from outside: the next state of the specification, nothing else on the disk.\<close>

definition implements ::
    "'st sodium \<Rightarrow> request \<Rightarrow> path \<Rightarrow> byte list \<Rightarrow> fs_operator \<times> world \<Rightarrow> fs_operator \<times> world \<Rightarrow> bool" where
  "implements S r p rest = (\<lambda>(op, w) (op', w'). \<exists>out n.
     feeds w' rest \<and> session_ready S op' p w' \<and> op' = op\<lparr>op_nonce := n\<rparr> \<and>
     store_of (disk w') p = after r (store_of (disk w) p) \<and>
     tx w' = tx w @ out \<and> answers S (server_tx op) r (store_of (disk w) p) out \<and>
     (\<forall>q. (\<forall>n. q \<noteq> p @ [n]) \<longrightarrow> lookup (disk w') q = lookup (disk w) q) \<and>
     only_rx (served S op p r w) w')"

lemma store_None: "\<forall>n. lookup d (p @ [n]) \<noteq> Some Dir \<Longrightarrow> store_of d p n = None \<longleftrightarrow> lookup d (p @ [n]) = None"
  by (auto simp: store_of_def split: option.splits node.splits)

lemma store_Some: "store_of d p n = Some bs \<longleftrightarrow> lookup d (p @ [n]) = Some (File bs)"
  by (auto simp: store_of_def split: option.splits node.splits)

lemma store_cong: "(\<And>n. lookup d' (p @ [n]) = lookup d (p @ [n])) \<Longrightarrow> store_of d' p = store_of d p"
  by (simp add: store_of_def)

lemma home_nonce [simp]: "home (op\<lparr>op_nonce := n\<rparr>) d p = home op d p"
  by (simp add: home_def)

text \<open>A handler that leaves the disk alone.\<close>

lemma implements_reading:
  assumes "session_ready S op p w" "after r (store_of (disk w) p) = store_of (disk w) p"
    and "disk w' = disk w" "feeds w' rest" "op' = op\<lparr>op_nonce := n\<rparr>" "tx_plan w' = []"
    and "tx w' = tx w @ out" "answers S (server_tx op) r (store_of (disk w) p) out" "only_rx (served S op p r w) w'"
  shows "implements S r p rest (op, w) (op', w')"
  using assms by (auto simp: implements_def session_ready_def)

text \<open>A handler that changes one entry of the directory.\<close>

lemma implements_writing:
  assumes "session_ready S op p w" "after r (store_of (disk w) p) = (store_of (disk w) p)(m := v)"
    and "lookup (disk w') (p @ [m]) = map_option File v" "\<forall>q. q \<noteq> p @ [m] \<longrightarrow> lookup (disk w') q = lookup (disk w) q"
    and "cwd (disk w') = cwd (disk w)" "keys_once (disk w')" "feeds w' rest" "op' = op\<lparr>op_nonce := n\<rparr>" "tx_plan w' = []"
    and "\<forall>bs. v = Some bs \<longrightarrow> ss_HEADERBYTES S + pwhash_SALTBYTES S \<le> length bs \<and> length m < FILE_ENCRYPTED_CHUNK_SIZE S"
    and "tx w' = tx w @ out" "answers S (server_tx op) r (store_of (disk w) p) out" "only_rx (served S op p r w) w'"
  shows "implements S r p rest (op, w) (op', w')"
proof -
  have w: "home op (disk w) p" "lookup (disk w) (p @ [k]) \<noteq> Some Dir" for k
    using assms(1) by (simp_all add: session_ready_def)
  have "lookup (disk w') q = Some Dir" if "lookup (disk w) q = Some Dir" for q
    using that w(2) assms(4) by (cases "q = p @ [m]") auto
  from home_keep_dirs [OF w(1) this assms(5)] have h: "home op (disk w') p" .
  have l: "lookup (disk w') (p @ [k]) = (if k = m then map_option File v else lookup (disk w) (p @ [k]))" for k
    using assms(3,4) by simp
  have st: "store_of (disk w') p = (store_of (disk w) p)(m := v)"
    by (rule ext) (auto simp: store_of_def l split: option.splits)
  have "lookup (disk w') (p @ [k]) \<noteq> Some Dir" for k using w(2) by (auto simp: l)
  moreover have "ss_HEADERBYTES S + pwhash_SALTBYTES S \<le> length bs \<and> length k < FILE_ENCRYPTED_CHUNK_SIZE S"
    if "((store_of (disk w) p)(m := v)) k = Some bs" for k bs
    using that assms(1,10) by (auto simp: session_ready_def split: if_splits)
  ultimately have "session_ready S op' p w'"
    using h assms(6,8,9) by (simp add: session_ready_def st)
  moreover have "\<forall>q. (\<forall>n. q \<noteq> p @ [n]) \<longrightarrow> lookup (disk w') q = lookup (disk w) q" using assms(4) by blast
  ultimately show ?thesis using assms(2,7,8,11-13) st by (auto simp: implements_def)
qed

lemma put_implements:
  assumes S: "session_laws S" "length nonce = aead_NPUBBYTES S" and ready: "session_ready S op p w"
    and r: "r = Put name header salt cs" "request_ok S r"
    and w: "feeds w (request_bytes S (server_rx op) nonce r @ rest)"
  shows "\<exists>w'. WTFS_Handler__Server S op w = ret (0, w') \<and> implements S r p rest (op, w) (op, w')"
proof -
  have ok: "length name \<le> PRE_EXT_FILE_NAME_LEN" "0 \<notin> set name" "slash \<notin> set name"
    "length header = ss_HEADERBYTES S" "length salt = pwhash_SALTBYTES S" "cs \<noteq> []"
    "\<forall>c \<in> set cs. length c \<le> FILE_ENCRYPTED_CHUNK_SIZE S" using r by simp_all
  have h: "home op (disk w) p" "lookup (disk w) (p @ [name @ ext]) \<noteq> Some Dir" "tx_plan w = []" "keys_once (disk w)"
    using ready by (simp_all add: session_ready_def)
  from WTFS_store_run [OF S ok h(1,2) w [unfolded r request_bytes.simps]] h(3,4)
  obtain w' where w': "WTFS_Handler__Server S op w = ret (0, w')" "feeds w' rest" "tx w' = tx w"
    "tx_plan w' = []" "cwd (disk w') = cwd (disk w)" "keys_once (disk w')"
    "lookup (disk w') (p @ [name @ ext]) = map_option File (Some (header @ salt @ concat cs))"
    "\<forall>q. q \<noteq> p @ [name @ ext] \<longrightarrow> lookup (disk w') q = lookup (disk w) q" "only_rx (served S op p r w) w'"
    unfolding r(1) served.simps by auto
  have "sodium_sizes S" using S(1) by (simp add: session_laws_def)
  then have size: "length (name @ ext) < FILE_ENCRYPTED_CHUNK_SIZE S"
    using ok(1) by (simp add: chunk_sizes PRE_EXT_FILE_NAME_LEN_def ext_def str_def)
  have "implements S r p rest (op, w) (op, w')"
    by (rule implements_writing [OF ready _ w'(7,8,5,6,2) _ _ _ _ _ w'(9), where n = "op_nonce op" and out = "[]"])
      (use w'(3,4) ok(4,5) size r(1) in simp_all)
  with w'(1) show ?thesis by blast
qed

lemma remove_implements:
  assumes S: "session_laws S" "length nonce = aead_NPUBBYTES S" and ready: "session_ready S op p w"
    and r: "r = Remove name" "request_ok S r"
    and w: "feeds w (request_bytes S (server_rx op) nonce r @ rest)"
  shows "\<exists>op' w'. DFFS_Handler__Server S op w = ret ((0, op'), w') \<and> implements S r p rest (op, w) (op', w')"
proof -
  have ok: "length name < PRE_EXT_FILE_NAME_LEN" "0 \<notin> set name" "plain_name name" using r by simp_all
  have h: "home op (disk w) p" "lookup (disk w) (p @ [name]) \<noteq> Some Dir" "tx_plan w = []" "keys_once (disk w)"
    using ready by (simp_all add: session_ready_def)
  from DFFS_run [OF S h(3) ok h(1,2) w [unfolded r request_bytes.simps]]
  obtain op' w' b n where w': "DFFS_Handler__Server S op w = ret ((0, op'), w')" "feeds w' rest"
    "lookup (disk w') (p @ [name]) = map_option File None" "\<forall>q. q \<noteq> p @ [name] \<longrightarrow> lookup (disk w') q = lookup (disk w) q"
    "tx w' = tx w @ frame S (server_tx op) (nonce_at S w 1)
       (i32_bytes (if lookup (disk w) (p @ [name]) = None then ACK_FAIL else ACK_SUC))"
    "op' = op\<lparr>op_nonce := n\<rparr>" "tx_plan w' = []" "remove_path (disk w) (user_dir op @ name) = Inr (b, disk w')"
    "only_rx (w\<lparr>disk := disk w', rnd_pos := rnd_pos w + 2 * aead_NPUBBYTES S, tx := tx w'\<rparr>) w'" by auto
  have served: "only_rx (served S op p r w) w'" using w'(9) unfolding r(1) served.simps w'(8) by (simp add: w'(5))
  have "\<forall>n. lookup (disk w) (p @ [n]) \<noteq> Some Dir" using ready by (simp add: session_ready_def)
  then have "answers S (server_tx op) r (store_of (disk w) p) (frame S (server_tx op) (nonce_at S w 1)
      (i32_bytes (if lookup (disk w) (p @ [name]) = None then ACK_FAIL else ACK_SUC)))"
    unfolding r answers.simps by (auto simp: store_None intro!: exI [of _ "nonce_at S w 1"])
  from implements_writing [OF ready _ w'(3,4) cwd_remove [OF w'(8)] keys_once_remove [OF w'(8) h(4)] w'(2,6,7) _ w'(5) this served]
  have "implements S r p rest (op, w) (op', w')" using r(1) by simp
  with w'(1) show ?thesis by blast
qed

lemma names_implements:
  assumes S: "session_laws S" and ready: "session_ready S op p w" and w: "feeds w rest"
  shows "\<exists>op' w'. LFFS_Handler__Server S op w = ret ((0, op'), w') \<and> implements S Names p rest (op, w) (op', w')"
proof -
  let ?ns = "children (disk w) p"
  have h: "home op (disk w) p" "tx_plan w = []" "keys_once (disk w)" "\<forall>n. lookup (disk w) (p @ [n]) \<noteq> Some Dir"
    using ready by (simp_all add: session_ready_def)
  have ns: "distinct ?ns" "set ?ns = dom (store_of (disk w) p)"
    using distinct_children [OF h(3)] h(4) by (auto simp: set_children store_None [OF h(4), symmetric])
  then have "\<forall>n \<in> set ?ns. length n < FILE_ENCRYPTED_CHUNK_SIZE S" using ready by (auto simp: session_ready_def)
  from LFFS_run [OF S h(2,1) this] obtain op' w' n where w': "LFFS_Handler__Server S op w = ret ((0, op'), w')"
    "disk w' = disk w" "rx w' = rx w" "op' = op\<lparr>op_nonce := n\<rparr>" "tx_plan w' = []"
    "tx w' = tx w @ frame S (server_tx op) (nonce_at S w 0) (i32_bytes (word_of_nat (length ?ns))) @
       name_frames S (server_tx op) (nonce_at S w \<circ> Suc) ?ns"
    "w' = w\<lparr>rnd_pos := rnd_pos w + (1 + length ?ns) * aead_NPUBBYTES S, tx := tx w'\<rparr>" by blast
  have "served S op p Names w = w'" unfolding served.simps w'(6) [symmetric] using w'(7) [symmetric] .
  then have served: "only_rx (served S op p Names w) w'" by simp
  have "feeds w' rest" using w w'(3) by (simp add: feeds_def)
  moreover have "answers S (server_tx op) Names (store_of (disk w) p) (frame S (server_tx op) (nonce_at S w 0)
      (i32_bytes (word_of_nat (length ?ns))) @ name_frames S (server_tx op) (nonce_at S w \<circ> Suc) ?ns)"
    using ns unfolding answers.simps by (intro exI [of _ "nonce_at S w 0"] exI [of _ "nonce_at S w \<circ> Suc"] exI [of _ ?ns]) simp
  ultimately have "implements S Names p rest (op, w) (op', w')"
    by (intro implements_reading [OF ready _ w'(2) _ w'(4,5,6) _ served]) simp_all
  with w'(1) show ?thesis by blast
qed

lemma get_implements:
  assumes S: "session_laws S" "length nonce = aead_NPUBBYTES S" and ready: "session_ready S op p w"
    and r: "r = Get name" "request_ok S r"
    and w: "feeds w (request_bytes S (server_rx op) nonce r @ rest)"
  shows "\<exists>rc op' w'. RFFS_Handler__Server S op w = ret ((rc, op'), w') \<and> implements S r p rest (op, w) (op', w')"
proof -
  have ok: "length name < PRE_EXT_FILE_NAME_LEN" "0 \<notin> set name" "plain_name name" using r by simp_all
  have h: "home op (disk w) p" "tx_plan w = []" "\<forall>n. lookup (disk w) (p @ [n]) \<noteq> Some Dir"
    using ready by (simp_all add: session_ready_def)
  note w = w [unfolded r request_bytes.simps]
  show ?thesis
  proof (cases "store_of (disk w) p name")
    case None
    then have "lookup (disk w) (p @ [name]) = None" using store_None [OF h(3)] by simp
    from RFFS_missing_run [OF S ok h(1) this w] obtain op' w' n where w': "RFFS_Handler__Server S op w = ret ((1, op'), w')"
      "feeds w' rest" "disk w' = disk w" "tx w' = tx w @ []" "op' = op\<lparr>op_nonce := n\<rparr>" "tx_plan w' = []"
      "only_rx (served S op p r w) w'" using h(2) None unfolding r(1) by auto
    have "implements S r p rest (op, w) (op', w')"
      by (rule implements_reading [OF ready _ w'(3,2,5,6,4) _ w'(7)]) (use None r(1) in simp_all)
    with w'(1) show ?thesis by blast
  next
    case (Some bs)
    let ?h = "take (ss_HEADERBYTES S) bs" and ?s = "take (pwhash_SALTBYTES S) (drop (ss_HEADERBYTES S) bs)"
      and ?b = "drop (pwhash_SALTBYTES S) (drop (ss_HEADERBYTES S) bs)"
    let ?n = "fst (randombytes_buf (aead_NPUBBYTES S) w)"
    have bs: "bs = ?h @ ?s @ ?b" by (simp only: append_take_drop_id)
    have len: "length ?h = ss_HEADERBYTES S" "length ?s = pwhash_SALTBYTES S"
      using ready Some by (force simp: session_ready_def)+
    have "lookup (disk w) (p @ [name]) = Some (File (?h @ ?s @ ?b))" using Some bs store_Some by metis
    from RFFS_run [OF S h(2) ok len h(1) this w] obtain op' w' n where
      w': "RFFS_Handler__Server S op w = ret ((0, op'), w')" "feeds w' rest" "disk w' = disk w"
      "op' = op\<lparr>op_nonce := n\<rparr>" "tx_plan w' = []"
      "tx w' = tx w @ download_bytes S (server_tx op) ?n ?h ?s (file_chunks (FILE_ENCRYPTED_CHUNK_SIZE S) ?b)"
      "only_rx (w\<lparr>rnd_pos := rnd_pos w + aead_NPUBBYTES S, tx := tx w'\<rparr>) w'" by blast
    have served: "only_rx (served S op p r w) w'" using w'(7) unfolding r(1) served.simps Some option.case w'(6) .
    have "answers S (server_tx op) r (store_of (disk w) p)
        (download_bytes S (server_tx op) ?n ?h ?s (file_chunks (FILE_ENCRYPTED_CHUNK_SIZE S) ?b))"
      unfolding r answers.simps Some option.case using bs len length_randombytes by blast
    from implements_reading [OF ready _ w'(3,2,4,5,6) this served] have "implements S r p rest (op, w) (op', w')"
      using r(1) by simp
    with w'(1) show ?thesis by blast
  qed
qed

section \<open>A session implements the specification\<close>

lemma dispatch_implements:
  assumes S: "session_laws S" "length nonce = aead_NPUBBYTES S" and ready: "session_ready S op p w"
    and r: "request_ok S r" and w: "feeds w (request_bytes S (server_rx op) nonce r @ rest)"
  shows "\<exists>op' w'. dispatch S (intent_of r) op w = ret (op', w') \<and> implements S r p rest (op, w) (op', w')"
proof (cases r)
  case (Put name header salt cs)
  from put_implements [OF S ready Put r w] Put show ?thesis by (auto simp: dispatch_def wire_constants)
next
  case (Get name)
  from get_implements [OF S ready Get r w] Get show ?thesis by (auto simp: dispatch_def wire_constants)
next
  case Names
  from names_implements [OF S(1) ready, of rest] w Names show ?thesis by (auto simp: dispatch_def wire_constants)
next
  case (Remove name)
  from remove_implements [OF S ready Remove r w] Remove show ?thesis by (auto simp: dispatch_def wire_constants)
qed

lemma served_rx: "served S op p r (w\<lparr>rx := es, errno := e\<rparr>) = (served S op p r w)\<lparr>rx := es, errno := e\<rparr>"
  by (cases w; cases r) (simp_all add: nonce_at_def randombytes_buf_def comp_def split: option.split sum.split)

lemma dispatch_acts:
  assumes "session_laws S" "length nonce = aead_NPUBBYTES S" "session_ready S op p w" "request_ok S r"
  shows "acts (dispatch S (intent_of r) op) w (request_bytes S (server_rx op) nonce r)
     (\<lambda>op'. \<exists>n. op' = op\<lparr>op_nonce := n\<rparr>) (served S op p r w)"
proof (rule actsI)
  fix es e rest
  let ?w = "w\<lparr>rx := es, errno := e\<rparr>"
  assume f: "feeds ?w (request_bytes S (server_rx op) nonce r @ rest)"
  have "session_ready S op p ?w" using assms(3) by (simp add: session_ready_def)
  from dispatch_implements [OF assms(1,2) this assms(4) f] obtain op' w' n where
    w': "dispatch S (intent_of r) op ?w = ret (op', w')" "op' = op\<lparr>op_nonce := n\<rparr>" "feeds w' rest"
    "only_rx ((served S op p r w)\<lparr>rx := es, errno := e\<rparr>) w'"
    unfolding implements_def prod.case served_rx by blast
  from w'(4) have "only_rx (served S op p r w) w'" by (rule only_rx_trans [OF only_rx_upd(3)])
  with w'(1-3) show "\<exists>op' w'. dispatch S (intent_of r) op ?w = ret (op', w') \<and> (\<exists>n. op' = op\<lparr>op_nonce := n\<rparr>) \<and>
      only_rx (served S op p r w) w' \<and> feeds w' rest" by blast
qed

lemma only_rx_ready:
  assumes "only_rx w w'"
  shows "session_ready S op p w' = session_ready S op p w"
  using only_rx_fields [OF assms] by (simp add: session_ready_def)

lemma served_meets:
  assumes "session_laws S" "session_ready S op p w" "request_ok S r"
  obtains out where "session_ready S op p (served S op p r w)"
    "store_of (disk (served S op p r w)) p = after r (store_of (disk w) p)"
    "tx (served S op p r w) = tx w @ out" "answers S (server_tx op) r (store_of (disk w) p) out"
    "\<forall>q. (\<forall>n. q \<noteq> p @ [n]) \<longrightarrow> lookup (disk (served S op p r w)) q = lookup (disk w) q"
proof -
  let ?nonce = "replicate (aead_NPUBBYTES S) 0" and ?s = "served S op p r w"
  let ?b = "request_bytes S (server_rx op) ?nonce r"
  let ?w = "w\<lparr>rx := if ?b = [] then [] else [Seg ?b]\<rparr>"
  have f: "feeds ?w (?b @ [])" by (simp add: feeds_def)
  have "session_ready S op p ?w" using assms(2) by (simp add: session_ready_def)
  from dispatch_implements [OF assms(1) length_replicate this assms(3) f] obtain op' w' out n where
    w': "session_ready S op' p w'" "op' = op\<lparr>op_nonce := n\<rparr>" "store_of (disk w') p = after r (store_of (disk ?w) p)"
    "tx w' = tx ?w @ out" "answers S (server_tx op) r (store_of (disk ?w) p) out"
    "\<forall>q. (\<forall>n. q \<noteq> p @ [n]) \<longrightarrow> lookup (disk w') q = lookup (disk ?w) q" "only_rx (served S op p r ?w) w'"
    unfolding implements_def prod.case by blast
  have "only_rx ?s (served S op p r (w\<lparr>rx := es, errno := errno w\<rparr>))" for es unfolding served_rx by simp
  from this [of "rx ?w"] have "only_rx ?s (served S op p r ?w)" by simp
  from only_rx_trans [OF this w'(7)] have o: "only_rx ?s w'" .
  note d = only_rx_fields(1,6) [OF o]
  have "session_ready S op p w'" using w'(1,2) by (simp add: session_ready_def)
  then have "session_ready S op p ?s" unfolding only_rx_ready [OF o] .
  moreover have "store_of (disk ?s) p = after r (store_of (disk w) p)" "tx ?s = tx w @ out"
    using w'(3,4) d by simp_all
  moreover have "\<forall>q. (\<forall>n. q \<noteq> p @ [n]) \<longrightarrow> lookup (disk ?s) q = lookup (disk w) q" using w'(6) d by simp
  moreover have "answers S (server_tx op) r (store_of (disk w) p) out" using w'(5) by simp
  ultimately show ?thesis using that by blast
qed

lemma session_loop_acts:
  assumes "session_laws S" "length nonce = aead_NPUBBYTES S"
    and "acts (dispatch S intent op) w bs Q w1" "\<And>op'. Q op' \<Longrightarrow> acts (session_loop S op') w1 cs R w2"
  shows "acts (session_loop S op) w (action_bytes S (server_rx op) nonce intent @ bs @ cs) R w2"
proof (rule actsI)
  fix es e rest
  let ?w = "w\<lparr>rx := es, errno := e\<rparr>"
  assume "feeds ?w ((action_bytes S (server_rx op) nonce intent @ bs @ cs) @ rest)"
  then have "feeds ?w (action_bytes S (server_rx op) nonce intent @ (bs @ cs) @ rest)" by simp
  from session_step [OF assms(1,2) this] obtain v where v: "feeds v ((bs @ cs) @ rest)" "only_rx ?w v"
    "session_loop S op ?w = andthen (dispatch S intent op v) (\<lambda>(op, w). session_loop S op w)" .
  have "only_rx w v" using v(2) by (rule only_rx_trans [OF only_rx_upd(3)])
  from actsE [OF acts_andthen [OF assms(3,4)] this v(1)] obtain x v' where
    "andthen (dispatch S intent op v) (\<lambda>(op, w). session_loop S op w) = ret (x, v')" "R x" "only_rx w2 v'" "feeds v' rest" .
  with v(3) show "\<exists>x v'. session_loop S op ?w = ret (x, v') \<and> R x \<and> only_rx w2 v' \<and> feeds v' rest" by simp
qed

lemma session_loop_bye:
  assumes "session_laws S" "length bye = aead_NPUBBYTES S"
  shows "acts (session_loop S op) w (frame S (server_rx op) bye (i32_bytes NO_ACTION)) (\<lambda>op'. op' = op) w"
proof (rule acts_reads)
  have no: "NO_ACTION \<noteq> NEW_ACTION" by (simp add: wire_constants)
  show "reads (session_loop S op) (frame S (server_rx op) bye (i32_bytes NO_ACTION)) op"
    unfolding reads_def using session_end [OF assms no] by metis
qed simp

text \<open>
  C4. A session implements the specification: for every sequence of requests a client sends,
  framed and announced as the protocol says and however the network cuts the bytes, the session
  loop serves them all in order and returns at the good-bye; the user's directory then holds
  what the specification says, the answers are those of the specification, no path outside
  the directory has changed, and what follows on the connection is left unread.
\<close>

theorem session_refines:
  assumes "session_laws S" "length bye = aead_NPUBBYTES S" "\<forall>r \<in> set rs. sendable S r"
    and "session_ready S op p w" "feeds w (session_bytes S (server_rx op) rs bye @ rest)"
  shows "\<exists>op' w' out. session_loop S op w = ret (op', w') \<and> feeds w' rest \<and>
     store_of (disk w') p = fold after (map fst rs) (store_of (disk w) p) \<and>
     tx w' = tx w @ out \<and> transcript S (server_tx op) (map fst rs) (store_of (disk w) p) out \<and>
     (\<forall>q. (\<forall>n. q \<noteq> p @ [n]) \<longrightarrow> lookup (disk w') q = lookup (disk w) q)"
  using assms(3-5)
proof (induction rs arbitrary: op w)
  case Nil
  have no: "NO_ACTION \<noteq> NEW_ACTION" by (simp add: wire_constants)
  from Nil.prems(3) have "feeds w (frame S (server_rx op) bye (i32_bytes NO_ACTION) @ rest)" by simp
  from session_end [OF assms(1,2) no this] obtain w' where w': "session_loop S op w = ret (op, w')" "feeds w' rest" "only_rx w w'" .
  with only_rx_fields(1,6) [OF w'(3)] show ?case by simp
next
  case (Cons x rs)
  obtain r n n' where x: "x = (r, n, n')" by (cases x)
  with Cons.prems(1) have ok: "request_ok S r" "length n = aead_NPUBBYTES S" "length n' = aead_NPUBBYTES S"
    by (simp_all add: sendable_def)
  let ?next = "session_bytes S (server_rx op) rs bye @ rest"
  from Cons.prems(3) have "feeds w (action_bytes S (server_rx op) n (intent_of r) @
      request_bytes S (server_rx op) n' r @ ?next)" by (simp add: x)
  from session_step [OF assms(1) ok(2) this] obtain w1 where w1: "feeds w1 (request_bytes S (server_rx op) n' r @ ?next)"
    "only_rx w w1" "session_loop S op w = andthen (dispatch S (intent_of r) op w1) (\<lambda>(op, w). session_loop S op w)" .
  have "session_ready S op p w1" using Cons.prems(2) by (simp add: only_rx_ready [OF w1(2)])
  from dispatch_implements [OF assms(1) ok(3) this ok(1) w1(1)] obtain op2 w2 a m where
    d: "dispatch S (intent_of r) op w1 = ret (op2, w2)" and
    w2: "feeds w2 ?next" "session_ready S op2 p w2" "op2 = op\<lparr>op_nonce := m\<rparr>"
    "store_of (disk w2) p = after r (store_of (disk w) p)" "tx w2 = tx w @ a"
    "answers S (server_tx op) r (store_of (disk w) p) a"
    "\<forall>q. (\<forall>n. q \<noteq> p @ [n]) \<longrightarrow> lookup (disk w2) q = lookup (disk w) q"
    unfolding implements_def prod.case only_rx_fields(1,6) [OF w1(2)] by blast
  have "\<forall>r \<in> set rs. sendable S r" "feeds w2 (session_bytes S (server_rx op2) rs bye @ rest)"
    using Cons.prems(1) w2(1,3) by simp_all
  from Cons.IH [OF this(1) w2(2) this(2)] obtain op' w' b where w': "session_loop S op2 w2 = ret (op', w')" "feeds w' rest"
    "store_of (disk w') p = fold after (map fst rs) (store_of (disk w2) p)" "tx w' = tx w2 @ b"
    "transcript S (server_tx op2) (map fst rs) (store_of (disk w2) p) b"
    "\<forall>q. (\<forall>n. q \<noteq> p @ [n]) \<longrightarrow> lookup (disk w') q = lookup (disk w2) q" by blast
  have "session_loop S op w = ret (op', w')" using w1(3) d w'(1) by simp
  moreover have "transcript S (server_tx op) (map fst (x # rs)) (store_of (disk w) p) (a @ b)"
    using w2(3,4,6) w'(5) x by auto
  ultimately show ?case using w'(2-4,6) w2(4,5,7) x
    by (intro exI [of _ op'] exI [of _ w'] exI [of _ "a @ b"]) simp
qed

text \<open>The specification at work: what was put is got back, until it is removed.\<close>

lemma store_laws:
  "after (Put name header salt cs) st (name @ ext) = Some (header @ salt @ concat cs)"
  "m \<noteq> name @ ext \<Longrightarrow> after (Put name header salt cs) st m = st m"
  "after (Remove name) st name = None"
  "after (Remove name) (after (Remove name) st) = after (Remove name) st"
  "after (Remove (name @ ext)) (after (Put name header salt cs) st) = after (Remove (name @ ext)) st"
  by (auto simp: fun_eq_iff)

theorem session_refines_witness:
  "\<exists>op' w' out. session_loop toy_sodium toy_op (idle_world\<lparr>disk := toy_disk, rx :=
       [Seg (session_bytes toy_sodium [7] [(Names, replicate 8 0, replicate 8 0), (Remove (str ''f.enc''), replicate 8 1, replicate 8 2)]
          (replicate 8 3))]\<rparr>) = ret (op', w') \<and>
     store_of (disk w') [str ''MEF_S'', str ''u''] (str ''f.enc'') = None \<and>
     transcript toy_sodium [8] [Names, Remove (str ''f.enc'')] (store_of toy_disk [str ''MEF_S'', str ''u'']) (tx w')"
proof -
  let ?p = "[str ''MEF_S'', str ''u'']"
  let ?rs = "[(Names, replicate 8 0, replicate 8 0), (Remove (str ''f.enc''), replicate 8 1, replicate 8 2)] ::
    (request \<times> byte list \<times> byte list) list"
  let ?b = "session_bytes toy_sodium [7] ?rs (replicate 8 3)"
  let ?w = "idle_world\<lparr>disk := toy_disk, rx := [Seg ?b]\<rparr>"
  have f: "feeds ?w (session_bytes toy_sodium (server_rx toy_op) ?rs (replicate 8 3) @ [])"
    by (simp add: feeds_def toy_op_def action_bytes_def)
  have n: "0 \<notin> set (str ''f.enc'')" "plain_name (str ''f.enc'')" by code_simp+
  have ok: "\<forall>r \<in> set ?rs. sendable toy_sodium r"
    using n by (simp add: sendable_def PRE_EXT_FILE_NAME_LEN_def) (simp add: str_def)
  have c: "children toy_disk ?p = [str ''f.enc'']" "keys_once toy_disk"
    "lookup toy_disk (?p @ [str ''f.enc'']) = Some (File (replicate 24 5 @ replicate 16 5 @ [1, 2]))" by code_simp+
  have l: "lookup toy_disk (?p @ [m]) = (if m = str ''f.enc'' then Some (File (replicate 24 5 @ replicate 16 5 @ [1, 2])) else None)" for m
    using set_children [of toy_disk ?p] c by auto
  have "length (str ''f.enc'') < FILE_ENCRYPTED_CHUNK_SIZE toy_sodium" by (simp add: str_def)
  then have "session_ready toy_sodium toy_op ?p ?w"
    using toy_home c(2) l by (auto simp: session_ready_def store_of_def idle_world_def split: if_splits)
  from session_refines [OF toy_session _ ok this f, simplified length_replicate] obtain op' w' out where
    "session_loop toy_sodium toy_op ?w = ret (op', w')"
    "store_of (disk w') ?p = fold after (map fst ?rs) (store_of (disk ?w) ?p)" "tx w' = tx ?w @ out"
    "transcript toy_sodium (server_tx toy_op) (map fst ?rs) (store_of (disk ?w) ?p) out" by (simp del: transcript.simps) blast
  then show ?thesis by (simp add: toy_op_def idle_world_def del: transcript.simps)
qed

end
