(* ===== verification/End_To_End.thy ===== *)
theory End_To_End
  imports FS_Requests Client_Agents Key_Exchange
begin

text \<open>
  Client and server together. Each side runs its own code in its own environment; what one
  side receives is what the other has sent. The theorems: an upload leaves an encrypted copy
  of the file on the server, and a later download gives the client back the very bytes it
  uploaded.
\<close>

section \<open>What the server keeps\<close>

text \<open>
  \<open>bs\<close> is an encrypted copy of \<open>xs\<close> under a password: stream header, salt, and the
  chunks of the file stream, the key being derived from password and salt.
\<close>

definition encrypted_file :: "'st sodium \<Rightarrow> cpp_string \<Rightarrow> byte list \<Rightarrow> byte list \<Rightarrow> bool" where
  "encrypted_file S password xs bs \<longleftrightarrow> (\<exists>iv salt key. length salt = pwhash_SALTBYTES S \<and>
     pwhash S (box_SEEDBYTES S) password salt = Some key \<and>
     bs = sealed_header S iv key @ salt @ concat (sealed_chunks S iv key xs))"

lemma file_chunks_shape:
  assumes "0 < n"
  obtains cs z where "file_chunks n xs = cs @ [z]" "\<forall>c \<in> set cs. length c = n" "length z < n"
proof -
  have "\<exists>cs z. file_chunks n xs = cs @ [z] \<and> (\<forall>c \<in> set cs. length c = n) \<and> length z < n"
    using assms
  proof (induction n xs rule: file_chunks.induct)
    case (1 n xs)
    show ?case
    proof (cases "length xs < n")
      case True
      then show ?thesis by (subst file_chunks.simps) auto
    next
      case False
      with 1 obtain cs z where ih: "file_chunks n (drop n xs) = cs @ [z]" "\<forall>c \<in> set cs. length c = n" "length z < n"
        by auto
      have "file_chunks n xs = (take n xs # cs) @ [z]"
        using False 1(2) ih(1) by (subst file_chunks.simps) simp
      with ih False show ?thesis by (intro exI [of _ "take n xs # cs"] exI [of _ z]) auto
    qed
  qed
  with that show ?thesis by blast
qed

text \<open>The blocks a download reads are the chunks the upload sent, although nobody stores their lengths.\<close>

lemma stored_blocks:
  assumes "ss_in_step S sync"
  shows "file_chunks (FILE_ENCRYPTED_CHUNK_SIZE S) (concat (sealed_chunks S iv key xs)) = sealed_chunks S iv key xs"
proof -
  let ?n = "FILE_ENCRYPTED_CHUNK_SIZE S" and ?st = "fst (ss_init_push S iv key)"
  obtain st' where st': "sync ?st st'" using ss_initE [OF assms] by metis
  have pos: "0 < CHUNK_SIZE" by (simp add: CHUNK_SIZE_def)
  obtain cs z where cz: "file_chunks CHUNK_SIZE xs = cs @ [z]" "\<forall>c \<in> set cs. length c = CHUNK_SIZE" "length z < CHUNK_SIZE"
    using file_chunks_shape [OF pos] .
  let ?ms = "final_tags S (file_chunks CHUNK_SIZE xs)" let ?ds = "sealed_chunks S iv key xs"
  have "map length ?ds = map (\<lambda>m. length m + ss_ABYTES S) (map fst ?ms)"
    unfolding sealed_chunks_def push_all_lengths [OF assms st'] map_map comp_def by (simp add: split_beta)
  then have len: "map length ?ds = map (\<lambda>m. length m + ss_ABYTES S) cs @ [length z + ss_ABYTES S]"
    by (simp add: cz(1))
  then have ne: "?ds \<noteq> []" by (metis append_is_Nil_conv list.map_disc_iff not_Cons_self2)
  have last: "length (last ?ds) = length z + ss_ABYTES S"
    using len ne by (metis last_map last_snoc)
  have "map length (butlast ?ds) = map (\<lambda>m. length m + ss_ABYTES S) cs"
    using len by (metis butlast_snoc map_butlast)
  then have "\<forall>d \<in> set (butlast ?ds). length d \<in> set (map (\<lambda>m. length m + ss_ABYTES S) cs)"
    by (metis image_eqI list.set_map)
  then have "\<forall>d \<in> set (butlast ?ds). length d = ?n"
    using cz(2) by (auto simp: FILE_ENCRYPTED_CHUNK_SIZE_def)
  moreover have "length (last ?ds) < ?n" "0 < ?n"
    using last cz(3) pos by (simp_all add: FILE_ENCRYPTED_CHUNK_SIZE_def)
  ultimately have "file_chunks ?n (concat (butlast ?ds) @ last ?ds) = butlast ?ds @ [last ?ds]"
    by (intro file_chunks_concat)
  moreover have "concat (butlast ?ds) @ last ?ds = concat ?ds"
    using ne by (metis append_butlast_last_id concat_append concat.simps append_Nil2)
  ultimately show ?thesis using ne by simp
qed

lemma sealed_chunks_fit:
  assumes "ss_in_step S sync" "0 < FILE_ENCRYPTED_CHUNK_SIZE S"
  shows "sealed_chunks S iv key xs \<noteq> []"
    "\<forall>c \<in> set (sealed_chunks S iv key xs). length c \<le> FILE_ENCRYPTED_CHUNK_SIZE S"
  using file_chunks_props(1,3) [of "FILE_ENCRYPTED_CHUNK_SIZE S" "concat (sealed_chunks S iv key xs)"] assms(2)
  unfolding stored_blocks [OF assms(1)] by blast+

section \<open>Upload\<close>

lemma file_salt_length [simp]: "length (file_salt S w) = pwhash_SALTBYTES S"
  by (simp add: file_salt_def)

lemma c_path_id: "0 \<notin> set s \<Longrightarrow> c_path s = s"
  by (auto simp: c_path_def intro!: takeWhile_eq_all_conv [THEN iffD2])

text \<open>The situation of an upload: the client holds a readable file, the server has the user's directory.\<close>

definition upload_ready ::
    "'st sodium \<Rightarrow> comms_agent \<Rightarrow> sender_agent \<Rightarrow> cpp_string \<Rightarrow> cpp_string \<Rightarrow> byte list \<Rightarrow> world \<Rightarrow> bool" where
  "upload_ready S CA SA name password xs v \<longleftrightarrow>
     length (sa_nonce SA) = aead_NPUBBYTES S \<and> length (sa_buffer SA) = FILE_ENCRYPTED_CHUNK_SIZE S \<and>
     tx_plan v = [] \<and> length name \<le> PRE_EXT_FILE_NAME_LEN \<and> 0 \<notin> set name \<and> slash \<notin> set name \<and>
     (\<exists>p. resolve (disk v) name = Inr p \<and> lookup (disk v) p = Some (File xs)) \<and>
     pwhash S (box_SEEDBYTES S) password (file_salt S v) \<noteq> None"

lemma upload_end_to_end_run:
  assumes S: "session_laws S" "secretstream_laws S" and keys: "client_tx CA = server_rx op"
    and c: "upload_ready S CA SA name password xs v"
    and s: "home op (disk w) p" "lookup (disk w) (p @ [name @ ext]) \<noteq> Some Dir"
    and sent: "encrypt_and_send_to_server S CA name password SA v = ret ((rc, SA'), v')"
    and recvd: "feeds w (drop (length (tx v)) (tx v') @ rest)"
  shows "rc = 0 \<and> (\<exists>w' bs. WTFS_Handler__Server S op w = ret (0, w') \<and> feeds w' rest \<and> tx w' = tx w \<and>
     tx_plan w' = tx_plan w \<and> cwd (disk w') = cwd (disk w) \<and> encrypted_file S password xs bs \<and> lookup (disk w') (p @ [name @ ext]) = Some (File bs) \<and>
     (\<forall>q. q \<noteq> p @ [name @ ext] \<longrightarrow> lookup (disk w') q = lookup (disk w) q))"
proof -
  from c obtain r key where n: "length (sa_nonce SA) = aead_NPUBBYTES S" "tx_plan v = []"
      "length (sa_buffer SA) = FILE_ENCRYPTED_CHUNK_SIZE S"
    and name: "length name \<le> PRE_EXT_FILE_NAME_LEN" "0 \<notin> set name" "slash \<notin> set name"
    and f: "resolve (disk v) (c_path name) = Inr r" "lookup (disk v) r = Some (File xs)"
    and k: "pwhash S (box_SEEDBYTES S) password (file_salt S v) = Some key"
    by (auto simp: upload_ready_def c_path_id)
  let ?h = "sealed_header S (file_iv S v) key" and ?cs = "sealed_chunks S (file_iv S v) key xs"
  have sz: "sodium_sizes S" using S(1) by (simp add: session_laws_def)
  have fit: "length name \<le> FILE_ENCRYPTED_CHUNK_SIZE S"
    using name(1) chunk_sizes [OF sz] by (simp add: PRE_EXT_FILE_NAME_LEN_def)
  obtain sync where sync: "ss_in_step S sync" using ss_startE [OF S(2)] .
  have h: "length ?h = ss_HEADERBYTES S" using ss_initE [OF sync] by metis
  have pos: "0 < FILE_ENCRYPTED_CHUNK_SIZE S" using chunk_sizes [OF sz] by simp
  from upload_run [OF S n fit f k, of CA] sent
  have rc: "rc = 0" and tx: "tx v' = tx v @ upload_bytes S (server_rx op) (sa_nonce SA) name ?h (file_salt S v) ?cs"
    by (auto simp: keys)
  from recvd tx have "feeds w (upload_bytes S (server_rx op) (sa_nonce SA) name ?h (file_salt S v) ?cs @ rest)" by simp
  from WTFS_store_run [OF S(1) n(1) name h file_salt_length sealed_chunks_fit [OF sync pos] s this]
  obtain w' where "WTFS_Handler__Server S op w = ret (0, w')" "feeds w' rest" "tx w' = tx w"
    "tx_plan w' = tx_plan w" "cwd (disk w') = cwd (disk w)" "lookup (disk w') (p @ [name @ ext]) = Some (File (?h @ file_salt S v @ concat ?cs))"
    "\<forall>q. q \<noteq> p @ [name @ ext] \<longrightarrow> lookup (disk w') q = lookup (disk w) q" by blast
  moreover have "encrypted_file S password xs (?h @ file_salt S v @ concat ?cs)"
    unfolding encrypted_file_def using k file_salt_length by blast
  ultimately show ?thesis using rc by blast
qed

section \<open>Download\<close>

lemma download_end_to_end_run:
  assumes S: "session_laws S" "secretstream_laws S" and keys: "client_rx CA = server_tx op"
    and s: "tx_plan w = []" "home op (disk w) p" "lookup (disk w) (p @ [name]) = Some (File bs)"
      "encrypted_file S password xs bs"
    and name: "length name < PRE_EXT_FILE_NAME_LEN" "0 \<notin> set name" "plain_name name"
    and req: "length nonce = aead_NPUBBYTES S" "feeds w (frame S (server_rx op) nonce (name @ [0]) @ rest)"
  shows "\<exists>op' w'. RFFS_Handler__Server S op w = ret ((0, op'), w') \<and> feeds w' rest \<and> disk w' = disk w \<and>
     (\<forall>u q RA rest'. lookup (disk u) q = Some (File []) \<and> feeds u (drop (length (tx w)) (tx w') @ rest') \<longrightarrow>
       (\<exists>RA' u'. decrypt_and_read_from_server S CA (Some q) password RA u = ret ((0, RA'), u') \<and>
          feeds u' rest' \<and> lookup (disk u') q = Some (File xs) \<and>
          (\<forall>r. r \<noteq> q \<longrightarrow> lookup (disk u') r = lookup (disk u) r)))"
proof -
  from s(4) obtain iv salt key where e: "length salt = pwhash_SALTBYTES S"
    "pwhash S (box_SEEDBYTES S) password salt = Some key"
    "bs = sealed_header S iv key @ salt @ concat (sealed_chunks S iv key xs)" by (auto simp: encrypted_file_def)
  obtain sync where sync: "ss_in_step S sync" using ss_startE [OF S(2)] .
  have h: "length (sealed_header S iv key) = ss_HEADERBYTES S" using ss_initE [OF sync] by metis
  let ?n = "fst (randombytes_buf (aead_NPUBBYTES S) w)"
  from RFFS_run [OF S(1) req(1) s(1) name h e(1) s(2) s(3) [unfolded e(3)] req(2)]
  obtain op' w' where w': "RFFS_Handler__Server S op w = ret ((0, op'), w')" "feeds w' rest" "disk w' = disk w"
    "tx w' = tx w @ download_bytes S (server_tx op) ?n (sealed_header S iv key) salt (sealed_chunks S iv key xs)"
    unfolding stored_blocks [OF sync] by blast
  have "\<exists>RA' u'. decrypt_and_read_from_server S CA (Some q) password RA u = ret ((0, RA'), u') \<and>
      feeds u' rest' \<and> lookup (disk u') q = Some (File xs) \<and> (\<forall>r. r \<noteq> q \<longrightarrow> lookup (disk u') r = lookup (disk u) r)"
    if c: "lookup (disk u) q = Some (File [])" and f: "feeds u (drop (length (tx w)) (tx w') @ rest')" for u q RA rest'
  proof -
    let ?ms = "final_tags S (file_chunks CHUNK_SIZE xs)"
    have ms: "?ms \<noteq> []" "\<forall>(m, t) \<in> set ?ms. length m \<le> CHUNK_SIZE" "concat (map fst ?ms) = xs"
      using file_chunks_fit [of CHUNK_SIZE S xs] by (simp_all add: file_chunks_props CHUNK_SIZE_def)
    from f w'(4) have "feeds u (download_bytes S (client_rx CA) ?n (sealed_header S iv key) salt
        (push_all S (fst (ss_init_push S iv key)) ?ms) @ rest')" by (simp add: keys sealed_chunks_def)
    from download_run [OF S(1) length_randombytes sync e(1,2) ms(1,2) this]
    obtain u' where u': "decrypt_and_read_from_server S CA (Some q) password RA u = ret ((0, RA\<lparr>ra_key := key\<rparr>), u')"
      "feeds u' rest'" "only_rx (u\<lparr>disk := write_out (Some q) xs (disk u)\<rparr>) u'"
      unfolding ms(3) by blast
    from only_rx_fields(6) [OF u'(3)] lookup_write_out [OF c] u'(1,2) show ?thesis by simp
  qed
  with w'(1-3) show ?thesis by blast
qed

end
