(* ===== verification/Client_Session.thy ===== *)
theory Client_Session
  imports Client File_Store End_To_End
begin

text \<open>
  The client program at work with the server: what the terminal input routines return and when
  they do not, a login, a listing and a deletion end to end. As in theory \<open>End_To_End\<close> each side
  runs in its own environment and receives what the other has sent.
\<close>

section \<open>The terminal\<close>

text \<open>The characters \<open>std::cin\<close> still has to offer once a failed stream has been cleared.\<close>

definition cin_open :: "world \<Rightarrow> byte list" where
  "cin_open w = (if cin_fail w then tl (cin_rest w) else cin_rest w)"

lemma token_split:
  assumes "\<forall>b \<in> set sp. is_space b" "tok \<noteq> []" "\<forall>b \<in> set tok. \<not> is_space b" "rest = [] \<or> is_space (hd rest)"
  shows "dropWhile is_space (sp @ tok @ rest) = tok @ rest"
    "takeWhile (\<lambda>b. \<not> is_space b) (tok @ rest) = tok" "dropWhile (\<lambda>b. \<not> is_space b) (tok @ rest) = rest"
proof -
  have h: "\<not> is_space (hd tok)" using assms(2,3) by simp
  show "dropWhile is_space (sp @ tok @ rest) = tok @ rest"
    using assms(1,2) h by (cases tok) (simp_all add: dropWhile_append2 dropWhile_append)
  show "takeWhile (\<lambda>b. \<not> is_space b) (tok @ rest) = tok"
    using assms(3,4) by (cases rest) (simp_all add: takeWhile_append2 takeWhile_append takeWhile_eq_all_conv [THEN iffD2])
  show "dropWhile (\<lambda>b. \<not> is_space b) (tok @ rest) = rest"
    using assms(3,4) by (cases rest) (simp_all add: dropWhile_append2 dropWhile_append)
qed

text \<open>The next word on the terminal is \<open>tok\<close>, and \<open>rest\<close> follows it.\<close>

definition offers :: "world \<Rightarrow> cpp_string \<Rightarrow> byte list \<Rightarrow> bool" where
  "offers w tok rest \<longleftrightarrow> \<not> cin_fail w \<and> tok \<noteq> [] \<and> (\<forall>b \<in> set tok. \<not> is_space b) \<and>
     (rest = [] \<or> is_space (hd rest)) \<and> (\<exists>sp. (\<forall>b \<in> set sp. is_space b) \<and> cin_rest w = sp @ tok @ rest)"

lemma cin_string_offers:
  assumes "offers w tok rest"
  shows "cin_string old w = (True, tok, w\<lparr>cin_rest := rest\<rparr>)"
proof -
  from assms obtain sp where sp: "\<not> cin_fail w" "tok \<noteq> []" "\<forall>b \<in> set tok. \<not> is_space b" "rest = [] \<or> is_space (hd rest)"
    "\<forall>b \<in> set sp. is_space b" "cin_rest w = sp @ tok @ rest" unfolding offers_def by blast
  note s = token_split [OF sp(5,2-4)]
  show ?thesis unfolding cin_string_def cin_ready_def Let_def using sp(1,2,6)
    by (simp only: s world.select_convs world.update_convs) (simp add: s)
qed

lemma get_stuff_offers: "offers w tok rest \<Longrightarrow> get_stuff_string old w = ret (tok, w\<lparr>cin_rest := rest\<rparr>)"
  by (subst get_stuff_string.simps) (simp add: cin_string_offers)

lemma get_stuff_string_returns:
  assumes "\<exists>b \<in> set (cin_open w). \<not> is_space b"
  shows "returns (get_stuff_string old w)"
proof -
  have good: "returns (get_stuff_string old w)" if "\<not> cin_fail w" "\<exists>b \<in> set (cin_rest w). \<not> is_space b" for w
    using that by (subst get_stuff_string.simps) (auto simp: cin_string_def cin_ready_def Let_def)
  show ?thesis
  proof (cases "cin_fail w")
    case True
    then have "get_stuff_string old w = get_stuff_string old (cin_retry w)"
      by (subst get_stuff_string.simps) (simp add: cin_string_def cin_ready_def)
    moreover have "returns (get_stuff_string old (cin_retry w))"
      by (rule good) (use assms True in \<open>simp_all add: cin_retry_def cin_open_def\<close>)
    ultimately show ?thesis by simp
  qed (use assms good in \<open>simp add: cin_open_def\<close>)
qed

lemma get_stuff_string_hangs:
  assumes "\<forall>b \<in> set (cin_open w). is_space b"
  shows "get_stuff_string old w = None"
proof (rule ccontr)
  assume "get_stuff_string old w \<noteq> None"
  then obtain r where run: "get_stuff_string old w = Some r" by auto
  let ?P = "\<lambda>(old :: cpp_string) w (r :: fault + cpp_string \<times> world). \<not> (\<forall>b \<in> set (cin_open w). is_space b)"
  have "?P old w r"
  proof (rule get_stuff_string.raw_induct [where P = ?P, OF _ run])
    fix f old w r
    assume IH: "\<And>old w r. f old w = Some r \<Longrightarrow> ?P old w r"
      and step: "(let (good, stuff, w) = cin_string old w in if good then ret (stuff, w) else f stuff (cin_retry w)) = Some r"
    show "?P old w r"
    proof
      assume sp: "\<forall>b \<in> set (cin_open w). is_space b"
      show False
      proof (cases "cin_fail w")
        case True
        with step have "f old (cin_retry w) = Some r" by (simp add: cin_string_def cin_ready_def)
        from IH [OF this] sp True show False by (simp add: cin_retry_def cin_open_def)
      next
        case False
        with sp have "dropWhile is_space (cin_rest w) = []" by (simp add: cin_open_def)
        with step False have "f old (cin_retry (w\<lparr>cin_rest := [], cin_fail := True\<rparr>)) = Some r"
          by (simp add: cin_string_def cin_ready_def)
        from IH [OF this] show False by (simp add: cin_retry_def cin_open_def)
      qed
    qed
  qed
  with assms show False by simp
qed

text \<open>
  C40. Reading a word from the terminal ends exactly when there is one: \<open>get_stuff\<close> returns if
  and only if a character other than white space is still to come (after the one that is
  dropped when the stream had failed); at the end of the input it never returns.
\<close>

theorem get_stuff_string_ends:
  "returns (get_stuff_string old w) \<longleftrightarrow> (\<exists>b \<in> set (cin_open w). \<not> is_space b)"
  using get_stuff_string_returns [of w old] get_stuff_string_hangs [of w old] by (cases "\<exists>b \<in> set (cin_open w). \<not> is_space b") (auto simp: returns_def)

section \<open>Login\<close>

text \<open>
  The user types name and password; the connection's next bytes are the four of the answer,
  which arrive in one piece.
\<close>

lemma send_credentials_run:
  assumes S: "session_laws S" "length nonce = aead_NPUBBYTES S"
    and typed: "offers v u xs" "offers (v\<lparr>cin_rest := xs\<rparr>) p rest"
    and up: "length u < FILE_ENCRYPTED_CHUNK_SIZE S" "length p < FILE_ENCRYPTED_CHUNK_SIZE S" "tx_plan v = []"
    and ans: "rx v = Seg (i32_bytes a) # es"
  shows "send_credentials S txkey nonce v =
     (if a = - 1 then fails (Exit_Process (- 1))
      else ret ((0, replicate (length u) 0, p, counter S 2 nonce),
        v\<lparr>cin_rest := rest, c_lflag := c_lflag v OR ECHO, tx := tx v @ credential_bytes S txkey nonce u p, rx := es\<rparr>))"
proof -
  let ?n = "sodium_increment S nonce" and ?v = "v\<lparr>cin_rest := rest, c_lflag := c_lflag v OR ECHO\<rparr>"
  have n: "length ?n = aead_NPUBBYTES S" using S length_increment by metis
  have fit: "length (u @ [0]) \<le> FILE_ENCRYPTED_CHUNK_SIZE S" "length (p @ [0]) \<le> FILE_ENCRYPTED_CHUNK_SIZE S"
    using up by simp_all
  have send: "session_send S (u @ [0]) txkey nonce ?v = ret (?n, ?v\<lparr>tx := tx v @ frame S txkey nonce (u @ [0])\<rparr>)"
    "session_send S (p @ [0]) txkey ?n (?v\<lparr>tx := tx v @ frame S txkey nonce (u @ [0])\<rparr>) =
      ret (counter S 2 nonce, ?v\<lparr>tx := tx v @ credential_bytes S txkey nonce u p\<rparr>)"
    using session_send_frame [OF S fit(1), of ?v txkey] up(3)
      session_send_frame [OF S(1) n fit(2), of "?v\<lparr>tx := tx v @ frame S txkey nonce (u @ [0])\<rparr>" txkey]
    by (simp_all add: credential_bytes_def counter_def numeral_2_eq_2)
  have "write_into (i32_bytes (- 1)) (i32_bytes a) = i32_bytes a" by (simp add: write_into_full)
  moreover have "offers (disable_echo (v\<lparr>cin_rest := xs\<rparr>)) p rest" using typed(2) by (simp add: offers_def disable_echo_def)
  moreover have "enable_echo ((disable_echo (v\<lparr>cin_rest := xs\<rparr>))\<lparr>cin_rest := rest\<rparr>) = ?v"
    by (cases v) (simp add: enable_echo_def disable_echo_def)
  ultimately show ?thesis using typed(1) send ans
    by (simp add: send_credentials_def get_stuff_offers recv_def after_piece_def Let_def)
qed

text \<open>
  C6. Login, end to end: the server reads the name and the password the user typed and accepts
  exactly when the database does; the client, answered accordingly, goes on with the password
  (the terminal echoes again) or leaves the program.
\<close>

theorem login_end_to_end:
  assumes "session_laws S" "length nonce = aead_NPUBBYTES S"
    and "offers v u xs" "offers (v\<lparr>cin_rest := xs\<rparr>) p rest" "0 \<notin> set u"
    and "length u < FILE_ENCRYPTED_CHUNK_SIZE S" "length p < FILE_ENCRYPTED_CHUNK_SIZE S" "tx_plan v = []"
    and "db_row DB u \<noteq> Some None"
    and "feeds w (credential_bytes S key nonce u p @ rest')" "verify_credentials S DB key w = ret ((rc, user), w')"
    and "rx v = Seg (i32_bytes (if rc = 0 then ACK_SUC else ACK_FAIL)) # es"
  shows "user = u \<and> feeds w' rest' \<and> (rc = 0 \<longleftrightarrow> accepts S DB u p) \<and>
     (if accepts S DB u p then
        \<exists>v' nonce'. send_credentials S key nonce v = ret ((0, replicate (length u) 0, p, nonce'), v') \<and>
          tx v' = tx v @ credential_bytes S key nonce u p \<and> rx v' = es \<and> cin_rest v' = rest \<and>
          c_lflag v' = c_lflag v OR ECHO
      else send_credentials S key nonce v = fails (Exit_Process (- 1)))"
proof -
  from verify_honest [OF assms(1,2,5-7,9,10)] assms(11)
  have rc: "rc = (if accepts S DB u p then 0 else 1)" "user = u" "feeds w' rest'" by auto
  from send_credentials_run [OF assms(1-4,6-8,12), of key] rc show ?thesis
    by (auto simp: ACK_SUC_def ACK_FAIL_def)
qed

theorem login_end_to_end_witness:
  "\<exists>v' nonce'. send_credentials toy_sodium [7] (replicate 8 0)
       (idle_world\<lparr>cin_rest := str ''u pw'', rx := [Seg (i32_bytes 0)]\<rparr>) = ret ((0, [0], str ''pw'', nonce'), v') \<and>
     tx v' = credential_bytes toy_sodium [7] (replicate 8 0) (str ''u'') (str ''pw'')"
proof -
  let ?v = "idle_world\<lparr>cin_rest := str ''u pw'', rx := [Seg (i32_bytes 0)]\<rparr>"
  let ?w = "idle_world\<lparr>rx := [Seg (credential_bytes toy_sodium [7] (replicate 8 0) (str ''u'') (str ''pw''))]\<rparr>"
  have sp: "is_space 32" "\<forall>b \<in> set (str ''u''). \<not> is_space b" "\<forall>b \<in> set (str ''pw''). \<not> is_space b"
    "str ''u pw'' = [] @ str ''u'' @ 32 # str ''pw''" "str ''u'' \<noteq> []" "str ''pw'' \<noteq> []" by code_simp+
  have o: "offers ?v (str ''u'') (32 # str ''pw'')" "offers (?v\<lparr>cin_rest := 32 # str ''pw''\<rparr>) (str ''pw'') []"
    using sp by (auto simp: offers_def idle_world_def intro!: exI [of _ "[]"] exI [of _ "[32]"])
  have l: "length (str ''u'') < FILE_ENCRYPTED_CHUNK_SIZE toy_sodium" "length (str ''pw'') < FILE_ENCRYPTED_CHUNK_SIZE toy_sodium"
    by (simp_all add: str_def)
  have db: "db_row toy_db (str ''u'') \<noteq> Some None" by (simp add: toy_db_def)
  from verify_honest [OF toy_session _ toy_login(2) l db toy_login(3)] toy_login(1) obtain w' where
    w': "verify_credentials toy_sodium toy_db [7] ?w = ret ((0, str ''u''), w')" by auto
  have n: "length (replicate 8 0 :: byte list) = aead_NPUBBYTES toy_sodium" by simp
  have p: "tx_plan ?v = []" by (simp add: idle_world_def)
  have ans: "rx ?v = Seg (i32_bytes (if (0 :: int) = 0 then ACK_SUC else ACK_FAIL)) # []" by (simp add: ACK_SUC_def)
  from login_end_to_end [OF toy_session n o toy_login(2) l p db toy_login(3) w' ans] toy_login(1)
  show ?thesis by (auto simp: idle_world_def str_def)
qed

section \<open>Listing\<close>

lemma list_names_run:
  assumes "session_laws S" "\<forall>i. length (nonces i) = aead_NPUBBYTES S"
    and "\<forall>n \<in> set ns. 0 \<notin> set n \<and> length n + 1 < MAX_FILE_NAME_LENGTH"
    and "feeds u (name_frames S (client_rx CA) nonces ns @ rest)"
  shows "\<exists>u'. list_names S CA (length ns) u = ret (0, u') \<and> feeds u' rest \<and> only_rx (u\<lparr>cout := cout u @ ns\<rparr>) u'"
  using assms(2-4)
proof (induction ns arbitrary: u nonces)
  case Nil
  then show ?case by simp
next
  case (Cons n ns)
  let ?f = "frame S (client_rx CA) (nonces 0) (n @ [0])"
  let ?r = "name_frames S (client_rx CA) (nonces \<circ> Suc) ns @ rest"
  have n: "0 \<notin> set n" "length (n @ [0]) \<le> MAX_FILE_NAME_LENGTH - 1" "MAX_FILE_NAME_LENGTH - 1 \<le> 65553"
    using Cons.prems(2) by (simp_all add: MAX_FILE_NAME_LENGTH_def)
  have len: "length (nonces 0) = aead_NPUBBYTES S" "\<forall>i. length ((nonces \<circ> Suc) i) = aead_NPUBBYTES S"
    using Cons.prems(1) by simp_all
  from Cons.prems(3) have "feeds u (?f @ ?r)" by simp
  from read_messageE [OF assms(1) len(1) n(2,3) this] obtain u1 where
    u1: "SessionEncWrapper_reader S u = ret (framed (sealed S (client_rx CA) (nonces 0) (n @ [0])), u1)"
    "feeds u1 ?r" "only_rx u u1"
    "\<And>b l. unwrap S (framed (sealed S (client_rx CA) (nonces 0) (n @ [0]))) (client_rx CA) (MAX_FILE_NAME_LENGTH - 1) b l =
       (0, framed (sealed S (client_rx CA) (nonces 0) (n @ [0])), write_into b (n @ [0]), word_of_nat (length (n @ [0])))"
    by metis
  let ?u = "u1\<lparr>cout := cout u1 @ [n]\<rparr>"
  have c: "c_str (write_into (replicate MAX_FILE_NAME_LENGTH 0) (n @ [0])) = Some n"
    using c_str_terminated [OF n(1)] by (simp add: write_into_def)
  have step: "list_names S CA (length (n # ns)) u = list_names S CA (length ns) ?u"
    by (simp add: u1(1) u1(4) [simplified] get_client_rx_def is_corrupted_def c [simplified])
  have "\<forall>n \<in> set ns. 0 \<notin> set n \<and> length n + 1 < MAX_FILE_NAME_LENGTH" "feeds ?u ?r"
    using Cons.prems(2) u1(2) by (simp_all add: feeds_def)
  from Cons.IH [OF len(2) this] obtain u' where u': "list_names S CA (length ns) ?u = ret (0, u')" "feeds u' rest"
    "only_rx (?u\<lparr>cout := cout ?u @ ns\<rparr>) u'" by blast
  have "only_rx (u\<lparr>cout := cout u @ n # ns\<rparr>) (u1\<lparr>cout := cout u @ n # ns\<rparr>)"
    using u1(3) by (cases u; cases u1) (simp add: only_rx_def)
  then have "only_rx (u\<lparr>cout := cout u @ n # ns\<rparr>) u'"
    using u'(3) only_rx_fields(10) [OF u1(3)] by (auto intro: only_rx_trans)
  with u'(1,2) step show ?case by auto
qed

lemma sint_of_nat_i32: "k < 2 ^ 31 \<Longrightarrow> nat (sint (word_of_nat k :: i32)) = k"
  by (simp add: signed_of_nat signed_take_bit_int_eq_self)

lemma list_run:
  assumes S: "session_laws S" "\<forall>i. length (nonces i) = aead_NPUBBYTES S" "length nonce = aead_NPUBBYTES S"
    and ns: "\<forall>n \<in> set ns. 0 \<notin> set n \<and> length n + 1 < MAX_FILE_NAME_LENGTH" "length ns < 2 ^ 31"
    and u: "feeds u (frame S (client_rx CA) nonce (i32_bytes (word_of_nat (length ns))) @ name_frames S (client_rx CA) nonces ns @ rest)"
  shows "\<exists>u'. LFFS_Handler S CA u = ret (0, u') \<and> feeds u' rest \<and> only_rx (u\<lparr>cout := cout u @ ns\<rparr>) u'"
proof -
  from readerE [OF S(1,3) i32_fits [OF S(1)] u] obtain u1 where
    u1: "SessionEncWrapper_reader S u = ret (framed (sealed S (client_rx CA) nonce (i32_bytes (word_of_nat (length ns)))), u1)"
    "feeds u1 (name_frames S (client_rx CA) nonces ns @ rest)" "only_rx u u1" .
  from list_names_run [OF S(1,2) ns(1) u1(2)] obtain u' where u': "list_names S CA (length ns) u1 = ret (0, u')" "feeds u' rest"
    "only_rx (u1\<lparr>cout := cout u1 @ ns\<rparr>) u'" by auto
  have "LFFS_Handler S CA u = ret (0, u')"
    by (simp add: LFFS_Handler_def u1(1) is_corrupted_def get_client_rx_def unwrap_i32 [OF S(1,3)]
        sint_of_nat_i32 [OF ns(2)] u'(1))
  moreover have "only_rx (u\<lparr>cout := cout u @ ns\<rparr>) u'"
    using only_rx_trans [OF only_rx_cout [OF u1(3)] u'(3) [unfolded only_rx_fields(10) [OF u1(3)]]] .
  ultimately show ?thesis using u'(2) by blast
qed

text \<open>
  C7. A listing, end to end: what the server's handler sends makes the client print exactly
  the names in the user's directory, each once; nothing changes on the server's disk.
\<close>

theorem listing_end_to_end:
  assumes S: "session_laws S" and keys: "client_rx CA = server_tx op"
    and s: "tx_plan w = []" "home op (disk w) p" "keys_once (disk w)" "length (children (disk w) p) < 2 ^ 31"
    and ns: "\<forall>n \<in> set (children (disk w) p). 0 \<notin> set n \<and> length n + 1 < MAX_FILE_NAME_LENGTH"
  shows "\<exists>op' w'. LFFS_Handler__Server S op w = ret ((0, op'), w') \<and> disk w' = disk w \<and>
     (\<forall>u rest. feeds u (drop (length (tx w)) (tx w') @ rest) \<longrightarrow>
       (\<exists>u' names. LFFS_Handler S CA u = ret (0, u') \<and> feeds u' rest \<and> cout u' = cout u @ names \<and>
          distinct names \<and> set names = {n. lookup (disk w) (p @ [n]) \<noteq> None}))"
proof -
  let ?ns = "children (disk w) p"
  have "sodium_sizes S" using S by (simp add: session_laws_def)
  then have "\<forall>n \<in> set ?ns. length n < FILE_ENCRYPTED_CHUNK_SIZE S"
    using ns by (force simp: chunk_sizes MAX_FILE_NAME_LENGTH_def)
  from LFFS_run [OF S s(1,2) this] obtain op' w' where w': "LFFS_Handler__Server S op w = ret ((0, op'), w')"
    "disk w' = disk w" "tx w' = tx w @ frame S (server_tx op) (nonce_at S w 0) (i32_bytes (word_of_nat (length ?ns))) @
       name_frames S (server_tx op) (nonce_at S w \<circ> Suc) ?ns" by blast
  have "\<exists>u' names. LFFS_Handler S CA u = ret (0, u') \<and> feeds u' rest \<and> cout u' = cout u @ names \<and>
      distinct names \<and> set names = {n. lookup (disk w) (p @ [n]) \<noteq> None}"
    if "feeds u (drop (length (tx w)) (tx w') @ rest)" for u rest
  proof -
    from that w'(3) have "feeds u (frame S (client_rx CA) (nonce_at S w 0) (i32_bytes (word_of_nat (length ?ns))) @
        name_frames S (client_rx CA) (nonce_at S w \<circ> Suc) ?ns @ rest)" by (simp add: keys)
    from list_run [OF S _ length_nonce_at ns s(4) this] obtain u' where u': "LFFS_Handler S CA u = ret (0, u')" "feeds u' rest"
      "only_rx (u\<lparr>cout := cout u @ ?ns\<rparr>) u'" by auto
    moreover have "cout u' = cout u @ ?ns" using only_rx_fields(10) [OF u'(3)] by simp
    ultimately show ?thesis using u'(2) distinct_children [OF s(3)] set_children by blast
  qed
  with w'(1,2) show ?thesis by blast
qed

lemma distinct_singleton_list:
  assumes "set xs = {x}" "distinct xs"
  shows "xs = [x]"
proof -
  from assms have "length xs = 1" using distinct_card [of xs] by simp
  with assms(1) show ?thesis by (cases xs) auto
qed

theorem listing_end_to_end_witness:
  "\<exists>op' w' u'. LFFS_Handler__Server toy_sodium toy_op (idle_world\<lparr>disk := toy_disk\<rparr>) = ret ((0, op'), w') \<and>
     LFFS_Handler toy_sodium toy_CA (idle_world\<lparr>rx := [Seg (tx w')]\<rparr>) = ret (0, u') \<and> cout u' = [str ''f.enc'']"
proof -
  let ?w = "idle_world\<lparr>disk := toy_disk\<rparr>" and ?p = "[str ''MEF_S'', str ''u'']"
  have h: "home toy_op (disk ?w) ?p" using toy_home by simp
  have c: "children (disk ?w) ?p = [str ''f.enc'']" "keys_once (disk ?w)" by (simp, code_simp)+
  have z: "0 \<notin> set (str ''f.enc'')" by code_simp
  have l: "length (children (disk ?w) ?p) < 2 ^ 31" unfolding c by simp
  have p: "tx_plan ?w = []" "tx ?w = []" by (simp_all add: idle_world_def)
  have k: "client_rx toy_CA = server_tx toy_op" by (simp add: toy_CA_def toy_op_def)
  have n: "\<forall>n \<in> set (children (disk ?w) ?p). 0 \<notin> set n \<and> length n + 1 < MAX_FILE_NAME_LENGTH"
    unfolding c using z by (simp add: MAX_FILE_NAME_LENGTH_def) (simp add: str_def)
  from listing_end_to_end [OF toy_session k p(1) h c(2) l n] obtain op' w' where
    w': "LFFS_Handler__Server toy_sodium toy_op ?w = ret ((0, op'), w')"
    "\<forall>u rest. feeds u (drop (length (tx ?w)) (tx w') @ rest) \<longrightarrow>
       (\<exists>u' names. LFFS_Handler toy_sodium toy_CA u = ret (0, u') \<and> feeds u' rest \<and> cout u' = cout u @ names \<and>
          distinct names \<and> set names = {n. lookup (disk ?w) (?p @ [n]) \<noteq> None})" by (elim exE conjE)
  have "\<forall>n \<in> set (children (disk ?w) ?p). length n < FILE_ENCRYPTED_CHUNK_SIZE toy_sodium"
    unfolding c by (simp add: str_def)
  from LFFS_run [OF toy_session p(1) h this] w'(1) have "tx w' \<noteq> []" by auto
  then have "feeds (idle_world\<lparr>rx := [Seg (tx w')]\<rparr>) (drop (length (tx ?w)) (tx w') @ [])"
    by (simp add: feeds_def p(2))
  from w'(2) [rule_format, OF this] obtain u' names where
    u': "LFFS_Handler toy_sodium toy_CA (idle_world\<lparr>rx := [Seg (tx w')]\<rparr>) = ret (0, u')"
    "cout u' = cout (idle_world\<lparr>rx := [Seg (tx w')]\<rparr>) @ names"
    "distinct names" "set names = {n. lookup (disk ?w) (?p @ [n]) \<noteq> None}" by (elim exE conjE)
  have "cout (idle_world\<lparr>rx := [Seg (tx w')]\<rparr>) = []" by (simp add: idle_world_def)
  with u'(2) have out: "cout u' = names" by (simp only: append_Nil)
  from u'(4) have "set names = {str ''f.enc''}" unfolding set_children [symmetric] c by simp
  then have "names = [str ''f.enc'']" using u'(3) by (rule distinct_singleton_list)
  with w'(1) u'(1) out show ?thesis by blast
qed

section \<open>Deletion\<close>

lemma delete_run:
  assumes S: "session_laws S" "length nonce = aead_NPUBBYTES S" and typed: "offers v name xs" "tx_plan v = []"
    and name: "length name < FILE_ENCRYPTED_CHUNK_SIZE S"
    and v: "feeds v (frame S (client_rx CA) nonce (i32_bytes a) @ rest)"
  shows "\<exists>v'. DFFS_Handler S CA v = ret (0, v') \<and> feeds v' rest \<and>
     only_rx (v\<lparr>cin_rest := xs, rnd_pos := rnd_pos v + aead_NPUBBYTES S,
       tx := tx v @ frame S (client_tx CA) (nonce_at S v 0) (name @ [0]),
       cout := cout v @ [if a = ACK_SUC then deleted_msg else not_deleted_msg]\<rparr>) v'"
proof -
  let ?v = "v\<lparr>cin_rest := xs, rnd_pos := rnd_pos v + aead_NPUBBYTES S\<rparr>"
  let ?v1 = "?v\<lparr>tx := tx v @ frame S (client_tx CA) (nonce_at S v 0) (name @ [0])\<rparr>"
  let ?msg = "if a = ACK_SUC then deleted_msg else not_deleted_msg"
  have send: "session_send S (name @ [0]) (client_tx CA) (nonce_at S v 0) ?v =
      ret (sodium_increment S (nonce_at S v 0), ?v1)"
    using session_send_frame [OF S(1) length_nonce_at, of "name @ [0]" ?v "client_tx CA" v 0] typed(2) name by simp
  have "feeds ?v1 (frame S (client_rx CA) nonce (i32_bytes a) @ rest)" using v by (simp add: feeds_def)
  from readerE [OF S i32_fits [OF S(1)] this] obtain v2 where v2: "SessionEncWrapper_reader S ?v1 =
      ret (framed (sealed S (client_rx CA) nonce (i32_bytes a)), v2)" "feeds v2 rest" "only_rx ?v1 v2" .
  have rnd: "randombytes_buf (aead_NPUBBYTES S) (v\<lparr>cin_rest := xs\<rparr>) = (nonce_at S v 0, ?v)"
    by (simp add: randombytes_buf_def nonce_at_def)
  have "DFFS_Handler S CA v = ret (0, v2\<lparr>cout := cout v2 @ [?msg]\<rparr>)"
    by (simp add: DFFS_Handler_def cin_string_offers [OF typed(1)] rnd get_client_tx_def get_client_rx_def send v2(1)
        is_corrupted_def unwrap_i32 [OF S] Let_def)
  moreover have "cout v2 = cout v" using only_rx_fields(10) [OF v2(3)] by simp
  moreover have "feeds (v2\<lparr>cout := cout v @ [?msg]\<rparr>) rest" using v2(2) by (simp add: feeds_def)
  ultimately show ?thesis using only_rx_cout [OF v2(3), of "cout v @ [?msg]"] by auto
qed

text \<open>
  C8. A deletion, end to end: the server that receives what the client sends removes the named
  file and nothing else, and the client, answered by the server, tells the user whether there
  was such a file.
\<close>

theorem deletion_end_to_end:
  assumes S: "session_laws S" and keys: "client_tx CA = server_rx op" "client_rx CA = server_tx op"
    and typed: "offers v name xs" "tx_plan v = []"
    and name: "length name < PRE_EXT_FILE_NAME_LEN" "0 \<notin> set name" "plain_name name"
    and s: "home op (disk w) p" "lookup (disk w) (p @ [name]) \<noteq> Some Dir" "tx_plan w = []"
    and w: "feeds w (frame S (client_tx CA) (nonce_at S v 0) (name @ [0]) @ rest)"
    and srv: "DFFS_Handler__Server S op w = ret ((rc, op'), w')"
    and v: "feeds v (drop (length (tx w)) (tx w') @ rest')"
  shows "rc = 0 \<and> feeds w' rest \<and> lookup (disk w') (p @ [name]) = None \<and>
     (\<forall>q. q \<noteq> p @ [name] \<longrightarrow> lookup (disk w') q = lookup (disk w) q) \<and>
     (\<exists>v'. DFFS_Handler S CA v = ret (0, v') \<and> feeds v' rest' \<and> cin_rest v' = xs \<and>
        tx v' = tx v @ frame S (client_tx CA) (nonce_at S v 0) (name @ [0]) \<and>
        cout v' = cout v @ [if lookup (disk w) (p @ [name]) = None then not_deleted_msg else deleted_msg])"
proof -
  let ?ans = "if lookup (disk w) (p @ [name]) = None then ACK_FAIL else ACK_SUC"
  from DFFS_run [OF S length_nonce_at s(3) name s(1,2) w [unfolded keys(1)]] srv
  have r: "rc = 0" "feeds w' rest" "lookup (disk w') (p @ [name]) = None"
    "\<forall>q. q \<noteq> p @ [name] \<longrightarrow> lookup (disk w') q = lookup (disk w) q"
    "tx w' = tx w @ frame S (server_tx op) (nonce_at S w 1) (i32_bytes ?ans)" by auto
  have "sodium_sizes S" using S by (simp add: session_laws_def)
  then have fit: "length name < FILE_ENCRYPTED_CHUNK_SIZE S"
    using name(1) by (simp add: chunk_sizes PRE_EXT_FILE_NAME_LEN_def)
  have "feeds v (frame S (client_rx CA) (nonce_at S w 1) (i32_bytes ?ans) @ rest')"
    using v r(5) by (simp add: keys(2))
  from delete_run [OF S length_nonce_at typed fit this] obtain v' where v': "DFFS_Handler S CA v = ret (0, v')" "feeds v' rest'"
    "only_rx (v\<lparr>cin_rest := xs, rnd_pos := rnd_pos v + aead_NPUBBYTES S,
       tx := tx v @ frame S (client_tx CA) (nonce_at S v 0) (name @ [0]),
       cout := cout v @ [if ?ans = ACK_SUC then deleted_msg else not_deleted_msg]\<rparr>) v'" by blast
  from only_rx_fields [OF v'(3)] r(1-4) v'(1,2) show ?thesis by (auto simp: ACK_SUC_def ACK_FAIL_def)
qed

theorem deletion_end_to_end_witness:
  "\<exists>op' w' v'. DFFS_Handler__Server toy_sodium toy_op (idle_world\<lparr>disk := toy_disk, rx :=
       [Seg (frame toy_sodium [7] (replicate 8 0) (str ''f.enc'' @ [0]))]\<rparr>) = ret ((0, op'), w') \<and>
     DFFS_Handler toy_sodium toy_CA (idle_world\<lparr>cin_rest := str ''f.enc'', rx := [Seg (tx w')]\<rparr>) = ret (0, v') \<and>
     cout v' = [deleted_msg] \<and> lookup (disk w') [str ''MEF_S'', str ''u'', str ''f.enc''] = None"
proof -
  let ?p = "[str ''MEF_S'', str ''u'']" and ?n = "str ''f.enc''"
  let ?w = "idle_world\<lparr>disk := toy_disk, rx := [Seg (frame toy_sodium [7] (replicate 8 0) (?n @ [0]))]\<rparr>"
  let ?v = "\<lambda>w'. idle_world\<lparr>cin_rest := ?n, rx := [Seg (tx w')]\<rparr>"
  have n: "0 \<notin> set ?n" "plain_name ?n" "?n \<noteq> []" "\<forall>b \<in> set ?n. \<not> is_space b"
    "lookup toy_disk (?p @ [?n]) = Some (File (replicate 24 5 @ replicate 16 5 @ [1, 2]))" by code_simp+
  have len: "length ?n < PRE_EXT_FILE_NAME_LEN" by (simp add: PRE_EXT_FILE_NAME_LEN_def str_def)
  have s: "home toy_op (disk ?w) ?p" "lookup (disk ?w) (?p @ [?n]) \<noteq> Some Dir" "tx_plan ?w = []" "tx ?w = []"
    using toy_home n(5) by (simp_all add: idle_world_def)
  have k: "client_tx toy_CA = server_rx toy_op" "client_rx toy_CA = server_tx toy_op" "server_rx toy_op = [7]"
    by (simp_all add: toy_CA_def toy_op_def)
  have r: "nonce_at toy_sodium (?v w') 0 = replicate 8 0" for w'
    by (simp add: nonce_at_def idle_world_def map_replicate_trivial)
  have f: "feeds ?w (frame toy_sodium (client_tx toy_CA) (nonce_at toy_sodium (?v w') 0) (?n @ [0]) @ [])" for w'
    unfolding r k by (simp add: feeds_def)
  from DFFS_run [OF toy_session length_nonce_at s(3) len n(1,2) s(1,2) f [unfolded k(1)]] obtain op' w' where
    w': "DFFS_Handler__Server toy_sodium toy_op ?w = ret ((0, op'), w')" "tx w' \<noteq> []" by auto
  have o: "offers (?v w') ?n []" using n(3,4) by (auto simp: offers_def idle_world_def intro!: exI [of _ "[]"])
  have p: "tx_plan (?v w') = []" by (simp add: idle_world_def)
  have "feeds (?v w') (drop (length (tx ?w)) (tx w') @ [])" using w'(2) by (simp add: feeds_def s(4))
  from deletion_end_to_end [OF toy_session k(1,2) o p len n(1,2) s(1-3) f w'(1) this] w'(1) n(5)
  show ?thesis by (auto simp: idle_world_def)
qed

end
