(* ===== verification/User_Session.thy ===== *)
theory User_Session
  imports Client_Session
begin

text \<open>
  A whole session as the user sees it. The specification knows two stores of plain files, the
  user's own directory and the vault, and what each command does to them and shows on the
  screen; keys, salts, streams, frames, threads and paths do not occur in it. The theorem:
  when the user types any sequence of sensible commands, the client program and the server's
  session loop, each fed with what the other sends, both run to the end and do what the
  specification says.
\<close>

section \<open>The specification\<close>

datatype command =
  Upload cpp_string
| Download cpp_string
| Listing
| Delete cpp_string

text \<open>A downloaded file loses the last four characters of its name.\<close>

definition local_name :: "cpp_string \<Rightarrow> cpp_string" where
  "local_name n = take (length n - 4) n"

fun does :: "command \<Rightarrow> store \<times> store \<Rightarrow> store \<times> store" where
  "does (Upload n) (desk, vault) = (desk, vault(n @ ext := desk n))"
| "does (Download n) (desk, vault) = (desk(local_name n := vault n), vault)"
| "does Listing (desk, vault) = (desk, vault)"
| "does (Delete n) (desk, vault) = (desk, vault(n := None))"

fun screen :: "command \<Rightarrow> store \<Rightarrow> cpp_string list \<Rightarrow> bool" where
  "screen Listing vault out \<longleftrightarrow> distinct out \<and> set out = dom vault"
| "screen (Delete n) vault out \<longleftrightarrow> out = [if vault n = None then not_deleted_msg else deleted_msg]"
| "screen _ vault out \<longleftrightarrow> out = []"

text \<open>A name that can be typed, sent and used as a name in a directory.\<close>

definition proper_name :: "cpp_string \<Rightarrow> bool" where
  "proper_name n \<longleftrightarrow> plain_name n \<and> length n < PRE_EXT_FILE_NAME_LEN \<and> 0 \<notin> set n \<and> (\<forall>b \<in> set n. \<not> is_space b)"

text \<open>
  Commands that make sense: a file is uploaded if it is there, downloaded if it is in the vault
  and no directory is in its place; a listing is asked for if the client can take it.
\<close>

fun sensible :: "cpp_string set \<Rightarrow> command \<Rightarrow> store \<times> store \<Rightarrow> bool" where
  "sensible dirs (Upload n) (desk, vault) \<longleftrightarrow> proper_name n \<and> desk n \<noteq> None"
| "sensible dirs (Download n) (desk, vault) \<longleftrightarrow> proper_name n \<and> vault n \<noteq> None \<and> 4 \<le> length n \<and>
     plain_name (local_name n) \<and> local_name n \<notin> dirs"
| "sensible dirs Listing (desk, vault) \<longleftrightarrow> card (dom vault) < 2 ^ 31 \<and>
     (\<forall>n \<in> dom vault. 0 \<notin> set n \<and> length n + 1 < MAX_FILE_NAME_LENGTH)"
| "sensible dirs (Delete n) (desk, vault) \<longleftrightarrow> proper_name n"

fun script_ok :: "cpp_string set \<Rightarrow> command list \<Rightarrow> store \<times> store \<Rightarrow> bool" where
  "script_ok dirs [] s \<longleftrightarrow> True"
| "script_ok dirs (c # cs) s \<longleftrightarrow> sensible dirs c s \<and> script_ok dirs cs (does c s)"

fun screens :: "command list \<Rightarrow> store \<times> store \<Rightarrow> cpp_string list \<Rightarrow> bool" where
  "screens [] s out \<longleftrightarrow> out = []"
| "screens (c # cs) s out \<longleftrightarrow> (\<exists>a b. out = a @ b \<and> screen c (snd s) a \<and> screens cs (does c s) b)"

section \<open>The keyboard\<close>

text \<open>
  What the user types: the number of the action, the name if there is one, and whether there
  is another action. The first newline is the one the previous word has left in the stream.
\<close>

fun digit_of :: "command \<Rightarrow> byte" where
  "digit_of (Upload n) = 50"
| "digit_of (Download n) = 49"
| "digit_of Listing = 51"
| "digit_of (Delete n) = 52"

fun operand :: "command \<Rightarrow> byte list" where
  "operand (Upload n) = n @ [10]"
| "operand (Download n) = n @ [10]"
| "operand Listing = []"
| "operand (Delete n) = n @ [10]"

definition keystrokes :: "command \<Rightarrow> byte \<Rightarrow> byte list" where
  "keystrokes c more_actions = 10 # digit_of c # 10 # operand c @ [more_actions]"

fun typing :: "command list \<Rightarrow> byte list" where
  "typing [] = []"
| "typing (c # cs) = keystrokes c (if cs = [] then 110 else 121) @ typing cs"

lemma cin_digit:
  assumes "\<not> cin_fail w" "cin_rest w = 10 # d # 10 # ys" "is_digit d"
  shows "cin_int old w = (True, word_of_int (int (unat d) - 48), w\<lparr>cin_rest := 10 # ys\<rparr>)"
proof -
  have d: "\<not> is_space d" "d \<noteq> 43" "d \<noteq> 45" "uint d \<le> 57" "\<not> 2147483600 + uint d < 0"
    using assms(3) uint_ge_0 [of d] by (auto simp: is_digit_def is_space_def word_le_def simp del: uint_ge_0)
  have "is_space 10" "\<not> is_digit 10" by (simp_all add: is_space_def is_digit_def)
  with assms d show ?thesis
    by (simp add: cin_int_def cin_ready_def dec_value_def Let_def)
qed

lemma cin_answer:
  assumes "\<not> cin_fail w" "cin_rest w = sp @ a # ys" "\<forall>b \<in> set sp. is_space b" "\<not> is_space a"
  shows "cin_char old w = (True, a, w\<lparr>cin_rest := ys\<rparr>)"
  using assms by (simp add: cin_char_def cin_ready_def dropWhile_append2 Let_def)

section \<open>One round of the client\<close>

definition handle ::
    "'st sodium \<Rightarrow> comms_agent \<Rightarrow> cpp_string \<Rightarrow> sender_agent \<Rightarrow> receiver_agent \<Rightarrow> i32 \<Rightarrow> world \<Rightarrow> (unit \<times> world) run" where
  "handle S CA password SA RA intention w =
     (if intention = READ_FROM_FILESYSTEM then andthen (RFFS_Handler S CA RA password w) (\<lambda>(_, w). ret ((), w))
      else if intention = WRITE_TO_FILESYSTEM then andthen (WTFS_Handler S CA SA password w) (\<lambda>(_, w). ret ((), w))
      else if intention = LIST_FILES then andthen (LFFS_Handler S CA w) (\<lambda>(_, w). ret ((), w))
      else andthen (DFFS_Handler S CA w) (\<lambda>(_, w). ret ((), w)))"

text \<open>The environment in which the handler starts.\<close>

definition begun :: "'st sodium \<Rightarrow> comms_agent \<Rightarrow> byte list \<Rightarrow> i32 \<Rightarrow> byte list \<Rightarrow> world \<Rightarrow> world" where
  "begun S CA nonce intention ys v =
     v\<lparr>tx := tx v @ action_bytes S (client_tx CA) nonce intention, cin_rest := 10 # ys,
       rnd_pos := rnd_pos v + (2 * aead_NPUBBYTES S + pwhash_SALTBYTES S)\<rparr>"

text \<open>The agents of a round, as far as they matter: both draw a nonce of their own.\<close>

definition agents :: "'st sodium \<Rightarrow> world \<Rightarrow> sender_agent \<Rightarrow> receiver_agent \<Rightarrow> bool" where
  "agents S v SA RA \<longleftrightarrow> sa_nonce SA = nonce_at S v 0 \<and> length (sa_buffer SA) = FILE_ENCRYPTED_CHUNK_SIZE S \<and>
     ra_nonce RA = nonce_at S (v\<lparr>rnd_pos := rnd_pos v + (aead_NPUBBYTES S + pwhash_SALTBYTES S)\<rparr>) 0"

lemma Sender_AgentE:
  obtains SA where "Sender_Agent S password w = (SA, w\<lparr>rnd_pos := rnd_pos w + (aead_NPUBBYTES S + pwhash_SALTBYTES S)\<rparr>)"
    "sa_nonce SA = nonce_at S w 0" "length (sa_buffer SA) = FILE_ENCRYPTED_CHUNK_SIZE S"
proof -
  obtain SA u where "Sender_Agent S password w = (SA, u)" by (cases "Sender_Agent S password w")
  then show ?thesis using that
    by (auto simp: Sender_Agent_def set_crypto_def randombytes_buf_def nonce_at_def uninit_def add.assoc
        FILE_ENCRYPTED_CHUNK_SIZE_def Let_def split: option.splits)
qed

lemma Receiver_AgentE:
  obtains RA where "Receiver_Agent S w = (RA, w\<lparr>rnd_pos := rnd_pos w + aead_NPUBBYTES S\<rparr>)"
    "ra_nonce RA = nonce_at S w 0"
  by (auto simp: Receiver_Agent_def randombytes_buf_def nonce_at_def)

lemma intention_digit:
  assumes "d \<in> {49, 50, 51, 52}"
  shows "is_digit d" "word_of_int (int (unat d) - 48) \<noteq> CONFUSION"
    "word_of_int (int (unat d) - 48) \<in> {READ_FROM_FILESYSTEM, WRITE_TO_FILESYSTEM, LIST_FILES, DELETE_FILE}"
  using assms by (auto simp: is_digit_def wire_constants)

lemma intents_distinct:
  "WRITE_TO_FILESYSTEM \<noteq> READ_FROM_FILESYSTEM" "LIST_FILES \<noteq> READ_FROM_FILESYSTEM" "DELETE_FILE \<noteq> READ_FROM_FILESYSTEM"
  "LIST_FILES \<noteq> WRITE_TO_FILESYSTEM" "DELETE_FILE \<noteq> WRITE_TO_FILESYSTEM" "DELETE_FILE \<noteq> LIST_FILES"
  by (simp_all add: wire_constants)

lemma comms_round_request:
  assumes S: "session_laws S" "length nonce = aead_NPUBBYTES S" "tx_plan v = []"
    and typed: "\<not> cin_fail v" "cin_rest v = 10 # d # 10 # ys" "d \<in> {49, 50, 51, 52}"
    and i: "i = word_of_int (int (unat d) - 48)"
  obtains SA RA where "agents S v SA RA"
    "comms_round S CA password nonce b v = andthen (handle S CA password SA RA i (begun S CA nonce i ys v))
       (\<lambda>(_, w). let (_, a, w) = cin_char b w in ret (Inr (counter S 2 nonce, a), w))"
proof -
  let ?n = "sodium_increment S nonce" and ?N = "aead_NPUBBYTES S"
  let ?v1 = "v\<lparr>tx := tx v @ frame S (client_tx CA) nonce (i32_bytes NEW_ACTION)\<rparr>"
  let ?v2 = "?v1\<lparr>cin_rest := 10 # ys\<rparr>"
  let ?v3 = "?v2\<lparr>rnd_pos := rnd_pos v + (?N + pwhash_SALTBYTES S)\<rparr>"
  let ?v4 = "?v2\<lparr>rnd_pos := rnd_pos v + (?N + pwhash_SALTBYTES S) + ?N\<rparr>"
  have n: "length ?n = ?N" using S(1,2) length_increment by metis
  have fit: "length (i32_bytes k) \<le> FILE_ENCRYPTED_CHUNK_SIZE S" for k using i32_fits [OF S(1)] .
  note d = intention_digit [OF typed(3), folded i]
  have notify: "notify_server_of_action S CA NEW_ACTION nonce v = ret ((0, ?n), ?v1)"
    using session_send_frame [OF S(1,2) fit S(3)] by (simp add: notify_server_of_action_def get_client_tx_def)
  have key: "get_stuff_int CONFUSION ?v1 = ret (i, ?v2)"
    using cin_digit [OF _ _ d(1), of ?v1] typed i by (subst get_stuff_int.simps) simp
  obtain SA where SA: "Sender_Agent S password ?v2 = (SA, ?v3)" "sa_nonce SA = nonce_at S v 0"
    "length (sa_buffer SA) = FILE_ENCRYPTED_CHUNK_SIZE S"
    by (rule Sender_AgentE [of S password ?v2]) (simp add: nonce_at_def)
  obtain RA where RA: "Receiver_Agent S ?v3 = (RA, ?v4)" "ra_nonce RA = nonce_at S ?v3 0"
    by (rule Receiver_AgentE [of S ?v3]) simp
  have intent: "send_intention S (get_client_tx CA) i ?n ?v4 =
      ret ((0, counter S 2 nonce), begun S CA nonce i ys v)"
    using session_send_frame [OF S(1) n fit, where w = ?v4 and key = "client_tx CA"] S(3)
    by (simp add: send_intention_def get_client_tx_def begun_def action_bytes_def counter_def numeral_2_eq_2 algebra_simps)
  have "comms_round S CA password nonce b v = andthen (handle S CA password SA RA i (begun S CA nonce i ys v))
       (\<lambda>(_, w). let (_, a, w) = cin_char b w in ret (Inr (counter S 2 nonce, a), w))"
    unfolding comms_round_def notify andthen_ret prod.case key SA(1) RA(1) intent Let_def
    using d(2,3) by (elim insertE emptyE) (simp_all add: handle_def andthen_assoc split_def intents_distinct)
  moreover have "agents S v SA RA" using SA(2,3) RA(2) by (simp add: agents_def nonce_at_def)
  ultimately show ?thesis using that by blast
qed

lemma agents_rx: "agents S (v\<lparr>rx := es, errno := e\<rparr>) = agents S v"
  by (simp add: fun_eq_iff agents_def nonce_at_def)

lemma begun_rx: "only_rx (begun S CA nonce i ys v) (begun S CA nonce i ys (v\<lparr>rx := es, errno := e\<rparr>))"
  by (cases v) (simp add: begun_def only_rx_def)

lemma round_acts:
  assumes S: "session_laws S" "length nonce = aead_NPUBBYTES S" "tx_plan v = []"
    and typed: "\<not> cin_fail v" "cin_rest v = 10 # d # 10 # ys" "d \<in> {49, 50, 51, 52}"
    and i: "i = word_of_int (int (unat d) - 48)"
    and h: "\<And>SA RA. agents S v SA RA \<Longrightarrow>
      acts (handle S CA password SA RA i) (begun S CA nonce i ys v) bs (\<lambda>_. True) v1"
    and a: "\<not> cin_fail v1" "cin_rest v1 = sp @ a # zs" "\<forall>b \<in> set sp. is_space b" "\<not> is_space a"
  shows "acts (comms_round S CA password nonce b) v bs (\<lambda>x. x = Inr (counter S 2 nonce, a)) (v1\<lparr>cin_rest := zs\<rparr>)"
proof (rule actsI)
  fix es e rest
  let ?v = "v\<lparr>rx := es, errno := e\<rparr>"
  assume f: "feeds ?v (bs @ rest)"
  obtain SA RA where run: "agents S ?v SA RA"
    "comms_round S CA password nonce b ?v = andthen (handle S CA password SA RA i (begun S CA nonce i ys ?v))
       (\<lambda>(_, w). let (_, a, w) = cin_char b w in ret (Inr (counter S 2 nonce, a), w))"
    by (rule comms_round_request [OF S(1,2) _ _ _ typed(3) i, of ?v ys]) (use S(3) typed in simp_all)
  have g: "feeds (begun S CA nonce i ys ?v) (bs @ rest)" using f by (simp add: begun_def feeds_def)
  from actsE [OF h [OF run(1) [unfolded agents_rx]] begun_rx g] obtain x w where
    w: "handle S CA password SA RA i (begun S CA nonce i ys ?v) = ret (x, w)" "only_rx v1 w" "feeds w rest" .
  have "cin_char b w = (True, a, w\<lparr>cin_rest := zs\<rparr>)"
    by (rule cin_answer [OF _ _ a(3,4)]) (use a(1,2) only_rx_fields [OF w(2)] in simp_all)
  then have "comms_round S CA password nonce b ?v = ret (Inr (counter S 2 nonce, a), w\<lparr>cin_rest := zs\<rparr>)"
    unfolding run(2) w(1) by simp
  moreover have "feeds (w\<lparr>cin_rest := zs\<rparr>) rest" using w(3) by (simp add: feeds_def)
  ultimately show "\<exists>x v'. comms_round S CA password nonce b ?v = ret (x, v') \<and> x = Inr (counter S 2 nonce, a) \<and>
      only_rx (v1\<lparr>cin_rest := zs\<rparr>) v' \<and> feeds v' rest" using only_rx_cin [OF w(2)] by blast
qed

section \<open>The four handlers\<close>

lemma acts_unit:
  assumes "acts f w bs Q w'"
  shows "acts (\<lambda>w. andthen (f w) (\<lambda>(_, w). ret ((), w))) w bs (\<lambda>_. True) w'"
  using acts_andthen [OF assms, where f = "\<lambda>_ w. ret ((), w)" and cs = "[]" and R = "\<lambda>_. True" and ?w2.0 = w']
  by (simp add: acts_silent)

lemma handle_acts:
  "acts (RFFS_Handler S CA RA password) w bs Q w' \<Longrightarrow>
     acts (handle S CA password SA RA READ_FROM_FILESYSTEM) w bs (\<lambda>_. True) w'"
  "acts (WTFS_Handler S CA SA password) w bs Q1 w' \<Longrightarrow>
     acts (handle S CA password SA RA WRITE_TO_FILESYSTEM) w bs (\<lambda>_. True) w'"
  "acts (LFFS_Handler S CA) w bs Q2 w' \<Longrightarrow> acts (handle S CA password SA RA LIST_FILES) w bs (\<lambda>_. True) w'"
  "acts (DFFS_Handler S CA) w bs Q2 w' \<Longrightarrow> acts (handle S CA password SA RA DELETE_FILE) w bs (\<lambda>_. True) w'"
  unfolding handle_def [abs_def] by (simp_all add: intents_distinct acts_unit)

lemma offers_rx [simp]: "offers (w\<lparr>rx := es, errno := e\<rparr>) = offers w"
  by (simp add: fun_eq_iff offers_def)

lemma upload_acts:
  assumes S: "session_laws S" "secretstream_laws S" "length (sa_nonce SA) = aead_NPUBBYTES S" "tx_plan w = []"
      "length (sa_buffer SA) = FILE_ENCRYPTED_CHUNK_SIZE S"
    and name: "offers w name xs" "length name \<le> FILE_ENCRYPTED_CHUNK_SIZE S" "0 \<notin> set name"
    and f: "resolve (disk w) name = Inr q" "lookup (disk w) q = Some (File bs)"
    and k: "pwhash S (box_SEEDBYTES S) password (file_salt S w) = Some key"
  shows "acts (WTFS_Handler S CA SA password) w [] (\<lambda>_. True)
     (w\<lparr>cin_rest := xs, rnd_pos := rnd_pos w + pwhash_SALTBYTES S + ss_HEADERBYTES S,
        tx := tx w @ upload_bytes S (client_tx CA) (sa_nonce SA) name
          (sealed_header S (file_iv S w) key) (file_salt S w) (sealed_chunks S (file_iv S w) key bs)\<rparr>)"
proof (rule actsI)
  fix es e rest
  let ?v = "w\<lparr>rx := es, errno := e\<rparr>"
  let ?w = "?v\<lparr>cin_rest := xs\<rparr>"
  let ?u = "upload_bytes S (client_tx CA) (sa_nonce SA) name
    (sealed_header S (file_iv S w) key) (file_salt S w) (sealed_chunks S (file_iv S w) key bs)"
  let ?z = "?v\<lparr>cin_rest := xs, rnd_pos := rnd_pos w + pwhash_SALTBYTES S + ss_HEADERBYTES S, tx := tx w @ ?u\<rparr>"
  assume g: "feeds ?v ([] @ rest)"
  have s: "file_salt S ?w = file_salt S w" "file_iv S ?w = file_iv S w"
    by (simp_all add: file_salt_def file_iv_def randombytes_buf_def)
  have "resolve (disk ?w) (c_path name) = Inr q" "lookup (disk ?w) q = Some (File bs)" "tx_plan ?w = []"
    using f S(4) by (simp_all add: c_path_id [OF name(3)])
  from upload_run [OF S(1-3) this(3) S(5) name(2) this(1,2) k [folded s(1)], of CA]
  obtain SA' w' where r: "encrypt_and_send_to_server S CA name password SA ?w = ret ((0, SA'), w')"
    "tx w' = tx w @ ?u" "w' = ?w\<lparr>rnd_pos := rnd_pos ?w + pwhash_SALTBYTES S + ss_HEADERBYTES S, tx := tx w'\<rparr>"
    unfolding s by auto
  from r(3) have "w' = ?z" unfolding r(2) by simp
  with r(1) have "WTFS_Handler S CA SA password ?v = ret ((0, SA'), ?z)"
    using name(1) by (simp add: WTFS_Handler_def get_stuff_offers)
  moreover have "feeds ?z rest" using g by (simp add: feeds_def)
  moreover have "only_rx (w\<lparr>cin_rest := xs, rnd_pos := rnd_pos w + pwhash_SALTBYTES S + ss_HEADERBYTES S, tx := tx w @ ?u\<rparr>) ?z"
    by (cases w) (simp add: only_rx_def)
  ultimately show "\<exists>x v'. WTFS_Handler S CA SA password ?v = ret (x, v') \<and> True \<and>
      only_rx (w\<lparr>cin_rest := xs, rnd_pos := rnd_pos w + pwhash_SALTBYTES S + ss_HEADERBYTES S, tx := tx w @ ?u\<rparr>) v' \<and>
      feeds v' rest" by blast
qed

lemma list_acts:
  assumes "session_laws S" "\<forall>i. length (nonces i) = aead_NPUBBYTES S" "length nonce = aead_NPUBBYTES S"
    and "\<forall>n \<in> set ns. 0 \<notin> set n \<and> length n + 1 < MAX_FILE_NAME_LENGTH" "length ns < 2 ^ 31"
  shows "acts (LFFS_Handler S CA) w
     (frame S (client_rx CA) nonce (i32_bytes (word_of_nat (length ns))) @ name_frames S (client_rx CA) nonces ns)
     (\<lambda>_. True) (w\<lparr>cout := cout w @ ns\<rparr>)"
proof (rule actsI)
  fix es e rest
  let ?w = "w\<lparr>rx := es, errno := e\<rparr>"
  assume "feeds ?w ((frame S (client_rx CA) nonce (i32_bytes (word_of_nat (length ns))) @ name_frames S (client_rx CA) nonces ns) @ rest)"
  then have "feeds ?w (frame S (client_rx CA) nonce (i32_bytes (word_of_nat (length ns))) @ name_frames S (client_rx CA) nonces ns @ rest)"
    by simp
  from list_run [OF assms this] obtain u where "LFFS_Handler S CA ?w = ret (0, u)" "feeds u rest"
    "only_rx (?w\<lparr>cout := cout w @ ns\<rparr>) u" by auto
  moreover have "only_rx (w\<lparr>cout := cout w @ ns\<rparr>) (?w\<lparr>cout := cout w @ ns\<rparr>)" by (rule only_rx_cout) simp
  ultimately show "\<exists>x v'. LFFS_Handler S CA ?w = ret (x, v') \<and> True \<and> only_rx (w\<lparr>cout := cout w @ ns\<rparr>) v' \<and> feeds v' rest"
    using only_rx_trans by blast
qed

lemma delete_acts:
  assumes "session_laws S" "length nonce = aead_NPUBBYTES S" "offers w name xs" "tx_plan w = []"
    and "length name < FILE_ENCRYPTED_CHUNK_SIZE S"
  shows "acts (DFFS_Handler S CA) w (frame S (client_rx CA) nonce (i32_bytes a)) (\<lambda>_. True)
     (w\<lparr>cin_rest := xs, rnd_pos := rnd_pos w + aead_NPUBBYTES S,
        tx := tx w @ frame S (client_tx CA) (nonce_at S w 0) (name @ [0]),
        cout := cout w @ [if a = ACK_SUC then deleted_msg else not_deleted_msg]\<rparr>)" (is "acts _ _ _ _ ?z")
proof (rule actsI)
  fix es e rest
  let ?w = "w\<lparr>rx := es, errno := e\<rparr>"
  let ?y = "?w\<lparr>cin_rest := xs, rnd_pos := rnd_pos w + aead_NPUBBYTES S,
        tx := tx w @ frame S (client_tx CA) (nonce_at S w 0) (name @ [0]),
        cout := cout w @ [if a = ACK_SUC then deleted_msg else not_deleted_msg]\<rparr>"
  assume "feeds ?w (frame S (client_rx CA) nonce (i32_bytes a) @ rest)"
  from delete_run [OF assms(1,2) _ _ assms(5) this] assms(3,4) nonce_at_only_rx [OF only_rx_upd(3) [of w e es], of S]
  obtain v where "DFFS_Handler S CA ?w = ret (0, v)" "feeds v rest" "only_rx ?y v" by auto
  moreover have "only_rx ?z ?y" by (cases w) (simp add: only_rx_def)
  ultimately show "\<exists>x v'. DFFS_Handler S CA ?w = ret (x, v') \<and> True \<and> only_rx ?z v' \<and> feeds v' rest"
    using only_rx_trans by blast
qed

text \<open>A name in the current directory.\<close>

lemma resolve_here: "lookup d (cwd d) = Some Dir \<Longrightarrow> plain_name m \<Longrightarrow> resolve d m = Inr (cwd d @ [m])"
  by (cases m) (auto simp: resolve_def start_dir_def plain_name_def split_slash_plain)

lemma download_acts:
  assumes S: "session_laws S" "secretstream_laws S" "length (ra_nonce RA) = aead_NPUBBYTES S" "tx_plan w = []"
    and name: "offers w name xs" "proper_name name" "4 \<le> length name"
    and f: "lookup (disk w) (cwd (disk w)) = Some Dir" "plain_name (local_name name)"
      "lookup (disk w) (cwd (disk w) @ [local_name name]) \<noteq> Some Dir"
    and e: "length salt = pwhash_SALTBYTES S" "pwhash S (box_SEEDBYTES S) password salt = Some key"
      "length nonce = aead_NPUBBYTES S"
  shows "acts (RFFS_Handler S CA RA password) w
     (download_bytes S (client_rx CA) nonce (sealed_header S iv key) salt (sealed_chunks S iv key bs)) (\<lambda>_. True)
     (w\<lparr>cin_rest := xs, tx := tx w @ frame S (client_tx CA) (ra_nonce RA) (name @ [0]),
        disk := write_out (Some (cwd (disk w) @ [local_name name])) bs (snd (open_out (disk w) (local_name name)))\<rparr>)"
    (is "acts _ _ ?A _ ?z")
proof (rule actsI)
  fix es e rest
  let ?v = "w\<lparr>rx := es, errno := e\<rparr>" and ?p = "Some (cwd (disk w) @ [local_name name])"
  let ?w = "?v\<lparr>cin_rest := xs, tx := tx w @ frame S (client_tx CA) (ra_nonce RA) (name @ [0])\<rparr>"
  obtain d where d: "open_out (disk w) (local_name name) = (?p, d)"
    using open_out_ok [OF resolve_here [OF f(1,2)] f(3)] by blast
  let ?ms = "final_tags S (file_chunks CHUNK_SIZE bs)"
  have ms: "?ms \<noteq> []" "\<forall>(m, t) \<in> set ?ms. length m \<le> CHUNK_SIZE" "concat (map fst ?ms) = bs"
    using file_chunks_fit [of CHUNK_SIZE S bs] by (simp_all add: file_chunks_props CHUNK_SIZE_def)
  obtain sync where sync: "ss_in_step S sync" using ss_startE [OF S(2)] .
  assume "feeds ?v (?A @ rest)"
  then have "feeds (?w\<lparr>disk := d\<rparr>) (download_bytes S (client_rx CA) nonce (sealed_header S iv key) salt
      (push_all S (fst (ss_init_push S iv key)) ?ms) @ rest)" by (simp add: feeds_def sealed_chunks_def)
  from download_run [OF S(1) \<open>length nonce = _\<close> sync \<open>length salt = _\<close> \<open>pwhash _ _ _ _ = _\<close> ms(1,2) this,
      of ?p "RA\<lparr>ra_nonce := sodium_increment S (ra_nonce RA)\<rparr>"]
  obtain v RA' where v: "decrypt_and_read_from_server S CA ?p password (RA\<lparr>ra_nonce := sodium_increment S (ra_nonce RA)\<rparr>)
      (?w\<lparr>disk := d\<rparr>) = ret ((0, RA'), v)" "feeds v rest" "only_rx (?w\<lparr>disk := write_out ?p bs d\<rparr>) v"
    unfolding ms(3) by auto
  have "sodium_sizes S" using S(1) by (simp add: session_laws_def)
  then have fit: "length (name @ [0]) \<le> FILE_ENCRYPTED_CHUNK_SIZE S"
    using name(2) by (simp add: proper_name_def chunk_sizes PRE_EXT_FILE_NAME_LEN_def)
  have send: "session_send S (name @ [0]) (client_tx CA) (ra_nonce RA) (?v\<lparr>cin_rest := xs\<rparr>) =
      ret (sodium_increment S (ra_nonce RA), ?w)"
    using session_send_frame [OF S(1,3) fit, of "?v\<lparr>cin_rest := xs\<rparr>" "client_tx CA"] S(4) by simp
  have "cin_string [] ?v = (True, name, ?v\<lparr>cin_rest := xs\<rparr>)" using name(1) by (intro cin_string_offers) simp
  moreover have "0 \<notin> set (local_name name)"
    using name(2) by (auto simp: proper_name_def local_name_def dest: in_set_takeD)
  ultimately have "RFFS_Handler S CA RA password ?v = ret ((0, RA'), v)"
    using name(3) d v(1)
    by (simp add: RFFS_Handler_def get_client_tx_def get_nonce_def send c_path_id flip: local_name_def)
  moreover have "only_rx ?z (?w\<lparr>disk := write_out ?p bs d\<rparr>)" unfolding d snd_conv by (cases w) (simp add: only_rx_def)
  ultimately show "\<exists>x v'. RFFS_Handler S CA RA password ?v = ret (x, v') \<and> True \<and> only_rx ?z v' \<and> feeds v' rest"
    using only_rx_trans v(2,3) by blast
qed

section \<open>One command\<close>

text \<open>The server keeps an encrypted copy of every file in the vault, and nothing else.\<close>

definition keeps :: "'st sodium \<Rightarrow> cpp_string \<Rightarrow> store \<Rightarrow> store \<Rightarrow> bool" where
  "keeps S password vault st \<longleftrightarrow> (\<forall>n. rel_option (encrypted_file S password) (vault n) (st n))"

text \<open>The client in its working directory: the files there, and the subdirectories.\<close>

definition at_desk :: "cpp_string set \<Rightarrow> store \<Rightarrow> world \<Rightarrow> bool" where
  "at_desk dirs desk v \<longleftrightarrow> tx_plan v = [] \<and> \<not> cin_fail v \<and> lookup (disk v) (cwd (disk v)) = Some Dir \<and>
     desk = store_of (disk v) (cwd (disk v)) \<and> dirs = {n. lookup (disk v) (cwd (disk v) @ [n]) = Some Dir}"

text \<open>
  What a round of the client does with a command when it is answered with \<open>bs\<close>: it sends
  the request \<open>q\<close>, and the screen and the working directory are as specified.
\<close>

definition obeys ::
    "'st sodium \<Rightarrow> comms_agent \<Rightarrow> cpp_string \<Rightarrow> byte list \<Rightarrow> byte \<Rightarrow> cpp_string set \<Rightarrow> command \<Rightarrow> store \<times> store \<Rightarrow>
     byte \<Rightarrow> byte list \<Rightarrow> world \<Rightarrow> request \<Rightarrow> byte list \<Rightarrow> byte list \<Rightarrow> bool" where
  "obeys S CA password nonce b dirs c s a zs v q n' bs \<longleftrightarrow>
     (\<exists>v' out. acts (comms_round S CA password nonce b) v bs (\<lambda>x. x = Inr (counter S 2 nonce, a)) v' \<and>
        at_desk dirs (fst (does c s)) v' \<and> cin_rest v' = zs \<and>
        tx v' = tx v @ action_bytes S (client_tx CA) nonce (intent_of q) @ request_bytes S (client_tx CA) n' q \<and>
        cout v' = cout v @ out \<and> screen c (snd s) out)"

definition understood ::
    "'st sodium \<Rightarrow> comms_agent \<Rightarrow> cpp_string \<Rightarrow> byte list \<Rightarrow> byte \<Rightarrow> cpp_string set \<Rightarrow> command \<Rightarrow> store \<times> store \<Rightarrow>
     byte \<Rightarrow> byte list \<Rightarrow> world \<Rightarrow> request \<Rightarrow> byte list \<Rightarrow> bool" where
  "understood S CA password nonce b dirs c s a zs v q n' \<longleftrightarrow> sendable S (q, nonce, n') \<and>
     (\<forall>st. keeps S password (snd s) st \<longrightarrow> keeps S password (snd (does c s)) (after q st)) \<and>
     (\<forall>st bs. keeps S password (snd s) st \<longrightarrow> answers S (client_rx CA) q st bs \<longrightarrow>
        obeys S CA password nonce b dirs c s a zs v q n' bs)"

lemma at_desk_upd [simp]:
  "at_desk dirs desk (v\<lparr>cin_rest := xs\<rparr>) = at_desk dirs desk v" "at_desk dirs desk (v\<lparr>tx := t\<rparr>) = at_desk dirs desk v"
  "at_desk dirs desk (v\<lparr>rnd_pos := k\<rparr>) = at_desk dirs desk v" "at_desk dirs desk (v\<lparr>cout := o'\<rparr>) = at_desk dirs desk v"
  by (simp_all add: at_desk_def)

lemma at_desk_begun [simp]: "at_desk dirs desk (begun S CA nonce i ys v) = at_desk dirs desk v"
  by (simp add: begun_def)

lemma obeysI:
  assumes S: "session_laws S" "length nonce = aead_NPUBBYTES S" and v: "at_desk dirs desk v"
    and typed: "cin_rest v = keystrokes c a @ zs" "\<not> is_space a"
    and i: "intent_of q = word_of_int (int (unat (digit_of c)) - 48)"
    and h: "\<And>SA RA. agents S v SA RA \<Longrightarrow>
      acts (handle S CA password SA RA (intent_of q)) (begun S CA nonce (intent_of q) (operand c @ a # zs) v) bs (\<lambda>_. True) v1"
    and v1: "at_desk dirs (fst (does c s)) v1" "cin_rest v1 = 10 # a # zs" "cout v1 = cout v @ out" "screen c (snd s) out"
      "tx v1 = tx v @ action_bytes S (client_tx CA) nonce (intent_of q) @ request_bytes S (client_tx CA) n' q"
  shows "obeys S CA password nonce b dirs c s a zs v q n' bs"
proof -
  have d: "digit_of c \<in> {49, 50, 51, 52}" by (cases c) simp_all
  have r: "tx_plan v = []" "\<not> cin_fail v" "\<not> cin_fail v1" using v v1(1) by (simp_all add: at_desk_def)
  have t: "cin_rest v = 10 # digit_of c # 10 # operand c @ a # zs" using typed(1) by (simp add: keystrokes_def)
  have sp: "cin_rest v1 = [10] @ a # zs" "\<forall>b \<in> set [10]. is_space b" using v1(2) by (simp_all add: is_space_def)
  from round_acts [OF S r(1,2) t d i h r(3) sp typed(2)]
  have "acts (comms_round S CA password nonce b) v bs (\<lambda>x. x = Inr (counter S 2 nonce, a)) (v1\<lparr>cin_rest := zs\<rparr>)" .
  then show ?thesis unfolding obeys_def using v1(1,3-5) by (intro exI [of _ "v1\<lparr>cin_rest := zs\<rparr>"] exI [of _ out]) simp
qed

lemma offers_operand:
  assumes "proper_name n" "at_desk dirs desk v"
  shows "offers (begun S CA nonce i ((n @ [10]) @ a # zs) v) n (10 # a # zs)"
proof -
  have sp: "\<forall>b \<in> set [10]. is_space b" by (simp add: is_space_def)
  have "cin_rest (begun S CA nonce i ((n @ [10]) @ a # zs) v) = [10] @ n @ 10 # a # zs" by (simp add: begun_def)
  with assms sp show ?thesis unfolding offers_def
    by (auto simp: proper_name_def plain_name_def at_desk_def begun_def intro!: exI [of _ "[10]"])
qed

lemma proper_fits: "session_laws S \<Longrightarrow> proper_name n \<Longrightarrow> length n < FILE_ENCRYPTED_CHUNK_SIZE S"
  using chunk_sizes [of S] by (simp add: proper_name_def session_laws_def PRE_EXT_FILE_NAME_LEN_def)

lemma at_deskD:
  assumes "at_desk dirs desk v"
  shows "tx_plan v = []" "\<not> cin_fail v" "lookup (disk v) (cwd (disk v)) = Some Dir"
    "desk n = Some bs \<longleftrightarrow> lookup (disk v) (cwd (disk v) @ [n]) = Some (File bs)"
    "n \<in> dirs \<longleftrightarrow> lookup (disk v) (cwd (disk v) @ [n]) = Some Dir"
  using assms by (simp_all add: at_desk_def store_Some)

lemma keepsD:
  assumes "keeps S password vault st"
  shows "vault n = None \<longleftrightarrow> st n = None" "dom vault = dom st"
    "vault n = Some xs \<Longrightarrow> \<exists>bs. st n = Some bs \<and> encrypted_file S password xs bs"
proof -
  have r: "rel_option (encrypted_file S password) (vault n) (st n)" for n using assms by (simp add: keeps_def)
  show e: "vault n = None \<longleftrightarrow> st n = None" for n using r [of n] by (auto elim: option.rel_cases)
  then show "dom vault = dom st" by (auto simp: dom_def)
  show "vault n = Some xs \<Longrightarrow> \<exists>bs. st n = Some bs \<and> encrypted_file S password xs bs"
    using r [of n] by (auto elim: option.rel_cases)
qed

lemma delete_understood:
  assumes S: "session_laws S" "length nonce = aead_NPUBBYTES S" and v: "at_desk dirs desk v"
    and typed: "cin_rest v = keystrokes (Delete n) a @ zs" "\<not> is_space a" and n: "proper_name n"
  shows "\<exists>q n'. understood S CA password nonce b dirs (Delete n) (desk, vault) a zs v q n'"
proof -
  let ?q = "Remove n" and ?w = "begun S CA nonce DELETE_FILE (operand (Delete n) @ a # zs) v"
  have i: "intent_of ?q = word_of_int (int (unat (digit_of (Delete n))) - 48)" by (simp add: wire_constants)
  have o: "offers ?w n (10 # a # zs)" using offers_operand [OF n v] by simp
  have p: "tx_plan ?w = []" using at_deskD(1) [OF v] by (simp add: begun_def)
  have "obeys S CA password nonce b dirs (Delete n) (desk, vault) a zs v ?q (nonce_at S ?w 0) bs"
    if k: "keeps S password vault st" and ans: "answers S (client_rx CA) ?q st bs" for st bs
  proof -
    from ans obtain m where m: "length m = aead_NPUBBYTES S"
      "bs = frame S (client_rx CA) m (i32_bytes (if st n = None then ACK_FAIL else ACK_SUC))" by auto
    have screen: "screen (Delete n) (snd (desk, vault))
        [if (if st n = None then ACK_FAIL else ACK_SUC) = ACK_SUC then deleted_msg else not_deleted_msg]"
      by (simp add: wire_constants keepsD(1) [OF k])
    show ?thesis unfolding m(2)
      by (rule obeysI [OF S v typed i _ _ _ _ screen], unfold intent_of.simps)
        (rule handle_acts(4) [OF delete_acts [OF S(1) m(1) o p proper_fits [OF S(1) n]]], use v in \<open>simp_all add: begun_def\<close>)
  qed
  moreover have "keeps S password (vault(n := None)) (after ?q st)" if "keeps S password vault st" for st
    using that by (simp add: keeps_def)
  moreover have "sendable S (?q, nonce, nonce_at S ?w 0)"
    using S(2) n by (simp add: sendable_def proper_name_def)
  ultimately have "understood S CA password nonce b dirs (Delete n) (desk, vault) a zs v ?q (nonce_at S ?w 0)"
    unfolding understood_def by simp
  then show ?thesis by blast
qed

lemma listing_understood:
  assumes S: "session_laws S" "length nonce = aead_NPUBBYTES S" and v: "at_desk dirs desk v"
    and typed: "cin_rest v = keystrokes Listing a @ zs" "\<not> is_space a" and ok: "sensible dirs Listing (desk, vault)"
  shows "\<exists>q n'. understood S CA password nonce b dirs Listing (desk, vault) a zs v q n'"
proof -
  have i: "intent_of Names = word_of_int (int (unat (digit_of Listing)) - 48)" by (simp add: wire_constants)
  have "obeys S CA password nonce b dirs Listing (desk, vault) a zs v Names nonce bs"
    if k: "keeps S password vault st" and ans: "answers S (client_rx CA) Names st bs" for st bs
  proof -
    from ans obtain m ms ns where m: "\<forall>i. length (ms i) = aead_NPUBBYTES S" "length m = aead_NPUBBYTES S"
      "distinct ns" "set ns = dom st"
      "bs = frame S (client_rx CA) m (i32_bytes (word_of_nat (length ns))) @ name_frames S (client_rx CA) ms ns" by auto
    have ns: "\<forall>n \<in> set ns. 0 \<notin> set n \<and> length n + 1 < MAX_FILE_NAME_LENGTH" "length ns < 2 ^ 31"
      "screen Listing (snd (desk, vault)) ns"
      using ok m(3,4) distinct_card [OF m(3)] by (simp_all add: keepsD(2) [OF k])
    show ?thesis unfolding m(5)
      by (rule obeysI [OF S v typed i _ _ _ _ ns(3)], unfold intent_of.simps)
        (rule handle_acts(3) [OF list_acts [OF S(1) m(1,2) ns(1,2)]], use v in \<open>simp_all add: begun_def\<close>)
  qed
  then have "understood S CA password nonce b dirs Listing (desk, vault) a zs v Names nonce"
    unfolding understood_def using S(2) by (simp add: sendable_def)
  then show ?thesis by blast
qed

lemma upload_understood:
  assumes S: "session_laws S" "secretstream_laws S" "length nonce = aead_NPUBBYTES S" and v: "at_desk dirs desk v"
    and typed: "cin_rest v = keystrokes (Upload n) a @ zs" "\<not> is_space a" and n: "proper_name n" "desk n = Some xs"
    and hash: "\<forall>salt. pwhash S (box_SEEDBYTES S) password salt \<noteq> None"
  shows "\<exists>q n'. understood S CA password nonce b dirs (Upload n) (desk, vault) a zs v q n'"
proof -
  let ?w = "begun S CA nonce WRITE_TO_FILESYSTEM (operand (Upload n) @ a # zs) v"
  let ?salt = "file_salt S ?w" and ?iv = "file_iv S ?w"
  obtain key where key: "pwhash S (box_SEEDBYTES S) password ?salt = Some key" using hash by blast
  let ?q = "Put n (sealed_header S ?iv key) ?salt (sealed_chunks S ?iv key xs)" and ?n = "nonce_at S v 0"
  have i: "intent_of ?q = word_of_int (int (unat (digit_of (Upload n))) - 48)" by (simp add: wire_constants)
  have o: "offers ?w n (10 # a # zs)" using offers_operand [OF n(1) v] by simp
  have f: "resolve (disk ?w) n = Inr (cwd (disk v) @ [n])" "lookup (disk ?w) (cwd (disk v) @ [n]) = Some (File xs)"
    using resolve_here [OF at_deskD(3) [OF v]] n at_deskD(4) [OF v] by (simp_all add: begun_def proper_name_def)
  have p: "tx_plan ?w = []" "0 \<notin> set n" using at_deskD(1) [OF v] n(1) by (simp_all add: begun_def proper_name_def)
  have fit: "length n \<le> FILE_ENCRYPTED_CHUNK_SIZE S" using proper_fits [OF S(1) n(1)] by simp
  obtain sync where sync: "ss_in_step S sync" using ss_startE [OF S(2)] .
  have h: "length (sealed_header S ?iv key) = ss_HEADERBYTES S" using ss_initE [OF sync] by metis
  have "sodium_sizes S" using S(1) by (simp add: session_laws_def)
  then have "0 < FILE_ENCRYPTED_CHUNK_SIZE S" by (simp add: chunk_sizes)
  note chunks = sealed_chunks_fit [OF sync this, of ?iv key xs]
  have "obeys S CA password nonce b dirs (Upload n) (desk, vault) a zs v ?q ?n []"
  proof (rule obeysI [OF S(1,3) v typed i])
    fix SA RA
    assume "agents S v SA RA"
    then have SA: "length (sa_nonce SA) = aead_NPUBBYTES S" "length (sa_buffer SA) = FILE_ENCRYPTED_CHUNK_SIZE S"
      "sa_nonce SA = ?n" by (simp_all add: agents_def)
    from handle_acts(2) [OF upload_acts [OF S(1,2) SA(1) p(1) SA(2) o fit p(2) f key]]
    show "acts (handle S CA password SA RA (intent_of ?q)) (begun S CA nonce (intent_of ?q) (operand (Upload n) @ a # zs) v) []
      (\<lambda>_. True) (?w\<lparr>cin_rest := 10 # a # zs, rnd_pos := rnd_pos ?w + pwhash_SALTBYTES S + ss_HEADERBYTES S,
        tx := tx ?w @ upload_bytes S (client_tx CA) ?n n (sealed_header S ?iv key) ?salt (sealed_chunks S ?iv key xs)\<rparr>)"
      unfolding SA(3) intent_of.simps .
  qed (use v in \<open>simp_all add: begun_def\<close>)
  moreover have "encrypted_file S password xs (sealed_header S ?iv key @ ?salt @ concat (sealed_chunks S ?iv key xs))"
    unfolding encrypted_file_def using key file_salt_length by blast
  then have "keeps S password (vault(n @ ext := desk n)) (after ?q st)" if "keeps S password vault st" for st
    using that n(2) by (simp add: keeps_def)
  moreover have "sendable S (?q, nonce, ?n)"
    using S(3) n(1) h chunks by (simp add: sendable_def proper_name_def plain_name_def)
  ultimately have "understood S CA password nonce b dirs (Upload n) (desk, vault) a zs v ?q ?n"
    unfolding understood_def by simp
  then show ?thesis by blast
qed

lemma desk_write:
  assumes v: "at_desk dirs desk v" and m: "plain_name m" "m \<notin> dirs"
  shows "at_desk dirs (desk(m \<mapsto> bs)) (v\<lparr>disk := write_out (Some (cwd (disk v) @ [m])) bs (snd (open_out (disk v) m))\<rparr>)"
proof -
  let ?p = "cwd (disk v) @ [m]"
  obtain d where d: "open_out (disk v) m = (Some ?p, d)"
    using open_out_ok [OF resolve_here [OF at_deskD(3) [OF v] m(1)]] m(2) at_deskD(5) [OF v] by blast
  let ?d = "write_out (Some ?p) bs d"
  have l: "lookup ?d q = (if q = ?p then Some (File bs) else lookup (disk v) q)" for q
    using lookup_write_out [OF open_outD(3) [OF d]] open_outD(4) [OF d] by simp
  have c: "cwd d = cwd (disk v)" using cwd_open_out [OF d] .
  have "store_of ?d (cwd ?d) = desk(m \<mapsto> bs)"
    using v by (auto simp: fun_eq_iff c l store_of_def at_desk_def)
  moreover have "{n. lookup ?d (cwd ?d @ [n]) = Some Dir} = dirs"
    using m(2) at_deskD(5) [OF v] by (auto simp: c l)
  moreover have "lookup ?d (cwd ?d) = Some Dir" using at_deskD(3) [OF v] by (simp add: c l)
  ultimately show ?thesis using at_deskD(1,2) [OF v] by (simp add: at_desk_def d)
qed

lemma download_understood:
  assumes S: "session_laws S" "secretstream_laws S" "length nonce = aead_NPUBBYTES S" and v: "at_desk dirs desk v"
    and typed: "cin_rest v = keystrokes (Download n) a @ zs" "\<not> is_space a"
    and n: "proper_name n" "4 \<le> length n" "plain_name (local_name n)" "local_name n \<notin> dirs" "vault n = Some xs"
  shows "\<exists>q n'. understood S CA password nonce b dirs (Download n) (desk, vault) a zs v q n'"
proof -
  let ?q = "Get n" and ?w = "begun S CA nonce READ_FROM_FILESYSTEM (operand (Download n) @ a # zs) v"
  let ?n = "nonce_at S (v\<lparr>rnd_pos := rnd_pos v + (aead_NPUBBYTES S + pwhash_SALTBYTES S)\<rparr>) 0"
  have i: "intent_of ?q = word_of_int (int (unat (digit_of (Download n))) - 48)" by (simp add: wire_constants)
  have o: "offers ?w n (10 # a # zs)" using offers_operand [OF n(1) v] by simp
  have w: "at_desk dirs desk ?w" using v by simp
  have dir: "lookup (disk ?w) (cwd (disk ?w) @ [local_name n]) \<noteq> Some Dir" using n(4) at_deskD(5) [OF w] by simp
  have "obeys S CA password nonce b dirs (Download n) (desk, vault) a zs v ?q ?n bs"
    if k: "keeps S password vault st" and ans: "answers S (client_rx CA) ?q st bs" for st bs
  proof -
    from keepsD(3) [OF k n(5)] obtain fs where fs: "st n = Some fs" "encrypted_file S password xs fs" by blast
    from fs(2) obtain iv salt key where e: "length salt = pwhash_SALTBYTES S"
      "pwhash S (box_SEEDBYTES S) password salt = Some key"
      "fs = sealed_header S iv key @ salt @ concat (sealed_chunks S iv key xs)" by (auto simp: encrypted_file_def)
    obtain sync where sync: "ss_in_step S sync" using ss_startE [OF S(2)] .
    have h: "length (sealed_header S iv key) = ss_HEADERBYTES S" using ss_initE [OF sync] by metis
    from ans fs(1) e h obtain m where m: "length m = aead_NPUBBYTES S"
      "bs = download_bytes S (client_rx CA) m (sealed_header S iv key) salt
         (file_chunks (FILE_ENCRYPTED_CHUNK_SIZE S) (concat (sealed_chunks S iv key xs)))" by auto
    show ?thesis unfolding m(2) stored_blocks [OF sync]
    proof (rule obeysI [OF S(1,3) v typed i])
      fix SA RA
      assume "agents S v SA RA"
      then have RA: "length (ra_nonce RA) = aead_NPUBBYTES S" "ra_nonce RA = ?n" by (simp_all add: agents_def)
      from handle_acts(1) [OF download_acts [OF S(1,2) RA(1) at_deskD(1) [OF w] o n(1,2) at_deskD(3) [OF w] n(3) dir e(1,2) m(1)]]
      show "acts (handle S CA password SA RA (intent_of ?q)) (begun S CA nonce (intent_of ?q) (operand (Download n) @ a # zs) v)
          (download_bytes S (client_rx CA) m (sealed_header S iv key) salt (sealed_chunks S iv key xs)) (\<lambda>_. True)
          (?w\<lparr>cin_rest := 10 # a # zs, tx := tx ?w @ frame S (client_tx CA) ?n (n @ [0]),
             disk := write_out (Some (cwd (disk ?w) @ [local_name n])) xs (snd (open_out (disk ?w) (local_name n)))\<rparr>)"
        unfolding RA(2) intent_of.simps .
    next
      let ?u = "?w\<lparr>cin_rest := 10 # a # zs, tx := tx ?w @ frame S (client_tx CA) ?n (n @ [0])\<rparr>"
      have "at_desk dirs desk ?u" using w by simp
      from desk_write [OF this n(3,4), of xs]
      show "at_desk dirs (fst (does (Download n) (desk, vault))) (?w\<lparr>cin_rest := 10 # a # zs,
          tx := tx ?w @ frame S (client_tx CA) ?n (n @ [0]),
          disk := write_out (Some (cwd (disk ?w) @ [local_name n])) xs (snd (open_out (disk ?w) (local_name n)))\<rparr>)"
        by (simp add: n(5))
    qed (simp_all add: begun_def)
  qed
  moreover have "sendable S (?q, nonce, ?n)" using S(3) n(1) by (simp add: sendable_def proper_name_def)
  ultimately have "understood S CA password nonce b dirs (Download n) (desk, vault) a zs v ?q ?n"
    unfolding understood_def by simp
  then show ?thesis by blast
qed

lemma command_understood:
  assumes S: "session_laws S" "secretstream_laws S" "length nonce = aead_NPUBBYTES S" and v: "at_desk dirs desk v"
    and typed: "cin_rest v = keystrokes c a @ zs" "\<not> is_space a" and ok: "sensible dirs c (desk, vault)"
    and hash: "\<forall>salt. pwhash S (box_SEEDBYTES S) password salt \<noteq> None"
  shows "\<exists>q n'. understood S CA password nonce b dirs c (desk, vault) a zs v q n'"
proof (cases c)
  case (Upload n)
  with upload_understood [OF S v _ typed(2) _ _ hash] typed(1) ok show ?thesis by auto
next
  case (Download n)
  with download_understood [OF S v _ typed(2)] typed(1) ok show ?thesis by auto
next
  case Listing
  with listing_understood [OF S(1,3) v _ typed(2)] typed(1) ok show ?thesis by auto
next
  case (Delete n)
  with delete_understood [OF S(1,3) v _ typed(2)] typed(1) ok show ?thesis by auto
qed

section \<open>The session\<close>

text \<open>What follows a round in the client's loop.\<close>

definition after_round :: "'st sodium \<Rightarrow> comms_agent \<Rightarrow> cpp_string \<Rightarrow> int + byte list \<times> byte \<Rightarrow> world \<Rightarrow> ((int \<times> cpp_string) \<times> world) run" where
  "after_round S CA password r w = (case r of
      Inl rc \<Rightarrow> ret ((rc, password), w)
    | Inr (nonce, perform_next) \<Rightarrow>
        if perform_next = 121 \<or> perform_next = 89 then comms_loop S CA password nonce perform_next w
        else andthen (notify_server_of_action S CA NO_ACTION nonce w) (\<lambda>(_, w). ret ((0, replicate (length password) 0), w)))"

lemma comms_loop_acts:
  assumes "acts (comms_round S CA password nonce b) v bs (\<lambda>x. x = r) v1" "acts (after_round S CA password r) v1 cs R v2"
  shows "acts (comms_loop S CA password nonce b) v (bs @ cs) R v2"
proof -
  have "comms_loop S CA password nonce b =
      (\<lambda>w. andthen (comms_round S CA password nonce b w) (\<lambda>(x, w). after_round S CA password x w))"
    by (rule HOL.ext, subst comms_loop.simps) (simp add: after_round_def [abs_def])
  with acts_andthen [OF assms(1), where f = "after_round S CA password"] assms(2) show ?thesis by simp
qed

lemma after_round_more:
  "acts (comms_loop S CA password n2 121) v1 cs R v2 \<Longrightarrow> acts (after_round S CA password (Inr (n2, 121))) v1 cs R v2"
  by (simp add: after_round_def [abs_def])

lemma after_round_last:
  assumes S: "session_laws S" "length n2 = aead_NPUBBYTES S" "tx_plan v1 = []"
  shows "acts (after_round S CA password (Inr (n2, 110))) v1 [] (\<lambda>x. x = (0, replicate (length password) 0))
     (v1\<lparr>tx := tx v1 @ frame S (client_tx CA) n2 (i32_bytes NO_ACTION)\<rparr>)"
proof (rule acts_silent)
  show "after_round S CA password (Inr (n2, 110)) (v1\<lparr>rx := es, errno := e\<rparr>) = ret ((0, replicate (length password) 0),
      v1\<lparr>tx := tx v1 @ frame S (client_tx CA) n2 (i32_bytes NO_ACTION), rx := es, errno := e\<rparr>)" for es e
    using session_send_frame [OF S(1,2) i32_fits [OF S(1)], where w = "v1\<lparr>rx := es, errno := e\<rparr>" and key = "client_tx CA"] S(3)
    by (cases v1) (simp add: after_round_def notify_server_of_action_def get_client_tx_def)
qed simp

text \<open>The server serves a request whatever nonce the previous one has left behind.\<close>

lemma served_nonce: "served S (op\<lparr>op_nonce := n\<rparr>) p q w = served S op p q w"
  by (cases q) (simp_all split: option.split)

lemma request_served:
  assumes S: "session_laws S" "sendable S (q, nonce, n')" and w: "session_ready S op p w"
    and more: "\<And>n. acts (session_loop S (op\<lparr>op_nonce := n\<rparr>)) (served S op p q w) cs R w'"
  shows "acts (session_loop S (op\<lparr>op_nonce := n\<rparr>)) w
     (action_bytes S (server_rx op) nonce (intent_of q) @ request_bytes S (server_rx op) n' q @ cs) R w'"
proof -
  have q: "request_ok S q" "length nonce = aead_NPUBBYTES S" "length n' = aead_NPUBBYTES S"
    using S(2) by (simp_all add: sendable_def)
  have "session_ready S (op\<lparr>op_nonce := n\<rparr>) p w" using w by (simp add: session_ready_def)
  from dispatch_acts [OF S(1) q(3) this q(1)]
  have "acts (dispatch S (intent_of q) (op\<lparr>op_nonce := n\<rparr>)) w (request_bytes S (server_rx op) n' q)
      (\<lambda>op'. \<exists>n. op' = op\<lparr>op_nonce := n\<rparr>) (served S op p q w)" by (simp add: served_nonce)
  from session_loop_acts [OF S(1) q(2) this, of cs R w'] more show ?thesis by auto
qed

lemma session_runs:
  assumes S: "session_laws S" "secretstream_laws S" "\<forall>salt. pwhash S (box_SEEDBYTES S) password salt \<noteq> None"
    and keys: "client_tx CA = server_rx op" "client_rx CA = server_tx op"
    and "length nonce = aead_NPUBBYTES S" "at_desk dirs desk v" "cin_rest v = typing cs @ zs" "cs \<noteq> []"
    and "script_ok dirs cs (desk, vault)" "session_ready S op p w" "keeps S password vault (store_of (disk w) p)"
  shows "\<exists>M A v' w' out.
     acts (comms_loop S CA password nonce b) v A (\<lambda>r. r = (0, replicate (length password) 0)) v' \<and>
     (\<forall>n. acts (session_loop S (op\<lparr>op_nonce := n\<rparr>)) w M (\<lambda>_. True) w') \<and>
     tx v' = tx v @ M \<and> tx w' = tx w @ A \<and> cin_rest v' = zs \<and> cout v' = cout v @ out \<and> screens cs (desk, vault) out \<and>
     at_desk dirs (fst (fold does cs (desk, vault))) v' \<and> session_ready S op p w' \<and>
     keeps S password (snd (fold does cs (desk, vault))) (store_of (disk w') p) \<and>
     (\<forall>q. (\<forall>n. q \<noteq> p @ [n]) \<longrightarrow> lookup (disk w') q = lookup (disk w) q)"
  using assms(6-)
proof (induction cs arbitrary: nonce desk vault v w b)
  case (Cons c cs)
  let ?a = "if cs = [] then 110 else 121 :: byte" and ?n2 = "counter S 2 nonce"
  have typed: "cin_rest v = keystrokes c ?a @ typing cs @ zs" "\<not> is_space ?a"
    using Cons.prems(3) by (simp_all add: is_space_def)
  have ok: "sensible dirs c (desk, vault)" "script_ok dirs cs (does c (desk, vault))" using Cons.prems(5) by simp_all
  obtain desk' vault' where s': "does c (desk, vault) = (desk', vault')" by fastforce
  from command_understood [OF S(1,2) Cons.prems(1,2) typed ok(1) S(3), of CA b] obtain q n' where
    u: "sendable S (q, nonce, n')" "\<And>st. keeps S password vault st \<Longrightarrow> keeps S password vault' (after q st)"
    "\<And>st bs. keeps S password vault st \<Longrightarrow> answers S (client_rx CA) q st bs \<Longrightarrow>
       obeys S CA password nonce b dirs c (desk, vault) ?a (typing cs @ zs) v q n' bs"
    unfolding understood_def s' by (elim exE conjE) simp
  have q: "request_ok S q" using u(1) by (simp add: sendable_def)
  let ?w = "served S op p q w"
  obtain A1 where w1: "session_ready S op p ?w" "store_of (disk ?w) p = after q (store_of (disk w) p)"
    "tx ?w = tx w @ A1" "answers S (server_tx op) q (store_of (disk w) p) A1"
    "\<forall>q. (\<forall>n. q \<noteq> p @ [n]) \<longrightarrow> lookup (disk ?w) q = lookup (disk w) q"
    using served_meets [OF S(1) Cons.prems(6) q] .
  from u(3) [OF Cons.prems(7), unfolded keys(2), OF w1(4)] obtain v1 out1 where
    v1: "acts (comms_round S CA password nonce b) v A1 (\<lambda>x. x = Inr (?n2, ?a)) v1" "at_desk dirs desk' v1"
    "cin_rest v1 = typing cs @ zs" "cout v1 = cout v @ out1" "screen c vault out1"
    "tx v1 = tx v @ action_bytes S (server_rx op) nonce (intent_of q) @ request_bytes S (server_rx op) n' q"
    unfolding obeys_def keys s' by auto
  have k1: "keeps S password vault' (store_of (disk ?w) p)" using u(2) [OF Cons.prems(7)] w1(2) by simp
  have n2: "length ?n2 = aead_NPUBBYTES S" using length_counter [OF S(1)] Cons.prems(1) by simp
  show ?case
  proof (cases "cs = []")
    case True
    then have "acts (comms_round S CA password nonce b) v A1 (\<lambda>x. x = Inr (?n2, 110)) v1" using v1(1) by simp
    from comms_loop_acts [OF this after_round_last [OF S(1) n2 at_deskD(1) [OF v1(2)]]]
    have c: "acts (comms_loop S CA password nonce b) v A1 (\<lambda>r. r = (0, replicate (length password) 0))
        (v1\<lparr>tx := tx v1 @ frame S (server_rx op) ?n2 (i32_bytes NO_ACTION)\<rparr>)" by (simp add: keys)
    have "acts (session_loop S (op\<lparr>op_nonce := n\<rparr>)) ?w (frame S (server_rx op) ?n2 (i32_bytes NO_ACTION)) (\<lambda>_. True) ?w" for n
      using acts_weaken [OF session_loop_bye [OF S(1) n2, of "op\<lparr>op_nonce := n\<rparr>" ?w]] by simp
    note srv = request_served [OF S(1) u(1) Cons.prems(6) this]
    show ?thesis
      by (intro exI conjI, rule c, intro allI, rule srv) (use True v1 w1 k1 s' in simp_all)
  next
    case False
    then have "acts (comms_round S CA password nonce b) v A1 (\<lambda>x. x = Inr (?n2, 121)) v1" using v1(1) by simp
    note more = comms_loop_acts [OF this after_round_more]
    from Cons.IH [OF n2 v1(2,3) False ok(2) [unfolded s'] w1(1) k1, of 121] obtain M A v' w' out where
      ih: "acts (comms_loop S CA password ?n2 121) v1 A (\<lambda>r. r = (0, replicate (length password) 0)) v'"
      "\<And>n. acts (session_loop S (op\<lparr>op_nonce := n\<rparr>)) ?w M (\<lambda>_. True) w'" "tx v' = tx v1 @ M" "tx w' = tx ?w @ A"
      "cin_rest v' = zs" "cout v' = cout v1 @ out" "screens cs (desk', vault') out"
      "at_desk dirs (fst (fold does cs (desk', vault'))) v'" "session_ready S op p w'"
      "keeps S password (snd (fold does cs (desk', vault'))) (store_of (disk w') p)"
      "\<forall>q. (\<forall>n. q \<noteq> p @ [n]) \<longrightarrow> lookup (disk w') q = lookup (disk ?w) q" by (elim exE conjE) blast
    note srv = request_served [OF S(1) u(1) Cons.prems(6) ih(2)]
    have scr: "screens (c # cs) (desk, vault) (out1 @ out)" using v1(5) ih(7) s' by auto
    show ?thesis
      by (intro exI conjI, rule more [OF ih(1)], intro allI, rule srv, simp_all only: ih v1 w1)
        (use scr ih(8,10,11) w1(5) s' in simp_all)
  qed
qed simp

text \<open>
  C1. A session, end to end: whatever sensible commands the user types, there are a byte stream
  that the client sends and one that the server sends such that the client, fed with the
  server's, and the server's session loop, fed with the client's, both return (however the
  network cuts the streams); the user's directory and the vault are then what the specification
  says, the screen shows what it says, and no path outside the user's directory on the server
  has changed.
\<close>

theorem user_session:
  assumes "session_laws S" "secretstream_laws S" "\<forall>salt. pwhash S (box_SEEDBYTES S) password salt \<noteq> None"
    and "client_tx CA = server_rx op" "client_rx CA = server_tx op" "length nonce = aead_NPUBBYTES S"
    and "at_desk dirs desk v" "cin_rest v = typing cs @ zs" "cs \<noteq> []" "script_ok dirs cs (desk, vault)"
    and "session_ready S op p w" "keeps S password vault (store_of (disk w) p)"
  shows "\<exists>M A v' w' out.
     acts (comms_loop S CA password nonce 110) v A (\<lambda>r. r = (0, replicate (length password) 0)) v' \<and>
     acts (session_loop S op) w M (\<lambda>_. True) w' \<and> tx v' = tx v @ M \<and> tx w' = tx w @ A \<and>
     cin_rest v' = zs \<and> cout v' = cout v @ out \<and> screens cs (desk, vault) out \<and>
     at_desk dirs (fst (fold does cs (desk, vault))) v' \<and>
     keeps S password (snd (fold does cs (desk, vault))) (store_of (disk w') p) \<and>
     (\<forall>q. (\<forall>n. q \<noteq> p @ [n]) \<longrightarrow> lookup (disk w') q = lookup (disk w) q)"
proof -
  have "op\<lparr>op_nonce := op_nonce op\<rparr> = op" by simp
  with session_runs [OF assms, of 110] show ?thesis by metis
qed

definition toy_home_dir :: filesys where
  "toy_home_dir = \<lparr>entries = [([str ''MEF_S''], Dir), ([str ''MEF_S'', str ''u''], Dir)], cwd = []\<rparr>"

definition toy_script :: "command list" where
  "toy_script = [Upload (str ''g''), Listing, Download (str ''g.enc''), Delete (str ''g.enc'')]"

lemma toy_home_ready: "session_ready toy_sodium toy_op [str ''MEF_S'', str ''u''] (idle_world\<lparr>disk := toy_home_dir\<rparr>)"
proof -
  have "resolve toy_home_dir (user_dir toy_op) = Inr [str ''MEF_S'', str ''u'']"
    "lookup toy_home_dir [str ''MEF_S'', str ''u''] = Some Dir" "keys_once toy_home_dir" by code_simp+
  moreover have "lookup toy_home_dir ([str ''MEF_S'', str ''u''] @ [n]) = None" for n
    by (simp add: lookup_def toy_home_dir_def)
  ultimately show ?thesis
    by (auto simp: session_ready_def home_def store_of_def toy_op_def base_dir_def str_def idle_world_def)
qed

lemma toy_desk: "at_desk {} [str ''g'' \<mapsto> [1, 2, 3]] (idle_world\<lparr>disk := toy_local, cin_rest := typing cs\<rparr>)"
  by (auto simp: at_desk_def idle_world_def toy_local_def lookup_def store_of_def fun_eq_iff)

lemma toy_script_ok: "script_ok {} toy_script ([str ''g'' \<mapsto> [1, 2, 3]], \<lambda>_. None)"
proof -
  have n: "proper_name (str ''g'')" "proper_name (str ''g.enc'')" "plain_name (str ''g'')"
    "local_name (str ''g.enc'') = str ''g''" "str ''g'' @ ext = str ''g.enc''" "0 \<notin> set (str ''g.enc'')"
    "4 \<le> length (str ''g.enc'')" "length (str ''g.enc'') + 1 < MAX_FILE_NAME_LENGTH" by code_simp+
  then show ?thesis by (simp add: toy_script_def)
qed

theorem user_session_witness:
  "\<exists>M A v' w'.
     acts (comms_loop toy_sodium toy_CA (str ''pw'') (replicate 8 0) 110)
       (idle_world\<lparr>disk := toy_local, cin_rest := typing toy_script\<rparr>) A (\<lambda>r. r = (0, [0, 0])) v' \<and>
     acts (session_loop toy_sodium toy_op) (idle_world\<lparr>disk := toy_home_dir\<rparr>) M (\<lambda>_. True) w' \<and>
     tx v' = M \<and> tx w' = A \<and> cout v' = [str ''g.enc'', deleted_msg]"
proof -
  let ?v = "idle_world\<lparr>disk := toy_local, cin_rest := typing toy_script\<rparr>" and ?w = "idle_world\<lparr>disk := toy_home_dir\<rparr>"
  have k: "client_tx toy_CA = server_rx toy_op" "client_rx toy_CA = server_tx toy_op"
    by (simp_all add: toy_CA_def toy_op_def)
  have h: "\<forall>salt. pwhash toy_sodium (box_SEEDBYTES toy_sodium) (str ''pw'') salt \<noteq> None" by (simp add: toy_sodium_def)
  have n: "length (replicate 8 0 :: byte list) = aead_NPUBBYTES toy_sodium" by simp
  have t: "cin_rest ?v = typing toy_script @ []" "toy_script \<noteq> []" by (simp_all add: toy_script_def)
  have "store_of (disk ?w) [str ''MEF_S'', str ''u''] m = None" for m
    by (simp add: store_of_def lookup_def toy_home_dir_def)
  then have s: "keeps toy_sodium (str ''pw'') (\<lambda>_. None) (store_of (disk ?w) [str ''MEF_S'', str ''u''])"
    by (simp add: keeps_def)
  from user_session [OF toy_session toy_secretstream h k n toy_desk t toy_script_ok toy_home_ready s]
  obtain M A v' w' out where r: "acts (comms_loop toy_sodium toy_CA (str ''pw'') (replicate 8 0) 110) ?v A
      (\<lambda>r. r = (0, replicate (length (str ''pw'')) 0)) v'" "acts (session_loop toy_sodium toy_op) ?w M (\<lambda>_. True) w'"
    "tx v' = tx ?v @ M" "tx w' = tx ?w @ A" "cout v' = cout ?v @ out"
    "screens toy_script ([str ''g'' \<mapsto> [1, 2, 3]], \<lambda>_. None) out" by (elim exE conjE)
  have "str ''g'' @ ext = str ''g.enc''" by code_simp
  with r(6) obtain ns where "out = ns @ [deleted_msg]" "distinct ns" "set ns = {str ''g.enc''}"
    by (auto simp: toy_script_def)
  with distinct_singleton_list have "out = [str ''g.enc'', deleted_msg]" by fastforce
  with r(1-5) show ?thesis by (auto simp: idle_world_def str_def numeral_2_eq_2)
qed

end
