(* ===== verification/Worker_Pool.thy ===== *)
theory Worker_Pool
  imports Server Transition "HOL-Library.Multiset"
begin

text \<open>
  The server's threads (\<open>src/server/server.cpp\<close>): the accept loop of \<open>main\<close>, the workers of
  the pool with their condition variable, and the ways to shut the server down. Every statement
  that other threads can observe is a step of its own; a worker that evaluates the predicate of
  \<open>queue_cv.wait\<close> holds the queue's mutex until it has gone to sleep. The theorems: no
  connection is lost, duplicated or served out of order, no two workers share a socket,
  \<open>front()\<close> is never called on an empty queue, no wake-up for a waiting connection is lost,
  what the counters say, and how a shutdown can hang.
\<close>

section \<open>The threads\<close>

datatype main_pc =
  M_Loop | M_Accept | M_Got int | M_Register int | M_Push int | M_Notify | M_Total | M_Live
| M_Stopped | M_Join | M_Join_Log | M_Join_Kill | M_Done

datatype worker_pc =
  W_Loop | W_Lock | W_Pred | W_Ready | W_Block | W_Asleep
| W_Handle int | W_Erase int | W_Close int | W_Dec | W_Exit

text \<open>
  \<open>pushed\<close>, \<open>taken\<close> and \<open>keyfails\<close> record what happened: the sockets queued and taken so
  far, and the connections that ended in the key exchange. \<open>sig_pending\<close>: the signal handler
  has set the flag and not yet notified. \<open>listener_done\<close> and \<open>logger_done\<close>: the threads of
  \<open>kill_server\<close> and \<open>logger\<close> have returned.
\<close>

record pool = server +
  q_lock :: "nat option"
  open_fds :: "int list"
  main_at :: main_pc
  workers :: "worker_pc list"
  sig_pending :: bool
  listener_done :: bool
  logger_done :: bool
  pushed :: "int list"
  taken :: "int list"
  keyfails :: nat

text \<open>
  \<open>Main\<close>, \<open>Worker i\<close> and \<open>Logger\<close> are steps of the threads themselves. The other labels are for
  what they have to wait for and what may never happen: \<open>Accepts\<close>, \<open>accept\<close> returns, with a
  connection or an error; \<open>Session i\<close>, the session worker \<open>i\<close> is in comes to its end;
  \<open>Terminal c\<close>, the listener reads the character \<open>c\<close>, or the end of the input; \<open>Signal\<close>;
  \<open>Spurious i\<close>, worker \<open>i\<close> wakes up by itself.
\<close>

datatype pool_label = Main | Worker nat | Logger | Accepts | Session nat | Terminal "byte option" | Signal | Spurious nat

fun thread_label :: "pool_label \<Rightarrow> bool" where
  "thread_label Main = True"
| "thread_label (Worker _) = True"
| "thread_label Logger = True"
| "thread_label _ = False"

definition at :: "pool \<Rightarrow> nat \<Rightarrow> worker_pc \<Rightarrow> bool" where
  "at s i pc \<longleftrightarrow> i < length (workers s) \<and> workers s ! i = pc"

definition go :: "nat \<Rightarrow> worker_pc \<Rightarrow> pool \<Rightarrow> pool" where
  "go i pc s = s\<lparr>workers := (workers s)[i := pc]\<rparr>"

definition wake :: "worker_pc \<Rightarrow> worker_pc" where
  "wake pc = (if pc = W_Asleep then W_Lock else pc)"

definition notify_all :: "pool \<Rightarrow> pool" where
  "notify_all s = s\<lparr>workers := map wake (workers s)\<rparr>"

text \<open>Where \<open>main\<close> gets in \<open>clean_all\<close>: it joins the workers, the logger and the listener, in that order.\<close>

fun clean_all :: "pool \<Rightarrow> main_pc \<Rightarrow> main_pc option" where
  "clean_all s M_Join = (if \<forall>pc \<in> set (workers s). pc = W_Exit then Some M_Join_Log else None)"
| "clean_all s M_Join_Log = (if logger_done s then Some M_Join_Kill else None)"
| "clean_all s M_Join_Kill = (if listener_done s then Some M_Done else None)"
| "clean_all s _ = None"

text \<open>
  One rule per statement other threads can observe. Both ways to stop the server shut the
  listening socket down, so that \<open>accept\<close> then returns by itself (\<open>accept_down\<close>).
\<close>

inductive pool_step :: "pool_label \<Rightarrow> pool \<Rightarrow> pool \<Rightarrow> bool" where
  loop: "main_at s = M_Loop \<Longrightarrow> server_alive s \<Longrightarrow> pool_step Main s (s\<lparr>main_at := M_Accept\<rparr>)"
| loop_end: "main_at s = M_Loop \<Longrightarrow> \<not> server_alive s \<Longrightarrow> pool_step Main s (s\<lparr>main_at := M_Stopped\<rparr>)"
| accept: "main_at s = M_Accept \<Longrightarrow> 0 \<le> fd \<Longrightarrow> fd \<notin> set (open_fds s) \<Longrightarrow>
     pool_step Accepts s (s\<lparr>main_at := M_Got fd, open_fds := fd # open_fds s\<rparr>)"
| accept_fails: "main_at s = M_Accept \<Longrightarrow> pool_step Accepts s (s\<lparr>main_at := M_Got (- 1)\<rparr>)"
| accept_down: "main_at s = M_Accept \<Longrightarrow> \<not> server_alive s \<Longrightarrow> pool_step Main s (s\<lparr>main_at := M_Got (- 1)\<rparr>)"
| got_stopped: "main_at s = M_Got fd \<Longrightarrow> \<not> server_alive s \<Longrightarrow>
     pool_step Main s (s\<lparr>main_at := M_Stopped, open_fds := filter (\<lambda>c. c \<noteq> fd) (open_fds s)\<rparr>)"
| got_error: "main_at s = M_Got fd \<Longrightarrow> server_alive s \<Longrightarrow> fd < 0 \<Longrightarrow>
     pool_step Main s (s\<lparr>main_at := M_Loop\<rparr>)"
| timeout_fails: "main_at s = M_Got fd \<Longrightarrow> server_alive s \<Longrightarrow> 0 \<le> fd \<Longrightarrow> \<not> set_conn_timeout setsockopt fd \<Longrightarrow>
     pool_step Main s (s\<lparr>main_at := M_Loop, open_fds := filter (\<lambda>c. c \<noteq> fd) (open_fds s)\<rparr>)"
| timeout_set: "main_at s = M_Got fd \<Longrightarrow> server_alive s \<Longrightarrow> 0 \<le> fd \<Longrightarrow> set_conn_timeout setsockopt fd \<Longrightarrow>
     pool_step Main s (s\<lparr>main_at := M_Register fd\<rparr>)"
| register: "main_at s = M_Register fd \<Longrightarrow>
     pool_step Main s (s\<lparr>main_at := M_Push fd, clients := List.insert fd (clients s)\<rparr>)"
| push: "main_at s = M_Push fd \<Longrightarrow> q_lock s = None \<Longrightarrow>
     pool_step Main s (s\<lparr>main_at := M_Notify, client_queue := client_queue s @ [fd], pushed := pushed s @ [fd]\<rparr>)"
| notify_one: "main_at s = M_Notify \<Longrightarrow> at s i W_Asleep \<Longrightarrow>
     pool_step Main s (go i W_Lock (s\<lparr>main_at := M_Total\<rparr>))"
| notify_none: "main_at s = M_Notify \<Longrightarrow> W_Asleep \<notin> set (workers s) \<Longrightarrow>
     pool_step Main s (s\<lparr>main_at := M_Total\<rparr>)"
| count_total: "main_at s = M_Total \<Longrightarrow>
     pool_step Main s (s\<lparr>main_at := M_Live, total_connections := total_connections s + 1\<rparr>)"
| count_live: "main_at s = M_Live \<Longrightarrow>
     pool_step Main s (s\<lparr>main_at := M_Loop, live_connections := live_connections s + 1\<rparr>)"
| stop: "main_at s = M_Stopped \<Longrightarrow> pool_step Main s (notify_all (s\<lparr>main_at := M_Join\<rparr>))"
| join: "main_at s = M_Join \<Longrightarrow> clean_all s M_Join = Some M_Join_Log \<Longrightarrow>
     pool_step Main s (s\<lparr>main_at := M_Join_Log\<rparr>)"
| join_log: "main_at s = M_Join_Log \<Longrightarrow> clean_all s M_Join_Log = Some M_Join_Kill \<Longrightarrow>
     pool_step Main s (s\<lparr>main_at := M_Join_Kill\<rparr>)"
| join_kill: "main_at s = M_Join_Kill \<Longrightarrow> clean_all s M_Join_Kill = Some M_Done \<Longrightarrow>
     pool_step Main s (s\<lparr>main_at := M_Done\<rparr>)"
| w_loop: "at s i W_Loop \<Longrightarrow> server_alive s \<Longrightarrow> pool_step (Worker i) s (go i W_Lock s)"
| w_loop_end: "at s i W_Loop \<Longrightarrow> \<not> server_alive s \<Longrightarrow> pool_step (Worker i) s (go i W_Exit s)"
| w_lock: "at s i W_Lock \<Longrightarrow> q_lock s = None \<Longrightarrow>
     pool_step (Worker i) s (go i W_Pred (s\<lparr>q_lock := Some i\<rparr>))"
| w_pred: "at s i W_Pred \<Longrightarrow> client_queue s \<noteq> [] \<or> \<not> server_alive s \<Longrightarrow>
     pool_step (Worker i) s (go i W_Ready s)"
| w_wait: "at s i W_Pred \<Longrightarrow> client_queue s = [] \<Longrightarrow> server_alive s \<Longrightarrow>
     pool_step (Worker i) s (go i W_Block s)"
| w_block: "at s i W_Block \<Longrightarrow> pool_step (Worker i) s (go i W_Asleep (s\<lparr>q_lock := None\<rparr>))"
| w_return: "at s i W_Ready \<Longrightarrow> \<not> server_alive s \<Longrightarrow>
     pool_step (Worker i) s (go i W_Exit (s\<lparr>q_lock := None\<rparr>))"
| w_take: "at s i W_Ready \<Longrightarrow> server_alive s \<Longrightarrow> client_queue s = fd # q \<Longrightarrow>
     pool_step (Worker i) s (go i (W_Handle fd) (s\<lparr>q_lock := None, client_queue := q, taken := taken s @ [fd]\<rparr>))"
| w_keys_fail: "at s i (W_Handle fd) \<Longrightarrow>
     pool_step (Session i) s (go i W_Loop (s\<lparr>keyfails := Suc (keyfails s)\<rparr>))"
| w_refused: "at s i (W_Handle fd) \<Longrightarrow> pool_step (Session i) s (go i W_Dec s)"
| w_served: "at s i (W_Handle fd) \<Longrightarrow> pool_step (Session i) s (go i (W_Erase fd) s)"
| w_erase: "at s i (W_Erase fd) \<Longrightarrow> pool_step (Worker i) s (go i (W_Close fd) (erase_client fd s))"
| w_close: "at s i (W_Close fd) \<Longrightarrow>
     pool_step (Worker i) s (go i W_Dec (close_socket fd (s\<lparr>open_fds := filter (\<lambda>c. c \<noteq> fd) (open_fds s)\<rparr>)))"
| w_dec: "at s i W_Dec \<Longrightarrow> pool_step (Worker i) s (go i W_Loop (count_out s))"
| logger_ends: "\<not> server_alive s \<Longrightarrow> \<not> logger_done s \<Longrightarrow> pool_step Logger s (s\<lparr>logger_done := True\<rparr>)"
| terminal: "\<not> listener_done s \<Longrightarrow>
     pool_step (Terminal c) s (s\<lparr>server_alive := (server_alive s \<and> c \<noteq> Some 113), listener_done := True\<rparr>)"
| signalled: "pool_step Signal s (s\<lparr>server_alive := False, sig_pending := True\<rparr>)"
| signal_notify: "sig_pending s \<Longrightarrow> pool_step Signal s (notify_all (s\<lparr>sig_pending := False\<rparr>))"
| spurious: "at s i W_Asleep \<Longrightarrow> pool_step (Spurious i) s (go i W_Lock s)"

definition pool_start :: "nat \<Rightarrow> pool" where
  "pool_start n = \<lparr>total_connections = 0, live_connections = 0, clients = [], client_queue = [],
     server_alive = True, server_sock_fd = 3, closed = [], q_lock = None, open_fds = [],
     main_at = M_Loop, workers = replicate n W_Loop, sig_pending = False,
     listener_done = False, logger_done = False, pushed = [], taken = [],
     keyfails = 0\<rparr>"

section \<open>The invariant\<close>

fun held :: "worker_pc \<Rightarrow> int list" where
  "held (W_Handle fd) = [fd]"
| "held (W_Erase fd) = [fd]"
| "held (W_Close fd) = [fd]"
| "held _ = []"

fun main_held :: "main_pc \<Rightarrow> int list" where
  "main_held (M_Got fd) = (if fd < 0 then [] else [fd])"
| "main_held (M_Register fd) = [fd]"
| "main_held (M_Push fd) = [fd]"
| "main_held _ = []"

text \<open>Every socket somebody is responsible for.\<close>

definition sockets :: "pool \<Rightarrow> int list" where
  "sockets s = main_held (main_at s) @ client_queue s @ concat (map held (workers s))"

definition sockets_ok :: "pool \<Rightarrow> bool" where
  "sockets_ok s \<longleftrightarrow> distinct (sockets s) \<and> set (sockets s) \<subseteq> set (open_fds s) \<and>
     (\<forall>fd \<in> set (open_fds s). 0 \<le> fd)"

definition has_lock :: "worker_pc \<Rightarrow> bool" where
  "has_lock pc \<longleftrightarrow> pc = W_Pred \<or> pc = W_Ready \<or> pc = W_Block"

definition lock_ok :: "pool \<Rightarrow> bool" where
  "lock_ok s \<longleftrightarrow> (\<forall>i. q_lock s = Some i \<longleftrightarrow> i < length (workers s) \<and> has_lock (workers s ! i))"

definition predicate_ok :: "pool \<Rightarrow> bool" where
  "predicate_ok s \<longleftrightarrow> (\<forall>i < length (workers s).
     (workers s ! i = W_Ready \<longrightarrow> client_queue s \<noteq> [] \<or> \<not> server_alive s) \<and>
     (workers s ! i = W_Block \<longrightarrow> client_queue s = []))"

definition queue_ok :: "pool \<Rightarrow> bool" where
  "queue_ok s \<longleftrightarrow> pushed s = taken s @ client_queue s"

fun busy :: "worker_pc \<Rightarrow> nat" where
  "busy W_Dec = 1"
| "busy pc = length (held pc)"

fun uncounted :: "main_pc \<Rightarrow> nat" where
  "uncounted M_Notify = 1"
| "uncounted M_Total = 1"
| "uncounted M_Live = 1"
| "uncounted _ = 0"

definition live_ok :: "pool \<Rightarrow> bool" where
  "live_ok s \<longleftrightarrow> live_connections s + of_nat (uncounted (main_at s)) =
     of_nat (length (client_queue s)) + of_nat (sum_list (map busy (workers s))) + of_nat (keyfails s)"

definition total_ok :: "pool \<Rightarrow> bool" where
  "total_ok s \<longleftrightarrow> total_connections s + (if main_at s = M_Notify \<or> main_at s = M_Total then 1 else 0) =
     of_nat (length (pushed s))"

text \<open>
  While the server is alive and some worker sleeps, every waiting connection has a worker that
  is on its way to the queue, or \<open>main\<close> is about to wake one.
\<close>

fun hungry :: "worker_pc \<Rightarrow> nat" where
  "hungry W_Lock = 1"
| "hungry W_Pred = 1"
| "hungry W_Ready = 1"
| "hungry _ = 0"

definition wakeup_ok :: "pool \<Rightarrow> bool" where
  "wakeup_ok s \<longleftrightarrow> (server_alive s \<longrightarrow> W_Exit \<notin> set (workers s)) \<and>
     (server_alive s \<and> W_Asleep \<in> set (workers s) \<longrightarrow>
       length (client_queue s) \<le> sum_list (map hungry (workers s)) + (if main_at s = M_Notify then 1 else 0))"

text \<open>While the server is alive, nobody has begun to wind it up.\<close>

definition up_ok :: "pool \<Rightarrow> bool" where
  "up_ok s \<longleftrightarrow> server_alive s \<longrightarrow> \<not> sig_pending s \<and>
     main_at s \<notin> {M_Stopped, M_Join, M_Join_Log, M_Join_Kill, M_Done}"

lemmas pool_updates = go_def notify_all_def erase_client_def close_socket_def count_out_def at_def

lemma wake_simps [simp]:
  "held (wake pc) = held pc" "busy (wake pc) = busy pc" "has_lock (wake pc) = has_lock pc"
  "wake pc = W_Exit \<longleftrightarrow> pc = W_Exit" "wake pc = W_Ready \<longleftrightarrow> pc = W_Ready" "wake pc = W_Block \<longleftrightarrow> pc = W_Block"
  "wake pc \<noteq> W_Asleep" "W_Asleep \<noteq> wake pc" "W_Exit = wake pc \<longleftrightarrow> pc = W_Exit"
  by (auto simp: wake_def has_lock_def)

lemma map_wake_simps [simp]:
  "map (held \<circ> wake) ws = map held ws" "map (busy \<circ> wake) ws = map busy ws"
  by auto

lemma mset_held_update:
  "i < length ws \<Longrightarrow> mset (concat (map held (ws[i := pc]))) + mset (held (ws ! i)) =
     mset (concat (map held ws)) + mset (held pc)"
  by (induction ws arbitrary: i) (auto split: nat.splits simp: add.left_commute add.commute)

lemma sum_map_update:
  fixes f :: "'a \<Rightarrow> nat"
  shows "i < length ws \<Longrightarrow> sum_list (map f (ws[i := pc])) + f (ws ! i) = sum_list (map f ws) + f pc"
proof (induction ws arbitrary: i)
  case (Cons w ws)
  then show ?case by (cases i) auto
qed simp

lemma queue_ok_step: "pool_step l s t \<Longrightarrow> queue_ok s \<Longrightarrow> queue_ok t"
  by (cases rule: pool_step.cases) (auto simp: queue_ok_def pool_updates)

lemma total_ok_step: "pool_step l s t \<Longrightarrow> total_ok s \<Longrightarrow> total_ok t"
  by (cases rule: pool_step.cases) (auto simp: total_ok_def pool_updates)

lemma lock_ok_go:
  assumes "at s i old" "lock_ok s" "workers u = workers s"
    and "(has_lock pc = has_lock old \<and> q_lock u = q_lock s) \<or>
      (has_lock pc \<and> q_lock s = None \<and> q_lock u = Some i) \<or>
      (has_lock old \<and> \<not> has_lock pc \<and> q_lock u = None)"
  shows "lock_ok (go i pc u)"
proof -
  have l: "q_lock s = Some j \<longleftrightarrow> j < length (workers s) \<and> has_lock (workers s ! j)" for j
    using assms(2) by (simp add: lock_ok_def)
  have "q_lock (go i pc u) = Some j \<longleftrightarrow> j < length (workers (go i pc u)) \<and> has_lock (workers (go i pc u) ! j)" for j
  proof (cases "j = i")
    case True
    with assms(1,3,4) l [of i] show ?thesis by (simp add: at_def go_def) auto
  next
    case False
    with assms(1,3,4) l [of i] l [of j] show ?thesis by (elim disjE) (simp_all add: at_def go_def)
  qed
  then show ?thesis by (simp add: lock_ok_def)
qed

lemma lock_ok_notify: "lock_ok s \<Longrightarrow> q_lock u = q_lock s \<Longrightarrow> workers u = workers s \<Longrightarrow> lock_ok (notify_all u)"
  unfolding lock_ok_def by (simp add: notify_all_def cong: conj_cong)

lemma lock_ok_step: "pool_step l s t \<Longrightarrow> lock_ok s \<Longrightarrow> lock_ok t"
proof (induction rule: pool_step.induct)
  case (stop s)
  from lock_ok_notify [OF stop.prems] show ?case by simp
next
  case (signal_notify s)
  from lock_ok_notify [OF signal_notify.prems] show ?case by simp
qed ((rule lock_ok_go, assumption, assumption, (simp add: pool_updates has_lock_def; fail)+)
  | (simp add: lock_ok_def; fail))+

lemma only_one_lock:
  assumes "lock_ok s" "i < length (workers s)" "has_lock (workers s ! i)" "j < length (workers s)" "has_lock (workers s ! j)"
  shows "i = j"
proof -
  from assms have "q_lock s = Some i" "q_lock s = Some j" by (simp_all add: lock_ok_def)
  then show ?thesis by simp
qed

lemma predicate_ok_step:
  assumes "pool_step l s t" "lock_ok s" "predicate_ok s"
  shows "predicate_ok t"
  using assms
proof (cases rule: pool_step.cases)
  case (push fd)
  have "workers s ! i \<noteq> W_Block" if "i < length (workers s)" for i
    using assms(2) that push by (auto simp: lock_ok_def has_lock_def)
  with push assms(3) show ?thesis by (auto simp: predicate_ok_def)
next
  case (w_take i fd q)
  have "\<not> has_lock (workers s ! j)" if "j < length (workers s)" "j \<noteq> i" for j
    using only_one_lock [OF assms(2)] that w_take by (metis at_def has_lock_def)
  with w_take assms(3) show ?thesis
    by (auto simp: predicate_ok_def pool_updates nth_list_update has_lock_def)
qed (auto simp: predicate_ok_def pool_updates nth_list_update)

lemma group_shift:
  fixes a :: "'a :: ab_group_add"
  assumes "a + u = q + b + k" "a' + (o1 + q + k) = a + (o2 + q' + k')" "b' + o1 = b + o2"
  shows "a' + u = q' + b' + k'"
proof -
  have e: "u = q + b + k - a" "a' = a + (o2 + q' + k') - (o1 + q + k)" "b' = b + o2 - o1"
    using assms by (metis add_diff_cancel_left', metis add_diff_cancel_right', metis add_diff_cancel_right')
  show ?thesis unfolding e by (simp add: algebra_simps)
qed

lemma live_ok_worker:
  assumes "live_ok s" "at s i old" "main_at t = main_at s" "workers t = (workers s)[i := pc]"
    and "live_connections t + of_nat (busy old + length (client_queue s) + keyfails s) =
      live_connections s + of_nat (busy pc + length (client_queue t) + keyfails t)"
  shows "live_ok t"
proof -
  let ?B = "\<lambda>s. of_nat (sum_list (map busy (workers s))) :: u64"
  have "sum_list (map busy (workers t)) + busy old = sum_list (map busy (workers s)) + busy pc"
    using sum_map_update [of i "workers s" busy pc] assms(2,4) by (simp add: at_def)
  then have "?B t + of_nat (busy old) = ?B s + of_nat (busy pc)" by (metis of_nat_add)
  with group_shift [of "live_connections s" "of_nat (uncounted (main_at s))" "of_nat (length (client_queue s))" "?B s"
      "of_nat (keyfails s)" "live_connections t" "of_nat (busy old)" "of_nat (busy pc)"
      "of_nat (length (client_queue t))" "of_nat (keyfails t)" "?B t"]
    assms(1,3,5) show ?thesis unfolding live_ok_def by simp
qed

lemma live_ok_go:
  assumes "at s i old" "live_ok s" "workers u = workers s" "main_at u = main_at s"
    and "live_connections u + of_nat (busy old + length (client_queue s) + keyfails s) =
      live_connections s + of_nat (busy pc + length (client_queue u) + keyfails u)"
  shows "live_ok (go i pc u)"
  by (rule live_ok_worker [OF assms(2,1), of _ pc]) (use assms in \<open>simp_all add: go_def\<close>)

lemma live_ok_step: "pool_step l s t \<Longrightarrow> live_ok s \<Longrightarrow> live_ok t"
proof (induction rule: pool_step.induct)
  case (notify_one s i)
  have "sum_list (map busy ((workers s)[i := W_Lock])) = sum_list (map busy (workers s))"
    using sum_map_update [of i "workers s" busy W_Lock] notify_one(2) by (simp add: at_def)
  with notify_one show ?case by (simp add: live_ok_def go_def)
qed ((rule live_ok_go, assumption, assumption, (simp add: pool_updates; fail)+)
  | (simp add: live_ok_def notify_all_def add.assoc; fail) | (simp add: live_ok_def algebra_simps))+

lemma up_ok_step: "pool_step l s t \<Longrightarrow> up_ok s \<Longrightarrow> up_ok t"
  by (cases rule: pool_step.cases) (auto simp: up_ok_def pool_updates)

lemma wakeup_ok_go:
  assumes "at s i old" "wakeup_ok s" "workers u = workers s" "server_alive u = server_alive s" "main_at u = main_at s"
    and "pc = W_Exit \<Longrightarrow> \<not> server_alive s"
    and "\<not> server_alive s \<or> client_queue u = [] \<or>
      (pc \<noteq> W_Asleep \<and> length (client_queue u) + hungry old \<le> length (client_queue s) + hungry pc)"
  shows "wakeup_ok (go i pc u)"
proof -
  have set: "set ((workers s)[i := pc]) \<subseteq> insert pc (set (workers s))" by (rule set_update_subset_insert)
  have sum: "sum_list (map hungry ((workers s)[i := pc])) + hungry old = sum_list (map hungry (workers s)) + hungry pc"
    using sum_map_update [of i "workers s" hungry pc] assms(1) by (simp add: at_def)
  have "length (client_queue u) \<le> sum_list (map hungry ((workers s)[i := pc])) + (if main_at s = M_Notify then 1 else 0)"
    if "server_alive s" "W_Asleep \<in> set ((workers s)[i := pc])"
  proof (cases "client_queue u = []")
    case False
    with that assms(7) have pc: "pc \<noteq> W_Asleep" and
      q: "length (client_queue u) + hungry old \<le> length (client_queue s) + hungry pc" by auto
    with that set assms(2) have "length (client_queue s) \<le> sum_list (map hungry (workers s)) + (if main_at s = M_Notify then 1 else 0)"
      by (auto simp: wakeup_ok_def)
    with q sum show ?thesis by linarith
  qed simp
  moreover have "server_alive s \<Longrightarrow> W_Exit \<notin> set ((workers s)[i := pc])" using assms(2,6) set by (auto simp: wakeup_ok_def)
  ultimately show ?thesis using assms(3-5) by (simp add: wakeup_ok_def go_def)
qed

lemma wakeup_ok_notify: "wakeup_ok s \<Longrightarrow> workers u = workers s \<Longrightarrow> server_alive u = server_alive s \<Longrightarrow> wakeup_ok (notify_all u)"
  by (auto simp: wakeup_ok_def notify_all_def)

lemma wakeup_ok_step:
  assumes "pool_step l s t" "predicate_ok s" "wakeup_ok s"
  shows "wakeup_ok t"
  using assms
proof (induction rule: pool_step.induct)
  case (w_block s i)
  then have "client_queue s = []" by (auto simp: predicate_ok_def at_def)
  with w_block show ?case by (intro wakeup_ok_go [of s i W_Block]) auto
next
  case (stop s)
  from wakeup_ok_notify [OF stop(3)] show ?case by simp
next
  case (signal_notify s)
  from wakeup_ok_notify [OF signal_notify(3)] show ?case by simp
next
  case (notify_one s i)
  have "sum_list (map hungry ((workers s)[i := W_Lock])) = sum_list (map hungry (workers s)) + 1"
    using sum_map_update [of i "workers s" hungry W_Lock] notify_one(2) by (simp add: at_def)
  moreover have "W_Asleep \<in> set (workers s)" using notify_one(2) nth_mem by (fastforce simp: at_def)
  moreover have "set ((workers s)[i := W_Lock]) \<subseteq> insert W_Lock (set (workers s))" by (rule set_update_subset_insert)
  ultimately show ?case using notify_one(1,4) by (auto simp: wakeup_ok_def go_def)
qed ((rule wakeup_ok_go, assumption, assumption, (simp add: pool_updates; fail)+)
  | (auto simp: wakeup_ok_def; fail))+

lemma sockets_go:
  assumes "at s i old" "workers u = workers s"
  shows "mset (sockets (go i pc u)) + mset (held old) =
     mset (main_held (main_at u)) + mset (client_queue u) + mset (concat (map held (workers s))) + mset (held pc)"
  using mset_held_update [of i "workers s" pc] assms
  by (simp add: sockets_def go_def at_def add.assoc)

lemma sockets_ok_drop:
  assumes "sockets_ok s" "mset (sockets s) = mset (sockets t) + mset gone"
    and "open_fds t = filter (\<lambda>c. c \<notin> set gone) (open_fds s)"
  shows "sockets_ok t"
proof -
  have m: "mset (sockets s) = mset (sockets t @ gone)" using assms(2) by simp
  then have d: "distinct (sockets t @ gone)" using assms(1) mset_eq_imp_distinct_iff sockets_ok_def by blast
  moreover have "set (sockets t @ gone) = set (sockets s)" using m by (metis set_mset_mset)
  ultimately show ?thesis using assms(1,3) by (auto simp: sockets_ok_def)
qed

lemma sockets_ok_same:
  assumes "sockets_ok s" "mset (sockets t) = mset (sockets s)" "open_fds t = open_fds s"
  shows "sockets_ok t"
  using sockets_ok_drop [of s t "[]"] assms by simp

lemma sockets_ok_leak:
  assumes "sockets_ok s" "mset (sockets s) = mset (sockets t) + mset gone" "open_fds t = open_fds s"
  shows "sockets_ok t"
proof -
  have m: "mset (sockets s) = mset (sockets t @ gone)" using assms(2) by simp
  then have "distinct (sockets t @ gone)" using assms(1) mset_eq_imp_distinct_iff sockets_ok_def by blast
  moreover have "set (sockets t) \<subseteq> set (sockets s)" using m by (metis set_append set_mset_mset Un_upper1)
  ultimately show ?thesis using assms(1,3) by (auto simp: sockets_ok_def)
qed

lemma sockets_ok_main_drop:
  assumes "sockets_ok s" "main_held (main_at s) = [fd]" "main_held pc = []"
  shows "sockets_ok (s\<lparr>main_at := pc, open_fds := filter (\<lambda>c. c \<noteq> fd) (open_fds s)\<rparr>)"
  by (rule sockets_ok_drop [OF assms(1), where gone = "[fd]"]) (use assms(2,3) in \<open>simp_all add: sockets_def\<close>)

lemma sockets_ok_go:
  assumes "at s i old" "sockets_ok s" "workers u = workers s" "open_fds u = open_fds s"
    and "mset (main_held (main_at u)) + mset (client_queue u) + mset (held pc) =
      mset (main_held (main_at s)) + mset (client_queue s) + mset (held old)"
  shows "sockets_ok (go i pc u)"
proof (rule sockets_ok_same [OF assms(2)])
  have "mset (sockets (go i pc u)) + mset (held old) = mset (sockets s) + mset (held old)"
    unfolding sockets_go [OF assms(1,3)] using assms(5)
    by (simp add: sockets_def add.assoc add.left_commute)
  then show "mset (sockets (go i pc u)) = mset (sockets s)" by simp
qed (use assms in \<open>simp add: go_def\<close>)

lemma sockets_ok_step: "pool_step l s t \<Longrightarrow> sockets_ok s \<Longrightarrow> sockets_ok t"
proof (induction rule: pool_step.induct)
  case (accept s fd)
  then have "fd \<notin> set (sockets s)" by (auto simp: sockets_ok_def)
  with accept show ?case by (auto simp: sockets_ok_def sockets_def)
next
  case (got_stopped s fd)
  show ?case
  proof (cases "fd < 0")
    case True
    have "c \<noteq> fd" if "c \<in> set (open_fds s)" for c
    proof -
      from got_stopped.prems that have "0 \<le> c" unfolding sockets_ok_def by blast
      with True show ?thesis by linarith
    qed
    then have same: "filter (\<lambda>c. c \<noteq> fd) (open_fds s) = open_fds s" by (simp add: filter_True)
    show ?thesis
      by (rule sockets_ok_same [OF got_stopped.prems])
        (use got_stopped.hyps(1) True in \<open>simp add: sockets_def\<close>, simp add: same)
  next
    case False
    with got_stopped.hyps(1) have "main_held (main_at s) = [fd]" by simp
    from sockets_ok_main_drop [OF got_stopped.prems this] show ?thesis by simp
  qed
next
  case (timeout_fails s fd setsockopt)
  then have "main_held (main_at s) = [fd]" by simp
  from sockets_ok_main_drop [OF timeout_fails.prems this] show ?case by simp
next
  case (w_close s i fd)
  let ?t = "go i W_Dec (close_socket fd (s\<lparr>open_fds := filter (\<lambda>c. c \<noteq> fd) (open_fds s)\<rparr>))"
  have "mset (sockets s) = mset (sockets ?t) + mset [fd]"
    using sockets_go [OF w_close(1), of "close_socket fd (s\<lparr>open_fds := filter (\<lambda>c. c \<noteq> fd) (open_fds s)\<rparr>)" W_Dec]
    by (simp add: sockets_def close_socket_def add.assoc)
  with w_close.prems show ?case by (rule sockets_ok_drop) (simp add: go_def close_socket_def)
next
  case (w_keys_fail s i fd)
  have "mset (sockets s) = mset (sockets (go i W_Loop (s\<lparr>keyfails := Suc (keyfails s)\<rparr>))) + mset [fd]"
    using sockets_go [OF w_keys_fail(1), of "s\<lparr>keyfails := Suc (keyfails s)\<rparr>" W_Loop] by (simp add: sockets_def add.assoc)
  with w_keys_fail.prems show ?case by (rule sockets_ok_leak) (simp add: go_def)
next
  case (w_refused s i fd)
  have "mset (sockets s) = mset (sockets (go i W_Dec s)) + mset [fd]"
    using sockets_go [OF w_refused(1) refl, of W_Dec] by (simp add: sockets_def add.assoc)
  with w_refused.prems show ?case by (rule sockets_ok_leak) (simp add: go_def)
qed ((rule sockets_ok_go, assumption, assumption, (simp add: pool_updates; fail)+)
  | (rule sockets_ok_same, assumption, (simp add: sockets_def notify_all_def; fail)+))+

definition pool_inv :: "pool \<Rightarrow> bool" where
  "pool_inv s \<longleftrightarrow> queue_ok s \<and> lock_ok s \<and> predicate_ok s \<and> sockets_ok s \<and> live_ok s \<and> total_ok s \<and> wakeup_ok s \<and> up_ok s"

lemma pool_inv_start: "pool_inv (pool_start n)"
proof -
  have "concat (map held (replicate n W_Loop)) = []" "sum_list (map busy (replicate n W_Loop)) = 0"
    by (simp_all add: sum_list_replicate)
  then show ?thesis
    by (simp add: sum_list_replicate pool_inv_def pool_start_def queue_ok_def lock_ok_def predicate_ok_def sockets_ok_def sockets_def
        live_ok_def total_ok_def wakeup_ok_def up_ok_def has_lock_def)
qed

interpretation server_pool: invariant_system pool_step pool_inv
  by unfold_locales
    (auto simp: pool_inv_def intro: queue_ok_step lock_ok_step predicate_ok_step sockets_ok_step live_ok_step
      total_ok_step wakeup_ok_step up_ok_step)

lemmas reachable_pool_inv = server_pool.inv_steps [OF _ pool_inv_start]

section \<open>What every schedule keeps\<close>

text \<open>
  C14. No connection is lost, duplicated or overtaken: in every reachable state the sockets the
  workers have taken, followed by those still waiting, are the sockets the accept loop queued,
  in that order; and \<open>total_connections\<close> is their number (modulo its width) as soon as the
  accept loop has counted the last one.
\<close>

theorem connections_in_order:
  assumes "steps pool_step (pool_start n) s"
  shows "pushed s = taken s @ client_queue s \<and>
     (main_at s = M_Notify \<or> main_at s = M_Total \<or> total_connections s = of_nat (length (pushed s)))"
proof -
  from reachable_pool_inv [OF assms] have "queue_ok s" "total_ok s" by (simp_all add: pool_inv_def)
  then show ?thesis by (auto simp: queue_ok_def total_ok_def split: if_splits)
qed

lemma held_disjoint:
  assumes "distinct (concat (map held ws))" "i < length ws" "j < length ws" "i \<noteq> j"
  shows "set (held (ws ! i)) \<inter> set (held (ws ! j)) = {}"
  using assms
proof (induction ws arbitrary: i j)
  case (Cons w ws)
  have "set (held (ws ! k)) \<subseteq> set (concat (map held ws))" if "k < length ws" for k
    using that by (auto intro: nth_mem)
  with Cons show ?case by (cases i; cases j) fastforce+
qed simp

text \<open>
  C15. A socket belongs to one thread: a connection one worker is serving is not served by
  another, is not waiting in the queue, is not the one the accept loop is about to queue, and
  is open.
\<close>

theorem no_shared_socket:
  assumes "steps pool_step (pool_start n) s" "i < length (workers s)" "fd \<in> set (held (workers s ! i))"
  shows "(\<forall>j < length (workers s). j \<noteq> i \<longrightarrow> fd \<notin> set (held (workers s ! j))) \<and>
     fd \<notin> set (client_queue s) \<and> fd \<notin> set (main_held (main_at s)) \<and> fd \<in> set (open_fds s)"
proof -
  from reachable_pool_inv [OF assms(1)] have s: "distinct (sockets s)" "set (sockets s) \<subseteq> set (open_fds s)"
    by (simp_all add: pool_inv_def sockets_ok_def)
  have c: "fd \<in> set (concat (map held (workers s)))" using assms(2,3) by auto
  with s have "fd \<notin> set (client_queue s)" "fd \<notin> set (main_held (main_at s))" "fd \<in> set (open_fds s)"
    by (auto simp: sockets_def)
  moreover have "fd \<notin> set (held (workers s ! j))" if "j < length (workers s)" "j \<noteq> i" for j
    using held_disjoint [of "workers s" i j] s(1) assms(2,3) that by (auto simp: sockets_def)
  ultimately show ?thesis by blast
qed

section \<open>Progress\<close>

lemma go_simps [simp]:
  "main_at (go i pc s) = main_at s" "server_alive (go i pc s) = server_alive s"
  "client_queue (go i pc s) = client_queue s" "q_lock (go i pc s) = q_lock s" "taken (go i pc s) = taken s"
  "length (workers (go i pc s)) = length (workers s)" "go i pc (go i pc' s) = go i pc s"
  by (simp_all add: go_def)

lemma at_go [simp]: "i < length (workers s) \<Longrightarrow> at (go i pc s) i pc' \<longleftrightarrow> pc = pc'"
  by (simp add: at_def go_def)

lemma at_length: "at s i pc \<Longrightarrow> i < length (workers s)"
  by (simp add: at_def)

text \<open>
  A connection \<open>fd\<close> is the next to be taken after \<open>tk\<close>, and some worker is not in a session.
  What a thread can do until somebody has taken it: its steps are counted by \<open>wait_work\<close>, in
  which a step that wakes a worker pays for what that worker will do.
\<close>

fun in_session :: "worker_pc \<Rightarrow> bool" where
  "in_session (W_Handle _) = True"
| "in_session _ = False"

fun worker_wait :: "worker_pc \<Rightarrow> nat" where
  "worker_wait W_Ready = 1"
| "worker_wait W_Block = 1"
| "worker_wait W_Pred = 2"
| "worker_wait W_Lock = 3"
| "worker_wait W_Loop = 4"
| "worker_wait W_Dec = 5"
| "worker_wait (W_Close _) = 6"
| "worker_wait (W_Erase _) = 7"
| "worker_wait _ = 0"

fun main_wait :: "main_pc \<Rightarrow> nat" where
  "main_wait M_Loop = 1"
| "main_wait M_Live = 2"
| "main_wait M_Total = 3"
| "main_wait M_Notify = 7"
| "main_wait (M_Push _) = 8"
| "main_wait (M_Register _) = 9"
| "main_wait (M_Got _) = 10"
| "main_wait _ = 0"

definition wait_work :: "pool \<Rightarrow> nat" where
  "wait_work s = main_wait (main_at s) + sum_list (map worker_wait (workers s))"

definition waiting :: "int list \<Rightarrow> int \<Rightarrow> pool \<Rightarrow> bool" where
  "waiting tk fd s \<longleftrightarrow> pool_inv s \<and> length tk \<le> length (taken s) \<and>
     (server_alive s \<and> taken s = tk \<longrightarrow>
        (\<exists>q. client_queue s = fd # q) \<and> (\<exists>pc \<in> set (workers s). \<not> in_session pc))"

definition attended :: "int list \<Rightarrow> pool \<Rightarrow> bool" where
  "attended tk s \<longleftrightarrow> \<not> (server_alive s \<and> taken s = tk)"

lemma in_session_wake [simp]: "in_session (wake pc) = in_session pc"
  by (simp add: wake_def)

lemma free_worker_go:
  assumes "at s i old" "\<not> in_session pc" "workers u = workers s"
  shows "\<exists>pc \<in> set (workers (go i pc u)). \<not> in_session pc"
  using assms set_update_memI [of i "workers s" pc] by (auto simp: go_def at_def)

lemma free_worker_step:
  assumes "pool_step l s t" "taken t = taken s" "\<exists>pc \<in> set (workers s). \<not> in_session pc"
  shows "\<exists>pc \<in> set (workers t). \<not> in_session pc"
  using assms
  by (induction rule: pool_step.induct)
    ((rule free_worker_go, assumption, (simp add: pool_updates; fail)+) | (auto simp: notify_all_def; fail))+

lemma front_stays:
  "pool_step l s t \<Longrightarrow> taken t = taken s \<Longrightarrow> client_queue s = fd # q \<Longrightarrow> \<exists>q. client_queue t = fd # q"
  by (induction rule: pool_step.induct) (auto simp: pool_updates)

lemma taken_step: "pool_step l s t \<Longrightarrow> taken t = taken s \<or> (\<exists>fd q. client_queue s = fd # q \<and> taken t = taken s @ [fd])"
  by (induction rule: pool_step.induct) (auto simp: pool_updates)

lemma not_alive_step: "pool_step l s t \<Longrightarrow> \<not> server_alive s \<Longrightarrow> \<not> server_alive t"
  by (induction rule: pool_step.induct) (simp_all add: pool_updates)

lemma alive_thread_step: "pool_step l s t \<Longrightarrow> thread_label l \<Longrightarrow> server_alive t = server_alive s"
  by (induction rule: pool_step.induct) (simp_all add: pool_updates)

lemma waiting_step:
  assumes "pool_step l s t" "waiting tk fd s"
  shows "waiting tk fd t"
proof -
  have inv: "pool_inv t" using assms server_pool.inv_step by (auto simp: waiting_def)
  have len: "length tk \<le> length (taken t)" using taken_step [OF assms(1)] assms(2) by (auto simp: waiting_def)
  have "(\<exists>q. client_queue t = fd # q) \<and> (\<exists>pc \<in> set (workers t). \<not> in_session pc)" if "server_alive t" "taken t = tk"
  proof -
    have same: "taken t = taken s" using taken_step [OF assms(1)] that(2) assms(2) by (auto simp: waiting_def)
    with that not_alive_step [OF assms(1)] assms(2)
    have "\<exists>q. client_queue s = fd # q" "\<exists>pc \<in> set (workers s). \<not> in_session pc" by (auto simp: waiting_def)
    with front_stays [OF assms(1) same] free_worker_step [OF assms(1) same] show ?thesis by blast
  qed
  with inv len show ?thesis by (simp add: waiting_def)
qed

lemma wait_work_go:
  assumes "at s i old" "workers u = workers s" "main_at u = main_at s"
  shows "wait_work (go i pc u) + worker_wait old = wait_work s + worker_wait pc"
  using sum_map_update [of i "workers s" worker_wait pc] assms by (simp add: wait_work_def go_def at_def)

lemma wait_work_step:
  assumes "pool_step l s t" "server_alive s" "up_ok s"
  shows "if thread_label l then wait_work t < wait_work s else wait_work t \<le> wait_work s + 10"
  using assms
proof (induction rule: pool_step.induct)
  case (notify_one s i)
  from wait_work_go [OF notify_one(2) refl refl, of W_Lock] notify_one(1) show ?case
    by (simp add: wait_work_def go_def)
next
  case (w_wait s i)
  from wait_work_go [OF w_wait(1) refl refl, of W_Block] show ?case by simp
next
  case (w_take s i fd q)
  from wait_work_go [OF w_take(1), of "s\<lparr>q_lock := None, client_queue := q, taken := taken s @ [fd]\<rparr>" "W_Handle fd"]
  show ?case by simp
next
  case (w_loop s i)
  from wait_work_go [OF w_loop(1) refl refl, of W_Lock] show ?case by simp
next
  case (w_lock s i)
  from wait_work_go [OF w_lock(1), of "s\<lparr>q_lock := Some i\<rparr>" W_Pred] show ?case by simp
next
  case (w_pred s i)
  from wait_work_go [OF w_pred(1) refl refl, of W_Ready] show ?case by simp
next
  case (w_block s i)
  from wait_work_go [OF w_block(1), of "s\<lparr>q_lock := None\<rparr>" W_Asleep] show ?case by simp
next
  case (w_keys_fail s i fd)
  from wait_work_go [OF w_keys_fail(1), of "s\<lparr>keyfails := Suc (keyfails s)\<rparr>" W_Loop] show ?case by simp
next
  case (w_refused s i fd)
  from wait_work_go [OF w_refused(1) refl refl, of W_Dec] show ?case by simp
next
  case (w_served s i fd)
  from wait_work_go [OF w_served(1) refl refl, of "W_Erase fd"] show ?case by simp
next
  case (w_erase s i fd)
  from wait_work_go [OF w_erase(1), of "erase_client fd s" "W_Close fd"] show ?case by (simp add: erase_client_def)
next
  case (w_close s i fd)
  from wait_work_go [OF w_close(1), of "close_socket fd (s\<lparr>open_fds := filter (\<lambda>c. c \<noteq> fd) (open_fds s)\<rparr>)" W_Dec]
  show ?case by (simp add: close_socket_def)
next
  case (w_dec s i)
  from wait_work_go [OF w_dec(1), of "count_out s" W_Loop] show ?case by (simp add: count_out_def)
next
  case (spurious s i)
  from wait_work_go [OF spurious(1) refl refl, of W_Lock] show ?case by simp
qed (auto simp: wait_work_def up_ok_def)

text \<open>A worker that holds the mutex, or is neither asleep nor in a session, can go on.\<close>

lemma holder_moves:
  assumes "lock_ok s" "predicate_ok s" "server_alive s" "client_queue s = fd # q" "q_lock s = Some j"
  shows "\<exists>t. pool_step (Worker j) s t"
proof -
  from assms(1,5) have j: "j < length (workers s)" "has_lock (workers s ! j)" unfolding lock_ok_def by blast+
  with assms(2,4) have "workers s ! j \<noteq> W_Block" by (auto simp: predicate_ok_def)
  with j have "at s j W_Pred \<or> at s j W_Ready" by (auto simp: has_lock_def at_def)
  moreover have "client_queue s \<noteq> []" using assms(4) by simp
  ultimately show ?thesis using assms(3,4) by (blast intro: w_pred w_take)
qed

lemma awake_moves:
  assumes "lock_ok s" "server_alive s" "q_lock s = None" "at s i pc"
    and "pc \<noteq> W_Asleep" "pc \<noteq> W_Exit" "\<not> in_session pc"
  shows "\<exists>t. pool_step (Worker i) s t"
proof -
  from assms(1,3,4) have "\<not> has_lock pc" by (auto simp: lock_ok_def at_def)
  with assms(2-7) show ?thesis
    by (cases pc) (auto simp: has_lock_def intro: w_loop w_lock w_erase w_close w_dec)
qed

lemma waiting_progress:
  assumes "waiting tk fd s" "\<not> attended tk s"
  shows "\<exists>l t. thread_label l \<and> pool_step l s t"
proof -
  from assms obtain q pc where s: "server_alive s" "client_queue s = fd # q"
    and pc: "pc \<in> set (workers s)" "\<not> in_session pc"
    and inv: "lock_ok s" "predicate_ok s" "wakeup_ok s"
    by (auto simp: waiting_def attended_def pool_inv_def)
  show ?thesis
  proof (cases "q_lock s")
    case (Some j)
    from holder_moves [OF inv(1,2) s this] show ?thesis using thread_label.simps(2) by blast
  next
    case None
    show ?thesis
    proof (cases "\<exists>i. at s i (workers s ! i) \<and> workers s ! i \<noteq> W_Asleep \<and> \<not> in_session (workers s ! i)")
      case True
      then obtain i where i: "at s i (workers s ! i)" "workers s ! i \<noteq> W_Asleep" "\<not> in_session (workers s ! i)" by blast
      moreover from i(1) have "workers s ! i \<in> set (workers s)" by (simp add: at_def)
      with inv(3) s(1) have "workers s ! i \<noteq> W_Exit" unfolding wakeup_ok_def by metis
      ultimately show ?thesis
        using awake_moves [OF inv(1) s(1) None] thread_label.simps(2) by blast
    next
      case False
      then have all: "pc' = W_Asleep \<or> in_session pc'" if "pc' \<in> set (workers s)" for pc'
        using that by (auto simp: in_set_conv_nth at_def)
      with pc have a: "W_Asleep \<in> set (workers s)" by blast
      have "hungry pc' = 0" if "pc' \<in> set (workers s)" for pc'
        using all [OF that] by (cases pc') auto
      then have "sum_list (map hungry (workers s)) = 0" by simp
      with inv(3) s a have "main_at s = M_Notify" by (auto simp: wakeup_ok_def split: if_splits)
      moreover obtain i where "at s i W_Asleep" using a by (auto simp: in_set_conv_nth at_def)
      ultimately show ?thesis using notify_one thread_label.simps(1) by blast
    qed
  qed
qed

interpretation next_client: working_system pool_step "waiting tk fd" thread_label "attended tk" wait_work
    "\<lambda>l. if \<not> thread_label l then 10 else 0"
  for tk fd
proof
  show "pool_step l s t \<Longrightarrow> waiting tk fd s \<Longrightarrow> waiting tk fd t" for l s t by (rule waiting_step)
  show "wait_work t < wait_work s" if "pool_step l s t" "waiting tk fd s" "\<not> attended tk s" "thread_label l" for l s t
    using wait_work_step [OF that(1)] that(2-4) by (simp add: waiting_def attended_def pool_inv_def)
  show "wait_work t \<le> wait_work s + (if \<not> thread_label l then 10 else 0)"
    if "pool_step l s t" "waiting tk fd s" "\<not> attended tk s" "\<not> thread_label l" for l s t
    using wait_work_step [OF that(1)] that(2-4) by (simp add: waiting_def attended_def pool_inv_def)
  show "\<exists>l t. thread_label l \<and> pool_step l s t" if "waiting tk fd s" "\<not> attended tk s" for s
    using that by (rule waiting_progress)
qed

text \<open>
  C16. No connection waits in vain: whenever the server is up, connections wait and some worker
  is not in a session, the threads' own steps lead to the front one being taken; no session has
  to end for it, no connection to arrive, and nobody to wake up spuriously. Whatever else
  happens, as long as the server is up and the connection is not taken some thread can make a
  step, and of these steps a schedule has at most \<open>wait_work\<close> and ten more for every event from
  outside. (So a wake-up is never lost: every sleeping worker that is needed is notified.)
\<close>

theorem waiting_connection_served:
  assumes "steps pool_step (pool_start n) s" "server_alive s" "client_queue s = fd # q"
    and "\<exists>pc \<in> set (workers s). \<not> in_session pc"
  shows "(\<exists>t. steps (restrict thread_label pool_step) s t \<and> taken t = taken s @ [fd]) \<and>
     (\<forall>t. steps pool_step s t \<and> server_alive t \<and> taken t = taken s \<longrightarrow> (\<exists>l u. thread_label l \<and> pool_step l t u)) \<and>
     (\<forall>run lab k. run 0 = s \<and>
        (\<forall>i < k. pool_step (lab i) (run i) (run (Suc i)) \<and> server_alive (run i) \<and> taken (run i) = taken s) \<longrightarrow>
        length (filter (\<lambda>i. thread_label (lab i)) [0..<k]) \<le>
          wait_work s + 10 * length (filter (\<lambda>i. \<not> thread_label (lab i)) [0..<k]))"
proof (intro conjI allI impI)
  let ?tk = "taken s"
  have w: "waiting ?tk fd s" and un: "\<not> attended ?tk s"
    using reachable_pool_inv [OF assms(1)] assms(2-4) by (simp_all add: waiting_def attended_def)
  obtain u l t where u: "steps (restrict thread_label pool_step) s u" "waiting ?tk fd u" "\<not> attended ?tk u"
    and t: "thread_label l" "pool_step l u t" "attended ?tk t"
    using next_client.work_last [OF w un] by blast
  from u(2,3) obtain q' where q': "server_alive u" "taken u = ?tk" "client_queue u = fd # q'"
    by (auto simp: waiting_def attended_def)
  with t(3) alive_thread_step [OF t(2,1)] taken_step [OF t(2)] have "taken t = ?tk @ [fd]" by (auto simp: attended_def)
  moreover have "restrict thread_label pool_step l u t" using t(1,2) by (simp add: restrict_def)
  ultimately show "\<exists>t. steps (restrict thread_label pool_step) s t \<and> taken t = ?tk @ [fd]"
    using u(1) by (blast intro: steps.move)
  show "\<exists>l u. thread_label l \<and> pool_step l t u" if "steps pool_step s t \<and> server_alive t \<and> taken t = ?tk" for t
    using next_client.never_stuck [OF w] that by (auto simp: attended_def)
  fix run lab k
  assume r: "run 0 = s \<and> (\<forall>i < k. pool_step (lab i) (run i) (run (Suc i)) \<and> server_alive (run i) \<and> taken (run i) = ?tk)"
  then have "length (filter (\<lambda>i. thread_label (lab i)) [0..<k]) \<le> wait_work s +
      sum_list (map (\<lambda>i. if \<not> thread_label (lab i) then 10 else 0) (filter (\<lambda>i. \<not> thread_label (lab i)) [0..<k]))"
    using next_client.work_bounded [of ?tk fd run k lab] w by (auto simp: attended_def)
  then show "length (filter (\<lambda>i. thread_label (lab i)) [0..<k]) \<le>
      wait_work s + 10 * length (filter (\<lambda>i. \<not> thread_label (lab i)) [0..<k])"
    by (subst (asm) sum_list_cost) simp_all
qed

section \<open>Counting connections\<close>

text \<open>
  C33. What \<open>live_connections\<close> counts: between two rounds of the accept loop it is the number
  of connections that wait or are being served (up to the last decrement), plus one for every
  connection that ever failed in the key exchange, all modulo the counter's width.
\<close>

theorem live_connections_count:
  assumes "steps pool_step (pool_start n) s" "main_at s = M_Loop"
  shows "live_connections s =
     of_nat (length (client_queue s) + sum_list (map busy (workers s)) + keyfails s)"
  using reachable_pool_inv [OF assms(1)] assms(2) by (simp add: pool_inv_def live_ok_def)

lemma conn_arrives:
  assumes "main_at s = M_Loop" "server_alive s" "0 \<le> fd" "fd \<notin> set (open_fds s)" "q_lock s = None"
  shows "steps pool_step s (s\<lparr>open_fds := fd # open_fds s, clients := List.insert fd (clients s), main_at := M_Notify,
     client_queue := client_queue s @ [fd], pushed := pushed s @ [fd]\<rparr>)"
proof -
  let ?a = "s\<lparr>main_at := M_Accept\<rparr>"
  let ?g = "?a\<lparr>main_at := M_Got fd, open_fds := fd # open_fds s\<rparr>"
  let ?r = "?g\<lparr>main_at := M_Register fd\<rparr>"
  let ?p = "?r\<lparr>main_at := M_Push fd, clients := List.insert fd (clients s)\<rparr>"
  have "pool_step Main s ?a" using assms loop by simp
  moreover have "pool_step Accepts ?a ?g" using accept [of ?a fd] assms by simp
  moreover have "pool_step Main ?g ?r" using timeout_set [of ?g fd "\<lambda>_ _ _. 0"] assms by (simp add: set_conn_timeout_def)
  moreover have "pool_step Main ?r ?p" using register [of ?r fd] by simp
  moreover have "pool_step Main ?p (s\<lparr>open_fds := fd # open_fds s,
      clients := List.insert fd (clients s), main_at := M_Notify, client_queue := client_queue s @ [fd], pushed := pushed s @ [fd]\<rparr>)"
    using push [of ?p fd] assms by simp
  ultimately show ?thesis by (meson steps.intros)
qed

lemma worker_takes:
  assumes "at s i W_Loop" "server_alive s" "client_queue s = fd # q" "q_lock s = None"
  shows "steps pool_step s (go i (W_Handle fd) (s\<lparr>q_lock := None, client_queue := q, taken := taken s @ [fd]\<rparr>))"
proof -
  note i = at_length [OF assms(1)]
  let ?l = "go i W_Lock s"
  let ?p = "go i W_Pred (?l\<lparr>q_lock := Some i\<rparr>)"
  let ?r = "go i W_Ready ?p"
  have "pool_step (Worker i) s ?l" using assms w_loop by simp
  moreover have "pool_step (Worker i) ?l ?p" using w_lock [of ?l i] assms i by simp
  moreover have "pool_step (Worker i) ?p ?r" using w_pred [of ?p i] assms i by (simp add: at_def go_def)
  moreover have "pool_step (Worker i) ?r (go i (W_Handle fd) (s\<lparr>q_lock := None, client_queue := q, taken := taken s @ [fd]\<rparr>))"
    using w_take [of ?r i fd q] assms i by (simp add: at_def go_def)
  ultimately show ?thesis by (meson steps.intros)
qed

text \<open>
  C34. The counter can run below zero: the accept loop counts a connection only after it has
  queued it, so a worker that refuses the first client before that leaves the unsigned counter
  at its largest value.
\<close>

theorem live_counter_underflows:
  "\<exists>s. steps pool_step (pool_start POOL_SIZE) s \<and> unat (live_connections s) = 2 ^ 64 - 1"
proof -
  let ?s = "pool_start POOL_SIZE"
  let ?q = "?s\<lparr>open_fds := 4 # open_fds ?s, clients := List.insert 4 (clients ?s), main_at := M_Notify,
     client_queue := client_queue ?s @ [4], pushed := pushed ?s @ [4]\<rparr>"
  let ?h = "go 0 (W_Handle 4) (?q\<lparr>q_lock := None, client_queue := [], taken := taken ?q @ [4]\<rparr>)"
  have len: "0 < length (workers ?s)" by (simp add: pool_start_def POOL_SIZE_def)
  have "steps pool_step ?s ?q" by (rule conn_arrives) (simp_all add: pool_start_def)
  moreover have "steps pool_step ?q ?h" using len by (intro worker_takes) (simp_all add: pool_start_def at_def)
  moreover have "pool_step (Session 0) ?h (go 0 W_Dec ?h)" using len by (intro w_refused [of _ _ 4]) simp
  moreover have "pool_step (Worker 0) (go 0 W_Dec ?h) (go 0 W_Loop (count_out (go 0 W_Dec ?h)))"
    using len by (intro w_dec) simp
  ultimately have "steps pool_step ?s (go 0 W_Loop (count_out (go 0 W_Dec ?h)))"
    by (meson steps.move steps_trans)
  moreover have "unat (live_connections (go 0 W_Loop (count_out (go 0 W_Dec ?h)))) = 2 ^ 64 - 1"
    by (simp add: pool_start_def go_def count_out_def unsigned_minus_1_eq_mask mask_eq_exp_minus_1)
  ultimately show ?thesis by blast
qed

section \<open>Shutting down\<close>

text \<open>How much a thread still has to do once the server is no longer alive.\<close>

fun worker_work :: "worker_pc \<Rightarrow> nat" where
  "worker_work W_Loop = 1"
| "worker_work W_Ready = 1"
| "worker_work W_Pred = 2"
| "worker_work W_Lock = 3"
| "worker_work W_Dec = 2"
| "worker_work (W_Close _) = 3"
| "worker_work (W_Erase _) = 4"
| "worker_work (W_Handle _) = 5"
| "worker_work _ = 0"

fun main_work :: "main_pc \<Rightarrow> nat" where
  "main_work M_Done = 0"
| "main_work M_Join_Kill = 1"
| "main_work M_Join_Log = 2"
| "main_work M_Join = 3"
| "main_work M_Stopped = 4"
| "main_work M_Loop = 5"
| "main_work (M_Got _) = 5"
| "main_work M_Accept = 6"
| "main_work M_Live = 6"
| "main_work M_Total = 7"
| "main_work M_Notify = 8"
| "main_work (M_Push _) = 9"
| "main_work (M_Register _) = 10"

definition shutdown_work :: "pool \<Rightarrow> nat" where
  "shutdown_work s = main_work (main_at s) + sum_list (map worker_work (workers s)) + (if logger_done s then 0 else 1)"

definition sleepy :: "worker_pc \<Rightarrow> bool" where
  "sleepy pc \<longleftrightarrow> pc = W_Asleep \<or> pc = W_Block"

definition all_awake :: "pool \<Rightarrow> bool" where
  "all_awake s \<longleftrightarrow> (\<forall>pc \<in> set (workers s). \<not> sleepy pc)"

text \<open>The server is to stop, and no worker sleeps or is about to.\<close>

definition stopping :: "pool \<Rightarrow> bool" where
  "stopping s \<longleftrightarrow> lock_ok s \<and> \<not> server_alive s \<and> all_awake s"

lemma all_awake_at: "all_awake s \<Longrightarrow> at s i pc \<Longrightarrow> \<not> sleepy pc"
  by (auto simp: all_awake_def at_def)

lemma all_awake_wake: "all_awake s \<Longrightarrow> map wake (workers s) = workers s"
  by (auto simp: all_awake_def wake_def sleepy_def intro: map_idI)

lemma all_awake_go:
  assumes "at s i old" "all_awake s" "workers u = workers s" "\<not> sleepy pc"
  shows "all_awake (go i pc u)"
  using assms set_update_subset_insert [of "workers s" i pc] by (auto simp: all_awake_def go_def)

lemma all_awake_step: "pool_step l s t \<Longrightarrow> \<not> server_alive s \<Longrightarrow> all_awake s \<Longrightarrow> all_awake t"
proof (induction rule: pool_step.induct)
  case (w_block s i)
  then show ?case using all_awake_at [of s i W_Block] by (simp add: sleepy_def)
next
  case (notify_one s i)
  then show ?case using all_awake_at [of s i W_Asleep] by (simp add: sleepy_def)
next
  case (stop s)
  from all_awake_wake [OF stop.prems(2)] stop.prems(2) show ?case by (simp add: all_awake_def notify_all_def)
next
  case (signal_notify s)
  from all_awake_wake [OF signal_notify.prems(2)] signal_notify.prems(2)
  show ?case by (simp add: all_awake_def notify_all_def)
qed ((rule all_awake_go, assumption, assumption, (simp add: pool_updates sleepy_def; fail)+)
  | (simp add: all_awake_def; fail) | simp)+

lemma stopping_step: "pool_step l s t \<Longrightarrow> stopping s \<Longrightarrow> stopping t"
  unfolding stopping_def using lock_ok_step all_awake_step not_alive_step by metis

lemma shutdown_work_go:
  assumes "at s i old" "worker_work pc < worker_work old" "workers u = workers s" "main_at u = main_at s"
    and "logger_done u = logger_done s"
  shows "(thread_label l \<longrightarrow> shutdown_work (go i pc u) < shutdown_work s) \<and> shutdown_work (go i pc u) \<le> shutdown_work s"
  using sum_map_update [of i "workers s" worker_work pc] assms by (simp add: shutdown_work_def go_def at_def)

lemma shutdown_work_step: "pool_step l s t \<Longrightarrow> \<not> server_alive s \<Longrightarrow> all_awake s \<Longrightarrow>
    (thread_label l \<longrightarrow> shutdown_work t < shutdown_work s) \<and> shutdown_work t \<le> shutdown_work s"
proof (induction rule: pool_step.induct)
  case (w_block s i)
  then show ?case using all_awake_at [of s i W_Block] by (simp add: sleepy_def)
next
  case (notify_one s i)
  then show ?case using all_awake_at [of s i W_Asleep] by (simp add: sleepy_def)
next
  case (spurious s i)
  then show ?case using all_awake_at [of s i W_Asleep] by (simp add: sleepy_def)
next
  case (stop s)
  from all_awake_wake [OF stop.prems(2)] stop.hyps show ?case by (simp add: shutdown_work_def notify_all_def)
next
  case (signal_notify s)
  from all_awake_wake [OF signal_notify.prems(2)] show ?case by (simp add: shutdown_work_def notify_all_def)
qed ((rule shutdown_work_go, assumption, (simp add: pool_updates; fail)+)
  | (simp add: shutdown_work_def; fail) | simp)+

text \<open>
  The server is to stop, no worker sleeps or is about to, all sessions are over and the
  listener has returned.
\<close>

definition winding_up :: "pool \<Rightarrow> bool" where
  "winding_up s \<longleftrightarrow> stopping s \<and> listener_done s \<and> (\<forall>pc \<in> set (workers s). \<not> in_session pc)"

lemma no_session_go:
  assumes "at s i old" "\<forall>pc \<in> set (workers s). \<not> in_session pc" "workers u = workers s" "\<not> in_session pc"
  shows "\<forall>pc \<in> set (workers (go i pc u)). \<not> in_session pc"
  using assms set_update_subset_insert [of "workers s" i pc] by (auto simp: go_def)

lemma no_session_step:
  "pool_step l s t \<Longrightarrow> \<not> server_alive s \<Longrightarrow> \<forall>pc \<in> set (workers s). \<not> in_session pc \<Longrightarrow>
     \<forall>pc \<in> set (workers t). \<not> in_session pc"
  by (induction rule: pool_step.induct)
    ((rule no_session_go, assumption, assumption, (simp add: pool_updates; fail)+) | (simp add: notify_all_def; fail) | simp)+

lemma listener_done_step: "pool_step l s t \<Longrightarrow> listener_done s \<Longrightarrow> listener_done t"
  by (induction rule: pool_step.induct) (simp_all add: pool_updates)

lemma winding_up_step: "pool_step l s t \<Longrightarrow> winding_up s \<Longrightarrow> winding_up t"
  unfolding winding_up_def using stopping_step listener_done_step no_session_step by (simp add: stopping_def)

lemma worker_can_stop:
  assumes "winding_up s" "at s i pc" "pc \<noteq> W_Exit"
  shows "\<exists>j t. pool_step (Worker j) s t"
proof -
  from assms have s: "lock_ok s" "\<not> server_alive s" "all_awake s" and free: "\<not> in_session pc"
    by (auto simp: winding_up_def stopping_def at_def)
  show ?thesis
  proof (cases "q_lock s")
    case (Some j)
    with s(1) have j: "at s j (workers s ! j)" "has_lock (workers s ! j)" unfolding lock_ok_def at_def by blast+
    with all_awake_at [OF s(3) j(1)] have "at s j W_Pred \<or> at s j W_Ready"
      by (auto simp: has_lock_def sleepy_def at_def)
    with s(2) show ?thesis by (blast intro: w_pred w_return)
  next
    case None
    with s(1) assms(2) have "\<not> has_lock pc" by (auto simp: lock_ok_def at_def)
    with all_awake_at [OF s(3) assms(2)] s(2) free assms(2,3) None show ?thesis
      by (cases pc) (auto simp: has_lock_def sleepy_def intro: w_loop_end w_lock w_erase w_close w_dec)
  qed
qed

lemma main_can_stop:
  assumes "winding_up s" "\<forall>pc \<in> set (workers s). pc = W_Exit" "main_at s \<noteq> M_Done"
  shows "\<exists>t. pool_step Main s t \<or> pool_step Logger s t"
proof -
  from assms(1) have s: "lock_ok s" "\<not> server_alive s" "listener_done s" by (simp_all add: winding_up_def stopping_def)
  have "\<not> has_lock (workers s ! i)" if "i < length (workers s)" for i
    using assms(2) nth_mem [OF that] by (auto simp: has_lock_def)
  with s(1) have "q_lock s = None" unfolding lock_ok_def by (metis not_None_eq)
  moreover have "W_Asleep \<notin> set (workers s)" using assms(2) by auto
  moreover have "clean_all s M_Join = Some M_Join_Log" using assms(2) by simp
  moreover have "clean_all s M_Join_Log = Some M_Join_Kill" if "logger_done s" using that by simp
  moreover have "clean_all s M_Join_Kill = Some M_Done" using s(3) by simp
  ultimately show ?thesis using s(2) assms(3)
    by (cases "main_at s"; cases "logger_done s") (auto simp del: clean_all.simps intro: pool_step.intros)
qed

interpretation shutdown: working_system pool_step winding_up thread_label "\<lambda>s. main_at s = M_Done" shutdown_work "\<lambda>_. 0"
proof
  show "pool_step l s t \<Longrightarrow> winding_up s \<Longrightarrow> winding_up t" for l s t by (rule winding_up_step)
  show "shutdown_work t < shutdown_work s" if "pool_step l s t" "winding_up s" "thread_label l" for l s t
    using shutdown_work_step [OF that(1)] that(2,3) by (simp add: winding_up_def stopping_def)
  show "shutdown_work t \<le> shutdown_work s + 0" if "pool_step l s t" "winding_up s" for l s t
    using shutdown_work_step [OF that(1)] that(2) by (simp add: winding_up_def stopping_def)
  show "\<exists>l t. thread_label l \<and> pool_step l s t" if "winding_up s" "main_at s \<noteq> M_Done" for s
  proof (cases "\<forall>pc \<in> set (workers s). pc = W_Exit")
    case True
    with main_can_stop that show ?thesis by (metis thread_label.simps(1,3))
  next
    case False
    then obtain i where "at s i (workers s ! i)" "workers s ! i \<noteq> W_Exit" by (auto simp: in_set_conv_nth at_def)
    with worker_can_stop that(1) show ?thesis by (metis thread_label.simps(2))
  qed
qed

text \<open>
  C17. An orderly shutdown: once the server is told to stop, no worker sleeps or is about to
  sleep, the sessions are over and the listener has returned, the threads reach the end of
  \<open>main\<close>. They can get there by their own steps; wherever any schedule leads, \<open>main\<close> has ended
  or one of them can make a step; and of these steps no schedule has more than
  \<open>shutdown_work\<close> before \<open>main\<close> ends, whatever arrives or is signalled meanwhile.
\<close>

theorem shutdown_completes:
  assumes "steps pool_step (pool_start n) s" "\<not> server_alive s" "listener_done s"
    and "\<forall>pc \<in> set (workers s). pc \<noteq> W_Asleep \<and> pc \<noteq> W_Block \<and> \<not> in_session pc"
  shows "(\<exists>t. steps (restrict thread_label pool_step) s t \<and> main_at t = M_Done) \<and>
     (\<forall>t. steps pool_step s t \<longrightarrow> main_at t = M_Done \<or> (\<exists>l u. thread_label l \<and> pool_step l t u)) \<and>
     (\<forall>run lab k. run 0 = s \<and> (\<forall>i < k. pool_step (lab i) (run i) (run (Suc i)) \<and> main_at (run i) \<noteq> M_Done) \<longrightarrow>
        length (filter (\<lambda>i. thread_label (lab i)) [0..<k]) \<le> shutdown_work s)"
proof (intro conjI allI impI)
  have s: "winding_up s" using reachable_pool_inv [OF assms(1)] assms(2-4)
    by (auto simp: winding_up_def stopping_def pool_inv_def all_awake_def sleepy_def)
  show "\<exists>t. steps (restrict thread_label pool_step) s t \<and> main_at t = M_Done" by (rule shutdown.work_finishes [OF s])
  show "main_at t = M_Done \<or> (\<exists>l u. thread_label l \<and> pool_step l t u)" if "steps pool_step s t" for t
    by (rule shutdown.never_stuck [OF s that])
  fix run lab k
  assume "run 0 = s \<and> (\<forall>i < k. pool_step (lab i) (run i) (run (Suc i)) \<and> main_at (run i) \<noteq> M_Done)"
  with s show "length (filter (\<lambda>i. thread_label (lab i)) [0..<k]) \<le> shutdown_work s"
    using shutdown.work_bounded [of run k lab] by auto
qed

text \<open>
  What the hypotheses leave out can hold \<open>main\<close> up: until the listener has read something from
  the terminal \<open>main\<close> stays in its last \<open>join\<close>, and while a worker is in a session it stays
  before the first.
\<close>

lemma main_waits_for_listener:
  assumes "main_at s = M_Join_Kill" "\<not> listener_done s" "pool_step l s t" "\<forall>c. l \<noteq> Terminal c"
  shows "main_at t = M_Join_Kill \<and> \<not> listener_done t"
  using assms(3,1,2,4) by (induction rule: pool_step.induct) (simp_all add: pool_updates)

lemma main_waits_for_sessions:
  assumes "main_at s = M_Join" "at s i (W_Handle fd)" "pool_step l s t" "l \<noteq> Session i"
  shows "main_at t = M_Join \<and> at t i (W_Handle fd)"
  using assms(3,1,2,4)
proof (induction rule: pool_step.induct)
  case (join s)
  then have "W_Handle fd \<in> set (workers s)" "\<forall>pc \<in> set (workers s). pc = W_Exit"
    using nth_mem [of i "workers s"] by (simp_all add: at_def split: if_splits)
  then show ?case by blast
qed (auto simp: pool_updates wake_def nth_list_update)

text \<open>Schedules in which nobody wakes up spuriously and no signal arrives.\<close>

definition undisturbed :: "pool_label \<Rightarrow> bool" where
  "undisturbed l \<longleftrightarrow> l \<noteq> Signal \<and> (\<forall>i. l \<noteq> Spurious i)"

lemma undisturbedI: "pool_step l s t \<Longrightarrow> undisturbed l \<Longrightarrow> restrict undisturbed pool_step l s t"
  by (simp add: restrict_def)

lemma undisturbed_simps [simp]:
  "undisturbed Main" "undisturbed (Worker i)" "undisturbed Logger" "undisturbed (Terminal c)"
  by (simp_all add: undisturbed_def)

lemma idle_workers_exit:
  "\<not> server_alive s \<Longrightarrow> workers s = ws @ replicate k W_Loop \<Longrightarrow>
     steps (restrict undisturbed pool_step) s (s\<lparr>workers := ws @ replicate k W_Exit\<rparr>)"
proof (induction k arbitrary: ws s)
  case 0
  then have "s\<lparr>workers := ws @ replicate 0 W_Exit\<rparr> = s" by simp
  then show ?case by (metis steps.start)
next
  case (Suc k)
  let ?t = "go (length ws) W_Exit s"
  have "pool_step (Worker (length ws)) s ?t" using Suc.prems by (intro w_loop_end) (simp_all add: at_def)
  then have "restrict undisturbed pool_step (Worker (length ws)) s ?t" by (rule undisturbedI) simp
  moreover have w: "workers ?t = (ws @ [W_Exit]) @ replicate k W_Loop"
    using Suc.prems(2) by (simp add: go_def list_update_append)
  have "steps (restrict undisturbed pool_step) ?t (?t\<lparr>workers := (ws @ [W_Exit]) @ replicate k W_Exit\<rparr>)"
    by (rule Suc.IH) (use Suc.prems(1) w in simp_all)
  ultimately have "steps (restrict undisturbed pool_step) s (?t\<lparr>workers := (ws @ [W_Exit]) @ replicate k W_Exit\<rparr>)"
    by (rule steps_first)
  then show ?case by (simp add: go_def replicate_app_Cons_same)
qed

text \<open>A worker has found nothing to do and is about to sleep; then the user types \<open>q\<close>.\<close>

definition about_to_sleep :: "nat \<Rightarrow> pool" where
  "about_to_sleep n = (pool_start (Suc n))\<lparr>workers := W_Block # replicate n W_Loop, q_lock := Some 0\<rparr>"

lemma about_to_sleep_reachable: "steps (restrict undisturbed pool_step) (pool_start (Suc n)) (about_to_sleep n)"
proof -
  let ?s = "pool_start (Suc n)"
  let ?l = "go 0 W_Lock ?s"
  let ?p = "go 0 W_Pred (?l\<lparr>q_lock := Some 0\<rparr>)"
  have "pool_step (Worker 0) ?s ?l" by (rule w_loop) (simp_all add: at_def pool_start_def)
  moreover have "pool_step (Worker 0) ?l ?p" by (rule w_lock) (simp_all add: at_def go_def pool_start_def)
  moreover have "pool_step (Worker 0) ?p (go 0 W_Block ?p)" by (rule w_wait) (simp_all add: at_def go_def pool_start_def)
  ultimately have "steps (restrict undisturbed pool_step) ?s (go 0 W_Block ?p)"
    by (meson steps.intros undisturbedI undisturbed_simps(2))
  then show ?thesis by (simp add: about_to_sleep_def go_def pool_start_def)
qed

definition hung :: "nat \<Rightarrow> pool" where
  "hung n = (pool_start (Suc n))\<lparr>workers := W_Asleep # replicate n W_Exit, server_alive := False,
     listener_done := True, logger_done := True, main_at := M_Join\<rparr>"

lemma hung_reachable:
  "steps (restrict undisturbed pool_step) ((about_to_sleep n)\<lparr>server_alive := False, listener_done := True\<rparr>) (hung n)"
proof -
  let ?k = "(about_to_sleep n)\<lparr>server_alive := False, listener_done := True\<rparr>"
  let ?b = "?k\<lparr>logger_done := True\<rparr>"
  let ?m = "?b\<lparr>main_at := M_Stopped\<rparr>"
  let ?j = "notify_all (?m\<lparr>main_at := M_Join\<rparr>)"
  let ?a = "go 0 W_Asleep (?j\<lparr>q_lock := None\<rparr>)"
  have "pool_step Logger ?k ?b" by (rule logger_ends) (simp_all add: about_to_sleep_def pool_start_def)
  moreover have "pool_step Main ?b ?m" by (rule loop_end) (simp_all add: about_to_sleep_def pool_start_def)
  moreover have "pool_step Main ?m ?j" by (rule stop) simp
  moreover have "pool_step (Worker 0) ?j ?a"
    by (rule w_block) (simp add: at_def notify_all_def wake_def about_to_sleep_def)
  ultimately have "steps (restrict undisturbed pool_step) ?k ?a"
    by (meson steps.intros undisturbedI undisturbed_simps)
  moreover have "steps (restrict undisturbed pool_step) ?a (?a\<lparr>workers := [W_Asleep] @ replicate n W_Exit\<rparr>)"
    by (rule idle_workers_exit) (simp_all add: go_def notify_all_def wake_def about_to_sleep_def)
  moreover have "?a\<lparr>workers := [W_Asleep] @ replicate n W_Exit\<rparr> = hung n"
    by (simp add: hung_def go_def notify_all_def pool_start_def about_to_sleep_def)
  ultimately show ?thesis by (metis steps_trans)
qed

lemma hung_stuck:
  assumes "pool_step l (hung n) t"
  shows "\<not> undisturbed l"
proof -
  have w: "pc = W_Asleep \<or> pc = W_Exit" if "at (hung n) i pc" for i pc
    using that by (cases i) (auto simp: hung_def at_def)
  have m: "main_at (hung n) = M_Join" "W_Asleep \<in> set (workers (hung n))" "logger_done (hung n)" "listener_done (hung n)"
    by (simp_all add: hung_def)
  show ?thesis using assms by (cases rule: pool_step.cases) (use m in \<open>auto simp: undisturbed_def dest!: w split: if_splits\<close>)
qed

text \<open>
  C18. A stop request from the terminal can leave the server hanging: the listener clears the
  flag without the queue's mutex, so it can do so between a worker's look at the flag and that
  worker's sleep, and the notification of \<open>main\<close> comes too early for it. There is a state in
  which the server is up, the user types \<open>q\<close>, and without a signal or a spurious wake-up the
  server gets from there to a state in which a worker sleeps, no session is left, \<open>main\<close> waits
  in \<open>join\<close>, and nothing can happen any more but a signal or a spurious wake-up.
\<close>

theorem shutdown_hangs:
  "\<exists>r s. steps (restrict undisturbed pool_step) (pool_start POOL_SIZE) r \<and> server_alive r \<and>
     pool_step (Terminal (Some 113)) r (r\<lparr>server_alive := False, listener_done := True\<rparr>) \<and>
     steps (restrict undisturbed pool_step) (r\<lparr>server_alive := False, listener_done := True\<rparr>) s \<and>
     main_at s = M_Join \<and> set (workers s) = {W_Asleep, W_Exit} \<and>
     \<not> (\<exists>l t. undisturbed l \<and> pool_step l s t)"
proof -
  let ?r = "about_to_sleep 7"
  have "steps (restrict undisturbed pool_step) (pool_start POOL_SIZE) ?r"
    using about_to_sleep_reachable [of 7] by (simp add: POOL_SIZE_def eval_nat_numeral)
  moreover have "server_alive ?r" by (simp add: about_to_sleep_def pool_start_def)
  moreover have "pool_step (Terminal (Some 113)) ?r (?r\<lparr>server_alive := False, listener_done := True\<rparr>)"
    using terminal [of ?r "Some 113"] by (simp add: about_to_sleep_def pool_start_def)
  moreover have "main_at (hung 7) = M_Join" "set (workers (hung 7)) = {W_Asleep, W_Exit}" by (auto simp: hung_def)
  ultimately show ?thesis using hung_reachable [of 7] hung_stuck by blast
qed

section \<open>Witnesses\<close>

text \<open>One connection has arrived; the only worker has taken it.\<close>

definition toy_waiting :: pool where
  "toy_waiting = (pool_start 1)\<lparr>open_fds := [4], clients := [4], main_at := M_Notify, client_queue := [4], pushed := [4]\<rparr>"

lemma toy_waiting_reachable: "steps pool_step (pool_start 1) toy_waiting"
  using conn_arrives [of "pool_start 1" 4] by (simp add: toy_waiting_def pool_start_def)

lemma toy_serving_reachable:
  "steps pool_step (pool_start 1) (go 0 (W_Handle 4) (toy_waiting\<lparr>q_lock := None, client_queue := [], taken := [4]\<rparr>))"
proof -
  have "steps pool_step toy_waiting (go 0 (W_Handle 4) (toy_waiting\<lparr>q_lock := None, client_queue := [], taken := taken toy_waiting @ [4]\<rparr>))"
    by (rule worker_takes) (simp_all add: toy_waiting_def pool_start_def at_def)
  from steps_trans [OF this toy_waiting_reachable] show ?thesis by (simp add: toy_waiting_def pool_start_def)
qed

theorem connections_in_order_witness: "pushed toy_waiting = taken toy_waiting @ [4]"
  using connections_in_order [OF toy_waiting_reachable] by (simp add: toy_waiting_def)

theorem no_shared_socket_witness:
  "4 \<in> set (open_fds (go 0 (W_Handle 4) (toy_waiting\<lparr>q_lock := None, client_queue := [], taken := [4]\<rparr>)))"
  using no_shared_socket [OF toy_serving_reachable, of 0 4] by (simp add: go_def toy_waiting_def pool_start_def)

theorem waiting_connection_served_witness:
  "\<exists>t. steps (restrict thread_label pool_step) toy_waiting t \<and> taken t = [4]"
  using waiting_connection_served [OF toy_waiting_reachable, of 4 "[]"] by (simp add: toy_waiting_def pool_start_def)

theorem live_connections_count_witness: "live_connections (pool_start 1) = of_nat (0 + 0 + 0)"
  using live_connections_count [OF steps.start, of 1] by (simp add: pool_start_def)

theorem shutdown_completes_witness:
  "\<exists>t. steps (restrict thread_label pool_step) ((pool_start 1)\<lparr>server_alive := False, listener_done := True\<rparr>) t \<and> main_at t = M_Done"
proof -
  let ?s = "(pool_start 1)\<lparr>server_alive := False, listener_done := True\<rparr>"
  have "steps pool_step (pool_start 1) ?s"
    using steps_one [of pool_step, OF terminal [of "pool_start 1" "Some 113"]] by (simp add: pool_start_def)
  from shutdown_completes [OF this] show ?thesis by (simp add: pool_start_def)
qed

end
