(* ===== verification/Connection_Ends.thy ===== *)
theory Connection_Ends
  imports Server
begin

text \<open>
  Connections come to an end. On a connection that is not left hanging (\<open>live\<close>), every handler
  of the server but the download returns or faults on every input, a download does so unless the
  name it is asked for is a directory's, and each round of a session takes something off the
  input. So the whole of \<open>handle_conn\<close> comes to an end on every input, with one exception, which
  is characterised exactly.
\<close>

section \<open>The handlers\<close>

lemma live_fields [simp]: "live (w\<lparr>rnd_pos := k\<rparr>) = live w"
  by (simp add: live_def)

lemma session_send_settles:
  "live w \<Longrightarrow> rx_size (rx w) \<le> n \<Longrightarrow> settles n (session_send S data key nonce w)"
  by (auto simp: session_send_def SessionEncWrapper_sender_def send_all_def Let_def live_send split: prod.splits)

lemma op_send_settles: "live w \<Longrightarrow> rx_size (rx w) \<le> n \<Longrightarrow> settles n (op_send S data op w)"
  unfolding op_send_def by (rule settles_andthen [OF session_send_settles]) auto

lemma send_raw_blob_live: "live w \<Longrightarrow> live (snd (send_raw_blob bs w))" "rx (snd (send_raw_blob bs w)) = rx w"
  by (simp_all add: send_raw_blob_def Let_def split_def live_send)

lemma send_names_settles: "live w \<Longrightarrow> rx_size (rx w) \<le> n \<Longrightarrow> settles n (send_names S names op w)"
proof (induction names arbitrary: op w)
  case (Cons name names)
  then show ?case
    by (auto simp: fresh_nonce_at intro!: settles_andthen [OF op_send_settles])
qed simp

lemma LFFS_settles:
  assumes "live w" "rx_size (rx w) \<le> n"
  shows "settles n (LFFS_Handler__Server S op w)"
proof (cases "directory_names (disk w) (user_dir op)")
  case (Inr names)
  with assms show ?thesis
    by (auto simp: LFFS_Handler__Server_def fresh_nonce_at
        intro!: settles_andthen [OF op_send_settles] settles_andthen [OF send_names_settles])
qed (simp add: LFFS_Handler__Server_def)

lemma DFFS_settles:
  assumes "live w" "rx_size (rx w) \<le> n"
  shows "settles n (DFFS_Handler__Server S op w)"
  unfolding DFFS_Handler__Server_def fresh_nonce_at prod.case Let_def
  by (rule settles_andthen [OF reader_settles])
    (use assms in \<open>auto split: prod.splits option.splits sum.splits intro!: settles_andthen [OF op_send_settles]\<close>)

text \<open>A stream on a regular file runs into its end.\<close>

definition ends :: "ifstream \<Rightarrow> bool" where
  "ends f \<longleftrightarrow> eofbit f \<or> (in_src f \<noteq> Directory \<and> stream_ok f)"

definition left_in :: "ifstream \<Rightarrow> nat" where
  "left_in f = (if eofbit f then 0 else case in_src f of Regular bs \<Rightarrow> Suc (length bs) | Directory \<Rightarrow> 0)"

lemma read_in_ends:
  assumes "ends f" "read_in k f = (bs, f')"
  shows "ends f'" "0 < k \<Longrightarrow> \<not> eofbit f' \<Longrightarrow> left_in f' < left_in f"
  using assms by (auto simp: ends_def left_in_def read_in_def stream_ok_def split: if_splits in_source.splits)

lemma RFFS_loop_settles:
  assumes "ends f" "live w" "rx_size (rx w) \<le> n"
  shows "settles n (RFFS_loop S f op w)"
  using assms
proof (induction "left_in f" arbitrary: f op w rule: less_induct)
  case less
  let ?k = "FILE_ENCRYPTED_CHUNK_SIZE S"
  obtain bs f' where f': "read_in ?k f = (bs, f')" by (cases "read_in ?k f")
  have k: "0 < ?k" by (simp add: FILE_ENCRYPTED_CHUNK_SIZE_def CHUNK_SIZE_def)
  have "settles n (if eofbit f' then ret ((0, op'), snd (send_raw_blob bs v)) else RFFS_loop S f' op' (snd (send_raw_blob bs v)))"
    if "live v" "rx_size (rx v) \<le> n" for op' v
    using less.hyps [OF read_in_ends(2) [OF less.prems(1) f' k] read_in_ends(1) [OF less.prems(1) f']] that
    by (simp add: send_raw_blob_live)
  then have "settles n (andthen (op_send S (i32_bytes (if eofbit f' then END_CHUNK else MEAT_CHUNK)) op w) (\<lambda>(op, w).
      let w = snd (send_raw_blob bs w) in if eofbit f' then ret ((0, op), w) else RFFS_loop S f' op w))"
    by (intro settles_andthen [OF op_send_settles [OF less.prems(2,3)]]) (auto simp: Let_def)
  then show ?case by (subst RFFS_loop.simps) (simp add: f')
qed

text \<open>The next message is a download request for a directory.\<close>

definition wants_directory :: "'st sodium \<Rightarrow> fs_operator \<Rightarrow> world \<Rightarrow> bool" where
  "wants_directory S op w \<longleftrightarrow> (\<exists>wrap w1 wrap' buf len name.
     SessionEncWrapper_reader S (snd (fresh_nonce S op w)) = ret (wrap, w1) \<and> \<not> corrupted wrap \<and>
     unwrap S wrap (server_rx op) PRE_EXT_FILE_NAME_LEN (uninit MAX_FILE_NAME_LENGTH w1) (u64_of_bytes (uninit 8 w1)) =
       (0, wrap', buf, len) \<and>
     c_str buf = Some name \<and> in_src (open_in (disk w1) (user_dir op @ name)) = Directory)"

lemma open_in_ends: "in_src (open_in d s) \<noteq> Directory \<Longrightarrow> stream_ok (open_in d s) \<Longrightarrow> ends (open_in d s)"
  by (simp add: ends_def)

lemma RFFS_settles:
  assumes w: "live w" "rx_size (rx w) \<le> n" and no: "\<not> wants_directory S op w"
  shows "settles n (RFFS_Handler__Server S op w)"
proof -
  obtain op0 w0 where fresh: "fresh_nonce S op w = (op0, w0)" by (cases "fresh_nonce S op w")
  then have l: "live w0" "rx_size (rx w0) \<le> n" "server_rx op0 = server_rx op" "user_dir op0 = user_dir op"
    using w by (auto simp: fresh_nonce_at)
  have send: "settles n (let (hb, file) = read_in (ss_HEADERBYTES S) f in
      andthen (op_send S (write_into (uninit (ss_HEADERBYTES S) w1) hb) op0 w1) (\<lambda>(op, w).
      let (sb, file) = read_in (pwhash_SALTBYTES S) file in
      andthen (op_send S (write_into (uninit (pwhash_SALTBYTES S) w) sb) op w) (\<lambda>(op, w).
      RFFS_loop S file op w)))" if f: "ends f" "live w1" "rx_size (rx w1) \<le> n" for f w1
  proof -
    obtain hb f1 where f1: "read_in (ss_HEADERBYTES S) f = (hb, f1)" by (cases "read_in (ss_HEADERBYTES S) f")
    obtain sb f2 where f2: "read_in (pwhash_SALTBYTES S) f1 = (sb, f2)" by (cases "read_in (pwhash_SALTBYTES S) f1")
    have "ends f2" using read_in_ends(1) f(1) f1 f2 by blast
    with f(2,3) show ?thesis
      by (auto simp: f1 f2 intro!: settles_andthen [OF op_send_settles] RFFS_loop_settles)
  qed
  show ?thesis
    unfolding RFFS_Handler__Server_def Let_def fresh prod.case
    apply (rule settles_andthen [OF reader_settles [OF l(1,2)]])
    subgoal premises r for wrap w1
    proof -
      obtain rc wrap' buf len where u: "unwrap S wrap (server_rx op) PRE_EXT_FILE_NAME_LEN (uninit MAX_FILE_NAME_LENGTH w1)
          (u64_of_bytes (uninit 8 w1)) = (rc, wrap', buf, len)" by (metis prod_cases4)
      have "ends (open_in (disk w1) (user_dir op @ name))"
        if "\<not> corrupted wrap" "rc = 0" "c_str buf = Some name" "stream_ok (open_in (disk w1) (user_dir op @ name))" for name
        using that no r(1) u by (intro open_in_ends) (auto simp: wants_directory_def fresh)
      note go = send [OF this r(2,3), unfolded Let_def]
      show ?thesis
        by (auto simp: u l(3,4) is_corrupted_def r(2,3) split: option.splits intro: go)
    qed
    done
qed

section \<open>Sessions\<close>

text \<open>The rounds of a session that have been served.\<close>

inductive rounds :: "'st sodium \<Rightarrow> fs_operator \<Rightarrow> world \<Rightarrow> fs_operator \<Rightarrow> world \<Rightarrow> bool" for S where
  rounds_none: "rounds S op w op w"
| rounds_more: "receive_notice_of_new_action S op w = ret (0, w1) \<Longrightarrow> read_intent S op w1 = ret (intent, w2) \<Longrightarrow>
     dispatch S intent op w2 = ret (op1, w3) \<Longrightarrow> rounds S op1 w3 op' w' \<Longrightarrow> rounds S op w op' w'"

text \<open>A session is about to serve a download of a directory.\<close>

definition asks_for_directory :: "'st sodium \<Rightarrow> fs_operator \<Rightarrow> world \<Rightarrow> bool" where
  "asks_for_directory S op w \<longleftrightarrow> (\<exists>w1 w2. receive_notice_of_new_action S op w = ret (0, w1) \<and>
     read_intent S op w1 = ret (READ_FROM_FILESYSTEM, w2) \<and> wants_directory S op w2)"

lemma dispatch_settles:
  assumes "live w" "rx_size (rx w) \<le> n" "intent = READ_FROM_FILESYSTEM \<Longrightarrow> \<not> wants_directory S op w"
  shows "settles n (dispatch S intent op w)"
proof -
  have "settles n (WTFS_Handler__Server S op w)" by (rule settles_mono [OF WTFS_settles [OF assms(1)] assms(2)])
  then show ?thesis unfolding dispatch_def using assms
    by (auto intro!: settles_andthen [OF RFFS_settles] settles_andthen [OF LFFS_settles] settles_andthen [OF DFFS_settles]
        elim: settles_andthen)
qed

lemma notice_settles:
  assumes "live w"
  shows "settles (rx_size (rx w)) (receive_notice_of_new_action S op w)"
  unfolding receive_notice_of_new_action_def
  by (rule settles_andthen [OF reader_settles [OF assms order_refl]]) (auto simp: Let_def split: prod.splits)

lemma intent_settles: "live w \<Longrightarrow> rx_size (rx w) \<le> n \<Longrightarrow> settles n (read_intent S op w)"
  unfolding read_intent_def
  by (rule settles_andthen [OF reader_settles]) (auto simp: Let_def split: prod.splits)

lemma notice_progress:
  assumes "receive_notice_of_new_action S op w = ret (0, w')"
  shows "rx_size (rx w') < rx_size (rx w)"
proof -
  from assms obtain wrap where "SessionEncWrapper_reader S w = ret (wrap, w')" "\<not> corrupted wrap"
    by (auto simp: receive_notice_of_new_action_def is_corrupted_def andthen_eq_ret_iff Let_def
        split: if_splits prod.splits)
  then show ?thesis by (rule reader_progress)
qed

lemma settlesE:
  assumes "settles n m"
  obtains (faulty) f where "m = fails f" | (returned) x w where "m = ret (x, w)" "live w" "rx_size (rx w) \<le> n"
  using assms by (cases m rule: run_cases) (auto simp: settles_def)

lemma session_ends:
  assumes "live w" "\<not> (\<exists>op' w'. rounds S op w op' w' \<and> asks_for_directory S op' w')"
  shows "returns (session_loop S op w)"
  using assms
proof (induction "rx_size (rx w)" arbitrary: op w rule: less_induct)
  case less
  from notice_settles [OF less.prems(1), of S op] show ?case
  proof (cases rule: settlesE)
    case (faulty f)
    then show ?thesis by (subst session_loop.simps) simp
  next
    case (returned rc w1)
    show ?thesis
    proof (cases "rc = 0")
      case False
      with returned(1) show ?thesis by (subst session_loop.simps) simp
    next
      case rc: True
      note smaller = notice_progress [OF returned(1) [unfolded rc]]
      from intent_settles [OF returned(2) order_refl, of S op] show ?thesis
      proof (cases rule: settlesE)
        case (faulty f)
        with returned(1) rc show ?thesis by (subst session_loop.simps) simp
      next
        case intent: (returned i w2)
        have "\<not> wants_directory S op w2" if "i = READ_FROM_FILESYSTEM"
          using less.prems(2) rounds_none that returned(1) rc intent(1) by (fastforce simp: asks_for_directory_def)
        then have "settles (rx_size (rx w2)) (dispatch S i op w2)" by (rule dispatch_settles [OF intent(2) order_refl])
        then show ?thesis
        proof (cases rule: settlesE)
          case (faulty f)
          with returned(1) rc intent(1) show ?thesis by (subst session_loop.simps) simp
        next
          case served: (returned op' w3)
          have "returns (session_loop S op' w3)"
          proof (rule less.hyps)
            show "\<not> (\<exists>op'' w'. rounds S op' w3 op'' w' \<and> asks_for_directory S op'' w')"
              using less.prems(2) rounds_more [OF returned(1) [unfolded rc] intent(1) served(1)] by blast
          qed (use smaller intent(3) served(2,3) in simp_all)
          with returned(1) rc intent(1) served(1) show ?thesis by (subst session_loop.simps) simp
        qed
      qed
    qed
  qed
qed

lemma session_never_ends:
  assumes "session_laws S" "rounds S op w op' w'" "asks_for_directory S op' w'"
  shows "session_loop S op w = None"
  using assms(2,3)
proof (induction rule: rounds.induct)
  case (rounds_none op w)
  then obtain w1 w2 where a: "receive_notice_of_new_action S op w = ret (0, w1)"
    "read_intent S op w1 = ret (READ_FROM_FILESYSTEM, w2)" "wants_directory S op w2" by (auto simp: asks_for_directory_def)
  then have "RFFS_Handler__Server S op w2 = None" using RFFS_hangs [OF assms(1)] by (auto simp: wants_directory_def)
  with a(1,2) show ?case by (subst session_loop.simps) (simp add: dispatch_def wire_constants)
next
  case (rounds_more op w w1 intent w2 op1 w3 op' w')
  then show ?case by (subst session_loop.simps) simp
qed

section \<open>Connections\<close>

text \<open>A connection that has logged in: its operator and its environment at the start of the session.\<close>

definition logged_in :: "'st sodium \<Rightarrow> sqlite3 \<Rightarrow> int \<Rightarrow> world \<Rightarrow> fs_operator \<Rightarrow> world \<Rightarrow> bool" where
  "logged_in S DB fd w op v \<longleftrightarrow> (\<exists>pk sk rxkey txkey w1 u w2 k k'.
     server_crypt_gen S (uninit (kx_SESSIONKEYBYTES S) w) (uninit (kx_SESSIONKEYBYTES S) w) w =
       ret ((0, pk, sk, rxkey, txkey), w1) \<and>
     verify_credentials S DB rxkey w1 = ret ((0, u), w2) \<and>
     FS_Operator S fd u rxkey txkey (snd (send (i32_bytes ACK_SUC) w2)) = ret ((op, k, k'), v))"

lemma crypt_gen_settles:
  assumes "live w"
  shows "settles (rx_size (rx w)) (server_crypt_gen S rb tb w)"
  unfolding server_crypt_gen_def Let_def split_beta
  by (rule settles_andthen [OF recv_fully_settles])
    (use assms in \<open>auto simp: live_send randombytes_buf_def split: option.splits\<close>)

lemma credentials_settle:
  assumes "live w"
  shows "settles (rx_size (rx w)) (verify_credentials S DB rxkey w)"
proof -
  have "settles (rx_size (rx w)) (andthen (login S DB a b c d)
      (\<lambda>(rc, _, _). if rc \<noteq> 0 then ret ((1, u), v) else ret ((0, u), v)))"
    if "live v" "rx_size (rx v) \<le> rx_size (rx w)" for a b c d u v
    using that by (cases "login S DB a b c d" rule: run_cases)
      (auto simp: login_def memzero_def split: if_splits option.splits)
  with assms show ?thesis
    unfolding verify_credentials_def Let_def
    by (intro settles_andthen [OF reader_settles])
      (auto split: prod.splits option.splits intro!: settles_andthen [OF reader_settles])
qed

text \<open>
  C20. Connections come to an end: on a connection that is not left hanging, \<open>handle_conn\<close>
  comes to an end on every input, with exactly one exception: a user who has logged in asks,
  after any number of rounds, for the download of a directory.
\<close>

theorem connection_ends:
  assumes S: "session_laws S" and w: "live w"
  shows "returns (handle_conn S DB fd sv w) \<longleftrightarrow>
     \<not> (\<exists>op v op' v'. logged_in S DB fd w op v \<and> rounds S op v op' v' \<and> asks_for_directory S op' v')"
proof -
  let ?kb = "uninit (kx_SESSIONKEYBYTES S) w"
  from crypt_gen_settles [OF w, of S ?kb ?kb] show ?thesis
  proof (cases rule: settlesE)
    case (faulty f)
    then show ?thesis by (simp add: handle_conn_def logged_in_def)
  next
    case (returned x w1)
    obtain rc pk sk rxkey txkey where x: "x = (rc, pk, sk, rxkey, txkey)" by (metis prod_cases5)
    note run1 = returned(1) [unfolded x]
    show ?thesis
    proof (cases "rc = 0")
      case False
      with run1 show ?thesis by (simp add: handle_conn_def logged_in_def)
    next
      case rc: True
      from credentials_settle [OF returned(2), of S DB rxkey] show ?thesis
      proof (cases rule: settlesE)
        case (faulty f)
        with run1 rc show ?thesis by (simp add: handle_conn_def logged_in_def)
      next
        case cred: (returned y w2)
        obtain c u where y: "y = (c, u)" by (cases y)
        let ?w = "snd (send (i32_bytes ACK_SUC) w2)"
        show ?thesis
        proof (cases "c = 0 \<and> (\<exists>op k k' v. FS_Operator S fd u rxkey txkey ?w = ret ((op, k, k'), v))")
          case False
          then show ?thesis
            using run1 rc cred(1) y
            by (cases "FS_Operator S fd u rxkey txkey ?w" rule: run_cases)
              (auto simp: handle_conn_def logged_in_def Let_def FS_Operator_def randombytes_buf_def split: sum.splits)
        next
          case True
          then obtain op k k' v where c: "c = 0" and v: "FS_Operator S fd u rxkey txkey ?w = ret ((op, k, k'), v)" by blast
          have "live v" using v live_send(1) [OF cred(2), of "i32_bytes ACK_SUC"]
            by (auto simp: FS_Operator_def randombytes_buf_def Let_def split: sum.splits)
          moreover have "logged_in S DB fd w op0 v0 \<longleftrightarrow> op0 = op \<and> v0 = v" for op0 v0
            using run1 rc cred(1) y c v by (auto simp: logged_in_def)
          moreover have "returns (handle_conn S DB fd sv w) = returns (session_loop S op v)"
            using run1 rc cred(1) y c v
            by (cases "session_loop S op v" rule: run_cases) (auto simp: handle_conn_def Let_def)
          ultimately show ?thesis
            using session_ends [of v S op] session_never_ends [OF S, of op v] by (auto simp: returns_def)
        qed
      qed
    qed
  qed
qed

theorem connection_ends_witness:
  "returns (handle_conn toy_sodium \<lparr>db_prepare = True, db_row = (\<lambda>_. None)\<rparr> 5 server_globals
     (idle_world\<lparr>disk := toy_disk, rx := [Seg [1, 2, 3], Recv_Error 104], rx_last := Timed_Out\<rparr>))"
proof -
  let ?DB = "\<lparr>db_prepare = True, db_row = (\<lambda>_. None)\<rparr>"
  let ?w = "idle_world\<lparr>disk := toy_disk, rx := [Seg [1, 2, 3], Recv_Error 104], rx_last := Timed_Out\<rparr>"
  have w: "live ?w" by (simp add: live_def EINTR_def idle_world_def)
  have "\<not> logged_in toy_sodium ?DB 5 ?w op v" for op v
    using verify_sound [OF toy_aead, of ?DB] by (fastforce simp: logged_in_def)
  with connection_ends [OF toy_session w, of ?DB 5 server_globals] show ?thesis by blast
qed

end
