(* ===== verification/Disk_Invariant.thy ===== *)
theory Disk_Invariant
  imports Server
begin

text \<open>
  What a connection keeps of the disk, on any input whatever. The interface
  \<open>disk_invariant\<close> names the four operations through which the server changes the file system,
  all on paths below its base directory; a property they keep is kept by every handler, by the
  session loop and by \<open>handle_conn\<close>. Interpreted for the shape of the tree together
  with the working directory.
\<close>

section \<open>Properties of the disk after a run\<close>

definition leaves :: "('a \<Rightarrow> filesys \<Rightarrow> bool) \<Rightarrow> ('a \<times> world) run \<Rightarrow> bool" where
  "leaves R m \<longleftrightarrow> (\<forall>x w. m = ret (x, w) \<longrightarrow> R x (disk w))"

lemma leaves_simps [simp]: "leaves R (ret (x, w)) = R x (disk w)" "leaves R (fails f)" "leaves R None"
  by (simp_all add: leaves_def ret_def fails_def)

lemma leaves_andthen:
  assumes "leaves R m" "\<And>x w. R x (disk w) \<Longrightarrow> leaves Q (f (x, w))"
  shows "leaves Q (andthen m f)"
  using assms by (cases m rule: run_cases) (auto simp: leaves_def)

lemma leaves_reader: "P (disk w) \<Longrightarrow> leaves (\<lambda>_. P) (SessionEncWrapper_reader S w)"
  using quiet_reader [of w w S] only_rx_fields(6) by (fastforce simp: leaves_def quiet_def)

lemma disk_send_raw_blob [simp]: "disk (snd (send_raw_blob bs w)) = disk w"
  by (simp add: send_raw_blob_def Let_def split_def)

lemma leaves_op_send: "P (disk w) \<Longrightarrow> leaves (\<lambda>op' d. P d \<and> user_dir op' = user_dir op) (op_send S data op w)"
  by (auto simp: leaves_def op_send_def session_send_def send_all_def andthen_eq_ret_iff split: if_splits)

lemma leaves_recv_raw_blob: "P (disk w) \<Longrightarrow> leaves (\<lambda>_. P) (recv_raw_blob k w)"
  using recv_raw_blobD(2) only_rx_fields(6) by (fastforce simp: leaves_def)

section \<open>The interface\<close>

locale disk_invariant =
  fixes inv :: "filesys \<Rightarrow> bool"
  assumes opened: "inv d \<Longrightarrow> inv (snd (open_out d (base_dir @ s)))"
    and written: "inv d \<Longrightarrow> inv (write_out h bs d)"
    and removed: "inv d \<Longrightarrow> remove_path d (base_dir @ s) = Inr (b, d') \<Longrightarrow> inv d'"
    and created: "inv d \<Longrightarrow> create_directories d (base_dir @ s) = Inr d' \<Longrightarrow> inv d'"
begin

lemma WTFS_round_leaves:
  assumes "inv (disk w)"
  shows "leaves (\<lambda>_. inv) (WTFS_round S op h prefix b w)"
  unfolding WTFS_round_def
  by (rule leaves_andthen [OF leaves_reader [of inv, OF assms]])
    (auto simp: join_writer_def written Let_def split: option.splits prod.splits
      intro!: leaves_andthen [OF leaves_recv_raw_blob [of inv]])

lemma WTFS_loop_leaves:
  assumes "inv (disk w)"
  shows "leaves (\<lambda>_. inv) (WTFS_loop S op h prefix b w)"
proof -
  let ?P = "\<lambda>(S :: 'st sodium) (op :: fs_operator) h prefix b w r. \<forall>rc w'. r = Inr (rc, w') \<longrightarrow> inv (disk w) \<longrightarrow> inv (disk w')"
  have "?P S op h prefix b w r" if "WTFS_loop S op h prefix b w = Some r" for r
  proof (rule WTFS_loop.raw_induct [where P = ?P, OF _ that], intro allI impI)
    fix loop S op h prefix b w r rc w'
    assume IH: "\<And>S op h prefix b w r. loop S op h prefix b w = Some r \<Longrightarrow> ?P S op h prefix b w r"
      and eq: "andthen (WTFS_round S op h prefix b w) (\<lambda>(r, w).
          case r of Inl rc \<Rightarrow> ret (rc, w) | Inr (prefix, b) \<Rightarrow> loop S op h prefix b w) = Some r"
      and r: "r = Inr (rc, w')" "inv (disk w)"
    have "leaves (\<lambda>_. inv) (andthen (WTFS_round S op h prefix b w) (\<lambda>(r, w).
          case r of Inl rc \<Rightarrow> ret (rc, w) | Inr (prefix, b) \<Rightarrow> loop S op h prefix b w))"
      by (rule leaves_andthen [OF WTFS_round_leaves [OF r(2)]])
        (use IH in \<open>auto simp: leaves_def ret_def split: sum.splits\<close>)
    with eq r(1) show "inv (disk w')" by (simp add: leaves_def ret_def)
  qed
  with assms show ?thesis by (auto simp: leaves_def ret_def)
qed

lemma WTFS_leaves:
  assumes "inv (disk w)" "user_dir op = base_dir @ s"
  shows "leaves (\<lambda>_. inv) (WTFS_Handler__Server S op w)"
proof -
  have "leaves (\<lambda>_. inv) (init_read S op buf hbuf sbuf w)" for buf hbuf sbuf
    using assms(1) init_read_only_rx only_rx_fields(6) by (fastforce simp: leaves_def)
  note init = leaves_andthen [OF this]
  have out: "inv (write_out h salt (write_out h header d))"
    if "open_out (disk v) (base_dir @ s @ n) = (h, d)" "inv (disk v)" for v n h d salt header
    using opened [OF that(2), of "s @ n"] that(1) by (simp add: written)
  show ?thesis
    unfolding WTFS_Handler__Server_def
    by (rule init) (auto simp: assms(2) Let_def split: option.splits prod.splits intro!: WTFS_loop_leaves out)
qed

lemma RFFS_loop_leaves:
  assumes "inv (disk w)"
  shows "leaves (\<lambda>(_, op') d. inv d \<and> user_dir op' = user_dir op) (RFFS_loop S f op w)"
proof -
  let ?P = "\<lambda>(S :: 'st sodium) (f :: ifstream) op w r. \<forall>rc op' w'. r = Inr ((rc :: int, op'), w') \<longrightarrow> inv (disk w) \<longrightarrow>
    inv (disk w') \<and> user_dir op' = user_dir op"
  have "?P S f op w r" if "RFFS_loop S f op w = Some r" for r
  proof (rule RFFS_loop.raw_induct [where P = ?P, OF _ that], intro allI impI)
    fix loop and S :: "'st sodium" and f :: ifstream and op w r rc op' w'
    assume IH: "\<And>S f op w r. loop S f op w = Some r \<Longrightarrow> ?P S f op w r"
      and eq: "(let (chunk, file) = read_in (FILE_ENCRYPTED_CHUNK_SIZE S) f in
      andthen (op_send S (i32_bytes (if eofbit file then END_CHUNK else MEAT_CHUNK)) op w) (\<lambda>(op, w).
        let w = snd (send_raw_blob chunk w) in
        if eofbit file then ret ((0, op), w) else loop S file op w)) = Some r"
      and r: "r = Inr ((rc, op'), w')" "inv (disk w)"
    obtain chunk f' where f': "read_in (FILE_ENCRYPTED_CHUNK_SIZE S) f = (chunk, f')" by fastforce
    have again: "leaves (\<lambda>(_, op') d. inv d \<and> user_dir op' = user_dir op) (loop S f' op1 v)"
      if "inv (disk v)" "user_dir op1 = user_dir op" for op1 v
      unfolding leaves_def ret_def
    proof (clarify)
      fix rc op2 v2
      assume "loop S f' op1 v = Some (Inr ((rc, op2), v2))"
      from IH [OF this] that show "inv (disk v2) \<and> user_dir op2 = user_dir op" by simp
    qed
    have "leaves (\<lambda>(_, op') d. inv d \<and> user_dir op' = user_dir op)
      (andthen (op_send S (i32_bytes (if eofbit f' then END_CHUNK else MEAT_CHUNK)) op w) (\<lambda>(op, w).
        let w = snd (send_raw_blob chunk w) in if eofbit f' then ret ((0, op), w) else loop S f' op w))"
      by (rule leaves_andthen [OF leaves_op_send [of inv, OF r(2)]]) (auto simp: Let_def intro!: again)
    with eq have "leaves (\<lambda>(_, op') d. inv d \<and> user_dir op' = user_dir op) (Some r)" by (simp add: f')
    with r(1) show "inv (disk w') \<and> user_dir op' = user_dir op" by (simp add: leaves_def ret_def)
  qed
  with assms show ?thesis by (auto simp: leaves_def ret_def)
qed

lemma RFFS_leaves:
  assumes "inv (disk w)"
  shows "leaves (\<lambda>(_, op') d. inv d \<and> user_dir op' = user_dir op) (RFFS_Handler__Server S op w)"
proof -
  have loop: "leaves (\<lambda>(_, op') d. inv d \<and> user_dir op' = user_dir op) (RFFS_loop S f op1 v)"
    if "inv (disk v)" "user_dir op1 = user_dir op" for f op1 v
    using RFFS_loop_leaves [OF that(1), of op1 S f] that(2) by simp
  have "inv (disk (w\<lparr>rnd_pos := k\<rparr>))" for k using assms by simp
  note reader = leaves_andthen [OF leaves_reader [of inv, OF this]]
  show ?thesis
    unfolding RFFS_Handler__Server_def fresh_nonce_at Let_def prod.case
    by (rule reader) (auto split: option.splits prod.splits
        intro!: leaves_andthen [OF leaves_op_send [of inv]] loop)
qed

lemma send_names_leaves:
  assumes "inv (disk w)"
  shows "leaves (\<lambda>op' d. inv d \<and> user_dir op' = user_dir op) (send_names S names op w)"
  using assms
proof (induction names arbitrary: op w)
  case (Cons n names)
  have "leaves (\<lambda>op' d. inv d \<and> user_dir op' = user_dir op) (send_names S names op1 v)"
    if "inv (disk v)" "user_dir op1 = user_dir op" for op1 v using Cons.IH [OF that(1), of op1] that(2) by simp
  with Cons.prems show ?case
    by (auto simp: fresh_nonce_at Let_def intro!: leaves_andthen [OF leaves_op_send [of inv]])
qed simp

lemma LFFS_leaves:
  assumes "inv (disk w)"
  shows "leaves (\<lambda>(_, op') d. inv d \<and> user_dir op' = user_dir op) (LFFS_Handler__Server S op w)"
proof -
  have names: "leaves (\<lambda>op' d. inv d \<and> user_dir op' = user_dir op) (send_names S ns op1 v)"
    if "inv (disk v)" "user_dir op1 = user_dir op" for ns op1 v
    using send_names_leaves [OF that(1), of op1] that(2) by simp
  from assms show ?thesis
    by (auto simp: LFFS_Handler__Server_def fresh_nonce_at Let_def split: sum.split
        intro!: leaves_andthen [OF leaves_op_send [of inv]] leaves_andthen [OF names])
qed

lemma DFFS_leaves:
  assumes "inv (disk w)" "user_dir op = base_dir @ s"
  shows "leaves (\<lambda>(_, op') d. inv d \<and> user_dir op' = user_dir op) (DFFS_Handler__Server S op w)"
proof -
  have "inv (disk (w\<lparr>rnd_pos := k\<rparr>))" for k using assms by simp
  note reader = leaves_andthen [OF leaves_reader [of inv, OF this]]
  have "inv d" if "remove_path (disk v) (base_dir @ s @ n) = Inr (b, d)" "inv (disk v)" for v n b d
    using removed [OF that(2)] that(1) by blast
  then show ?thesis
    unfolding DFFS_Handler__Server_def fresh_nonce_at Let_def prod.case
    by (intro reader) (auto simp: assms(2) split: option.splits prod.splits sum.splits
        intro!: leaves_andthen [OF leaves_op_send [of inv]])
qed

lemma dispatch_leaves:
  assumes "inv (disk w)" "user_dir op = base_dir @ s"
  shows "leaves (\<lambda>op' d. inv d \<and> user_dir op' = base_dir @ s) (dispatch S intent op w)"
  unfolding dispatch_def using assms
  by (auto intro!: leaves_andthen [OF RFFS_leaves] leaves_andthen [OF WTFS_leaves]
      leaves_andthen [OF LFFS_leaves] leaves_andthen [OF DFFS_leaves])

lemma quiet_leaves:
  assumes "\<And>x w'. m = ret (x, w') \<Longrightarrow> disk w' = disk w" "inv (disk w)"
  shows "leaves (\<lambda>_. inv) m"
  using assms by (auto simp: leaves_def)

lemma notice_leaves: "inv (disk w) \<Longrightarrow> leaves (\<lambda>_. inv) (receive_notice_of_new_action S op w)"
  unfolding receive_notice_of_new_action_def
  by (rule leaves_andthen [OF leaves_reader [of inv]]) (auto simp: Let_def split: prod.splits)

lemma intent_leaves: "inv (disk w) \<Longrightarrow> leaves (\<lambda>_. inv) (read_intent S op w)"
  unfolding read_intent_def
  by (rule leaves_andthen [OF leaves_reader [of inv]]) (auto simp: Let_def split: prod.splits)

lemma session_leaves:
  assumes "inv (disk w)" "user_dir op = base_dir @ s"
  shows "leaves (\<lambda>_. inv) (session_loop S op w)"
proof -
  let ?P = "\<lambda>(S :: 'st sodium) op w r. \<forall>op' w'. r = Inr (op' :: fs_operator, w') \<longrightarrow> inv (disk w) \<longrightarrow>
    user_dir op = base_dir @ s \<longrightarrow> inv (disk w')"
  have "?P S op w r" if "session_loop S op w = Some r" for r
  proof (rule session_loop.raw_induct [where P = ?P, OF _ that], intro allI impI)
    fix loop and S :: "'st sodium" and op w r op' w'
    assume IH: "\<And>S op w r. loop S op w = Some r \<Longrightarrow> ?P S op w r"
      and eq: "andthen (receive_notice_of_new_action S op w) (\<lambda>(rc, w).
       if rc \<noteq> 0 then ret (op, w)
       else
         andthen (read_intent S op w) (\<lambda>(intent, w).
         andthen (dispatch S intent op w) (\<lambda>(op, w). loop S op w))) = Some r"
      and r: "r = Inr (op', w')" "inv (disk w)" "user_dir op = base_dir @ s"
    have again: "leaves (\<lambda>_. inv) (loop S op1 v)" if "inv (disk v)" "user_dir op1 = base_dir @ s" for op1 v
      unfolding leaves_def ret_def
    proof (clarify)
      fix op2 v2
      assume "loop S op1 v = Some (Inr (op2, v2))"
      from IH [OF this] that show "inv (disk v2)" by simp
    qed
    have "leaves (\<lambda>_. inv) (andthen (receive_notice_of_new_action S op w) (\<lambda>(rc, w).
       if rc \<noteq> 0 then ret (op, w)
       else
         andthen (read_intent S op w) (\<lambda>(intent, w).
         andthen (dispatch S intent op w) (\<lambda>(op, w). loop S op w))))"
      by (rule leaves_andthen [OF notice_leaves [OF r(2)]])
        (use r(3) in \<open>auto intro!: leaves_andthen [OF intent_leaves] leaves_andthen [OF dispatch_leaves] again\<close>)
    with eq r(1) show "inv (disk w')" by (simp add: leaves_def ret_def)
  qed
  with assms show ?thesis by (auto simp: leaves_def ret_def)
qed

lemma FS_Operator_leaves:
  assumes "inv (disk w)"
  shows "leaves (\<lambda>(op, _, _) d. inv d \<and> user_dir op = base_dir @ u @ [slash]) (FS_Operator S sock u rxkey txkey w)"
  using created [OF assms, of "u @ [slash]"]
  by (auto simp: FS_Operator_def randombytes_buf_def Let_def split: sum.split)

lemma handle_conn_leaves:
  assumes "inv (disk w)"
  shows "leaves (\<lambda>_. inv) (handle_conn S DB fd sv w)"
proof -
  have kx: "leaves (\<lambda>_. inv) (server_crypt_gen S rb tb w)" for rb tb
    by (rule quiet_leaves [OF _ assms]) (rule server_crypt_gen_disk)
  have login: "leaves (\<lambda>_. inv) (verify_credentials S DB rxkey v)" if "inv (disk v)" for rxkey v
    using that verify_credentials_quiet [of v S DB rxkey] only_rx_fields(6) by (fastforce simp: leaves_def quiet_def)
  have op: "leaves (\<lambda>(op, _, _) d. inv d \<and> user_dir op = base_dir @ u @ [slash])
      (FS_Operator S fd u rxkey txkey (snd (send bs v)))" if "inv (disk v)" for u rxkey txkey bs v
    using that by (intro FS_Operator_leaves) simp
  have session: "leaves (\<lambda>_. inv) (session_loop S op v)" if "inv (disk v)" "\<exists>s. user_dir op = base_dir @ s" for op v
    using that session_leaves by blast
  show ?thesis
    unfolding handle_conn_def
    by (rule leaves_andthen [OF kx])
      (auto simp: Let_def intro!: leaves_andthen [OF login] leaves_andthen [OF op] leaves_andthen [OF session])
qed

end

section \<open>The shape of the tree\<close>

lemma split_base: "split_slash (base_dir @ s) = top_dir # split_slash s"
proof -
  have "base_dir @ s = top_dir @ slash # s"
    by (simp add: base_dir_def top_dir_def str_def slash_def of_char_def horner_sum_simps)
  moreover have "split_slash top_dir = [top_dir]" by code_simp
  ultimately show ?thesis by (simp only: split_slash_append) simp
qed

lemma start_base: "start_dir d (base_dir @ s) = cwd d"
  using top_dir_name(4,5) by (simp add: start_dir_def)

text \<open>Whatever resolves below the base directory, the base directory itself is there.\<close>

lemma resolve_base:
  assumes "resolve d (base_dir @ s) = Inr p"
  shows "lookup d (cwd d) = Some Dir" "lookup d (cwd d @ [top_dir]) = Some Dir"
proof -
  show "lookup d (cwd d) = Some Dir" using resolve_start [OF assms] by (simp add: start_base)
  from assms have "walk d (cwd d) (top_dir # split_slash s) = Inr p" by (simp add: resolve_def start_base split_base)
  then have "walk d (cwd d @ [top_dir]) (split_slash s) = Inr p"
    using top_dir_name(1-3) by (auto split: option.splits node.splits if_splits)
  then show "lookup d (cwd d @ [top_dir]) = Some Dir"
    by (cases "split_slash s") (auto split: option.splits node.splits)
qed

text \<open>So the working directory is never empty when a session could remove it.\<close>

lemma tree_ok_remove:
  assumes d: "tree_ok d" and r: "remove_path d (base_dir @ s) = Inr (b, d')"
  shows "tree_ok d'"
proof (cases "d' = d")
  case False
  with r obtain p where p: "resolve d (base_dir @ s) = Inr p" "d' = d\<lparr>entries := AList.delete p (entries d)\<rparr>"
    "p \<noteq> [] \<and> children d p = [] \<or> (\<exists>bs. lookup d p = Some (File bs))"
    by (auto simp: remove_path_def split: sum.splits option.splits node.splits fs_error.splits if_splits)
  have "top_dir \<in> set (children d (cwd d))" using resolve_base(2) [OF p(1)] by (simp add: set_children)
  then have "p \<noteq> cwd d" using p(3) d by (auto simp: tree_ok_def)
  moreover have "p \<noteq> []" using p(3) by (auto simp: lookup_def)
  ultimately have "lookup d' (cwd d') = Some Dir" using d p(2) by (simp add: tree_ok_def lookup_delete)
  with fs_ok_remove [OF _ r] d show ?thesis by (simp add: tree_ok_def)
qed (use d in simp)

text \<open>Opening and writing a file leave directories alone.\<close>

lemma open_out_dirs:
  assumes "lookup d q = Some Dir"
  shows "lookup (snd (open_out d s)) q = Some Dir"
proof (cases "open_out d s")
  case (Pair h d')
  show ?thesis
  proof (cases h)
    case None
    with Pair open_out_failed assms show ?thesis by fastforce
  next
    case (Some p)
    with Pair have o: "open_out d s = (Some p, d')" by simp
    then have "lookup d p \<noteq> Some Dir" by (auto simp: open_out_def split: sum.splits option.splits node.splits)
    with assms open_outD(4) [OF o, of q] Pair show ?thesis by auto
  qed
qed

lemma write_out_dirs: "lookup d q = Some Dir \<Longrightarrow> lookup (write_out h bs d) q = Some Dir"
  by (cases "h = Some q", simp add: write_out_def) (simp add: lookup_write_out_other)

lemma cwd_open [simp]: "cwd (snd (open_out d s)) = cwd d"
  using cwd_open_out [of d s] by (cases "open_out d s") simp

lemma tree_ok_create:
  assumes "tree_ok d" "create_directories d (base_dir @ s) = Inr d'"
  shows "tree_ok d'" "cwd d' = cwd d"
proof -
  from assms have "make_dirs d (cwd d) (split_slash (base_dir @ s)) = Inr d'" "fs_ok d" "lookup d (cwd d) = Some Dir"
    by (simp_all add: create_directories_def start_base tree_ok_def)
  from make_dirs_ok [OF this(2,3,1)] this(3) show "tree_ok d'" "cwd d' = cwd d" by (simp_all add: tree_ok_def)
qed

interpretation tree: disk_invariant "\<lambda>d. tree_ok d \<and> cwd d = c" for c
proof (unfold_locales, goal_cases)
  case (1 d s)
  then show ?case by (auto simp: tree_ok_def fs_ok_open_out open_out_dirs)
next
  case (2 d h bs)
  then show ?case by (auto simp: tree_ok_def fs_ok_write_out write_out_dirs)
next
  case (3 d s b d')
  then show ?case using tree_ok_remove cwd_remove by metis
next
  case (4 d s d')
  then show ?case using tree_ok_create by metis
qed

text \<open>
  C21. The file system stays well formed, on any input: a connection that finds a tree in which
  every entry has a directory above it, no path is listed twice and the working directory
  exists, leaves such a tree, with the same working directory. No request, honest or not, can
  orphan an entry or remove the directory the server runs in.
\<close>

theorem tree_preserved:
  assumes "tree_ok (disk w)" "handle_conn S DB fd sv w = ret (sv', w')"
  shows "tree_ok (disk w') \<and> cwd (disk w') = cwd (disk w)"
  using tree.handle_conn_leaves [of w "cwd (disk w)" S DB fd sv] assms by (simp add: leaves_def)

theorem tree_preserved_witness:
  "\<exists>sv' w'. handle_conn toy_sodium \<lparr>db_prepare = True, db_row = (\<lambda>_. None)\<rparr> 5 server_globals
       (idle_world\<lparr>disk := toy_disk, rx_last := Peer_Closed\<rparr>) = ret (sv', w') \<and> tree_ok (disk w')"
proof -
  let ?w = "idle_world\<lparr>disk := toy_disk, rx_last := Peer_Closed\<rparr>"
  obtain w' where run: "handle_conn toy_sodium \<lparr>db_prepare = True, db_row = (\<lambda>_. None)\<rparr> 5 server_globals ?w =
      ret (server_globals, w')" using toy_closed_conn by blast
  have "tree_ok toy_disk" by code_simp
  then have "tree_ok (disk ?w)" by simp
  from tree_preserved [OF this run] run show ?thesis by blast
qed

end
