(* ===== verification/Prototype.thy ===== *)
theory Prototype
  imports Key_Exchange
begin

text \<open>
  The two programs the project started from (\<open>prehistoric/pre_chats_comms_server.cpp\<close>,
  \<open>prehistoric/pre_chats_comms_client.cpp\<close>): a server that starts a detached thread for every
  connection, and a client; both exchange public keys and derive the session keys. The keys are
  read with a single \<open>recv\<close> whose result is not looked at, and a refused key is reported and
  otherwise ignored. Shown: the two sides agree when each key arrives in one piece; what the
  server uses when it does not, in contrast to \<open>server_crypt_gen\<close>; what the accept loop counts.
\<close>

section \<open>A connection\<close>

text \<open>
  Whether the library accepted the other side's key, and the two session keys, which hold what
  the library left there if it did not. The two public keys are printed.
\<close>

definition pre_handle_conn :: "'st sodium \<Rightarrow> world \<Rightarrow> ((bool \<times> byte list \<times> byte list) \<times> world) run" where
  "pre_handle_conn S w =
     (let server_rx = uninit (kx_SESSIONKEYBYTES S) w; server_tx = uninit (kx_SESSIONKEYBYTES S) w;
          (seed, w) = randombytes_buf (kx_PUBLICKEYBYTES S) w;
          (server_pk, server_sk) = kx_keypair S seed;
          w = w\<lparr>cout := cout w @ [server_pk]\<rparr>;
          w = snd (send server_pk w);
          client_pk = uninit (kx_PUBLICKEYBYTES S) w in
      andthen (recv (kx_PUBLICKEYBYTES S) w) (\<lambda>((_, bs), w).
        let client_pk = write_into client_pk bs; w = w\<lparr>cout := cout w @ [client_pk]\<rparr> in
        case kx_server_session_keys S server_pk server_sk client_pk of
          None \<Rightarrow> ret ((False, kx_fail_buf S server_rx, kx_fail_buf S server_tx), w)
        | Some (server_rx, server_tx) \<Rightarrow> ret ((True, server_rx, server_tx), w)))"

text \<open>The client, with the return code of \<open>main\<close>; the result of \<open>connect\<close> is not looked at.\<close>

definition pre_client_main :: "'st sodium \<Rightarrow> world \<Rightarrow> ((int \<times> bool \<times> byte list \<times> byte list) \<times> world) run" where
  "pre_client_main S w =
     (let client_rx = uninit (kx_SESSIONKEYBYTES S) w; client_tx = uninit (kx_SESSIONKEYBYTES S) w;
          (seed, w) = randombytes_buf (kx_PUBLICKEYBYTES S) w;
          (client_pk, client_sk) = kx_keypair S seed;
          w = w\<lparr>cout := cout w @ [client_pk]\<rparr>;
          w = snd (send client_pk w);
          server_pk = uninit (kx_PUBLICKEYBYTES S) w in
      andthen (recv (kx_PUBLICKEYBYTES S) w) (\<lambda>((_, bs), w).
        let server_pk = write_into server_pk bs; w = w\<lparr>cout := cout w @ [server_pk]\<rparr> in
        case kx_client_session_keys S client_pk client_sk server_pk of
          None \<Rightarrow> ret ((0, False, kx_fail_buf S client_rx, kx_fail_buf S client_tx), w)
        | Some (client_rx, client_tx) \<Rightarrow> ret ((0, True, client_rx, client_tx), w)))"

text \<open>The key a single \<open>recv\<close> leaves in the buffer when the first piece of the input is \<open>a\<close>.\<close>

definition torn_key :: "'st sodium \<Rightarrow> byte list \<Rightarrow> world \<Rightarrow> byte list" where
  "torn_key S a w = write_into (uninit (kx_PUBLICKEYBYTES S) w) (take (kx_PUBLICKEYBYTES S) a)"

lemma uninit_upd [simp]: "uninit n (w\<lparr>rnd_pos := k\<rparr>) = uninit n w" "uninit n (w\<lparr>cout := c\<rparr>) = uninit n w"
  "uninit n (w\<lparr>tx := t\<rparr>) = uninit n w"
  by (simp_all add: uninit_def)

text \<open>What either side ends with when its input starts with the piece \<open>a\<close>.\<close>

lemma pre_piece:
  assumes "tx_plan w = []" "rx w = Seg a # es"
  shows "\<exists>w'. pre_handle_conn S w = ret (case kx_server_session_keys S (fst (own_keys S w)) (snd (own_keys S w)) (torn_key S a w) of
       None \<Rightarrow> (False, kx_fail_buf S (uninit (kx_SESSIONKEYBYTES S) w), kx_fail_buf S (uninit (kx_SESSIONKEYBYTES S) w))
     | Some (k, k') \<Rightarrow> (True, k, k'), w') \<and>
     tx w' = tx w @ fst (own_keys S w) \<and> rx w' = after_piece (kx_PUBLICKEYBYTES S) a es" (is ?server)
   "\<exists>w'. pre_client_main S w = ret (case kx_client_session_keys S (fst (own_keys S w)) (snd (own_keys S w)) (torn_key S a w) of
       None \<Rightarrow> (0, False, kx_fail_buf S (uninit (kx_SESSIONKEYBYTES S) w), kx_fail_buf S (uninit (kx_SESSIONKEYBYTES S) w))
     | Some (k, k') \<Rightarrow> (0, True, k, k'), w') \<and>
     tx w' = tx w @ fst (own_keys S w) \<and> rx w' = after_piece (kx_PUBLICKEYBYTES S) a es" (is ?client)
proof -
  obtain pk sk where k: "own_keys S w = (pk, sk)" by fastforce
  then have p: "kx_keypair S (fst (randombytes_buf (kx_PUBLICKEYBYTES S) w)) = (pk, sk)" by (simp add: own_keys_def)
  show ?server ?client
    using assms p by (auto simp: pre_handle_conn_def pre_client_main_def k Let_def randombytes_buf_def
        send_all_accepted recv_def torn_key_def split: option.split)
qed

lemma torn_key_whole:
  "length pk = kx_PUBLICKEYBYTES S \<Longrightarrow> torn_key S (pk @ a) w = pk"
  by (simp add: torn_key_def write_into_full uninit_def)

text \<open>
  A key that arrives in two pieces: the prototype computes with the first piece followed by
  what was in the buffer, and the second piece is still unread. \<open>server_crypt_gen\<close> reads on
  and uses the key that was sent.
\<close>

lemma pre_handle_conn_torn:
  assumes "tx_plan w = []" "rx w = Seg a # Seg b # es" "length a + length b = kx_PUBLICKEYBYTES S"
    and "kx_server_session_keys S (fst (own_keys S w)) (snd (own_keys S w))
           (a @ drop (length a) (uninit (kx_PUBLICKEYBYTES S) w)) = Some (k, k')"
  shows "\<exists>w'. pre_handle_conn S w = ret ((True, k, k'), w') \<and> rx w' = Seg b # es"
proof -
  have "torn_key S a w = a @ drop (length a) (uninit (kx_PUBLICKEYBYTES S) w)"
    using assms(3) by (simp add: torn_key_def write_into_def)
  moreover have "after_piece (kx_PUBLICKEYBYTES S) a (Seg b # es) = Seg b # es"
    using assms(3) by (simp add: after_piece_def)
  ultimately show ?thesis using pre_piece(1) [OF assms(1,2), of S] assms(4) by auto
qed

lemma server_crypt_gen_two_pieces:
  assumes "tx_plan w = []" "rx w = [Seg a, Seg b]" "length a + length b = kx_PUBLICKEYBYTES S"
    and "a \<noteq> []" "b \<noteq> []" "kx_server_session_keys S (fst (own_keys S w)) (snd (own_keys S w)) (a @ b) = Some (k, k')"
  shows "\<exists>w'. server_crypt_gen S rb tb w = ret ((0, fst (own_keys S w), snd (own_keys S w), k, k'), w')"
proof -
  have "feeds (announced S w) ((a @ b) @ [])"
    using assms(2,4,5) by (simp add: feeds_def announced_def)
  then obtain w' where "recv_fully (kx_PUBLICKEYBYTES S) (announced S w) = ret ((True, a @ b), w')"
    using assms(3) by (elim readsE [OF reads_recv_fully, rotated]) simp_all
  then show ?thesis
    using assms(6) by (simp add: crypt_gen_announced(1) [OF assms(1)])
qed

text \<open>
  C39. The prototypes agree: when each side finds the other's public key complete in the first
  piece it receives, both accept, the server's receiving key is the client's sending key and
  the other way round, each has sent exactly its own public key, and what came after the key
  is left unread.
\<close>

theorem prototype_agreement:
  assumes "kx_laws S" "tx_plan w = []" "tx_plan v = []"
    and "rx w = Seg (fst (own_keys S v) @ a) # es" "rx v = Seg (fst (own_keys S w) @ b) # fs"
  shows "\<exists>k k' w' v'.
     pre_handle_conn S w = ret ((True, k, k'), w') \<and> pre_client_main S v = ret ((0, True, k', k), v') \<and>
     length k = kx_SESSIONKEYBYTES S \<and> length k' = kx_SESSIONKEYBYTES S \<and>
     tx w' = tx w @ fst (own_keys S w) \<and> tx v' = tx v @ fst (own_keys S v) \<and>
     rx_data (rx w') = a @ rx_data es \<and> rx_data (rx v') = b @ rx_data fs"
proof -
  have len: "length (fst (own_keys S u)) = kx_PUBLICKEYBYTES S" for u
    using assms(1) by (simp add: kx_laws_def own_keys_def)
  obtain k' k where k: "kx_client_session_keys S (fst (own_keys S v)) (snd (own_keys S v)) (fst (own_keys S w)) = Some (k', k)"
    "kx_server_session_keys S (fst (own_keys S w)) (snd (own_keys S w)) (fst (own_keys S v)) = Some (k, k')"
    "length k' = kx_SESSIONKEYBYTES S" "length k = kx_SESSIONKEYBYTES S"
    using assms(1) unfolding kx_laws_def own_keys_def by metis
  have rest: "rx_data (after_piece (kx_PUBLICKEYBYTES S) (fst (own_keys S u) @ c) gs) = c @ rx_data gs" for u c gs
    using after_piece_data [of "kx_PUBLICKEYBYTES S" "fst (own_keys S u) @ c" gs] len [of u] by simp
  from pre_piece(1) [OF assms(2,4), of S] pre_piece(2) [OF assms(3,5), of S] show ?thesis
    by (elim exE conjE) (simp add: k torn_key_whole [OF len] rest)
qed

theorem prototype_agreement_witness:
  "\<exists>k k' w' v'.
     pre_handle_conn toy_sodium (idle_world\<lparr>rx := [Seg (replicate 32 1 @ [7])]\<rparr>) = ret ((True, k, k'), w') \<and>
     pre_client_main toy_sodium (idle_world\<lparr>rnd := (\<lambda>_. 1), rx := [Seg (replicate 32 0)]\<rparr>) = ret ((0, True, k', k), v') \<and>
     rx_data (rx w') = [7] \<and> rx_data (rx v') = []"
proof -
  let ?w = "idle_world\<lparr>rx := [Seg (replicate 32 1 @ [7])]\<rparr>"
  let ?v = "idle_world\<lparr>rnd := (\<lambda>_. 1), rx := [Seg (replicate 32 0)]\<rparr>"
  have p: "tx_plan ?w = []" "tx_plan ?v = []" by (simp_all add: idle_world_def)
  have r: "rx ?w = Seg (fst (own_keys toy_sodium ?v) @ [7]) # []" "rx ?v = Seg (fst (own_keys toy_sodium ?w) @ []) # []"
    by (simp_all add: own_keys_def randombytes_buf_def idle_world_def map_replicate_trivial toy_sodium_def)
  from prototype_agreement [OF toy_kx p r] show ?thesis by auto
qed

section \<open>The accept loop\<close>

text \<open>
  The globals: every started thread, here the socket it was given, the sockets, and a counter.
  A thread is detached as soon as it was started, so that nothing takes entries out again.
\<close>

record pre_server =
  pre_threads :: "int list"
  pre_clients :: "int list"
  numConnections :: i32

definition pre_globals :: pre_server where
  "pre_globals = \<lparr>pre_threads = [], pre_clients = [], numConnections = 0\<rparr>"

text \<open>
  \<open>main\<close> up to the accept loop, from the results of \<open>socket\<close>, \<open>setsockopt\<close>, \<open>bind\<close> and \<open>listen\<close>:
  \<open>Inl\<close> is the code it returns with, \<open>Inr\<close> the socket it accepts on; with it the sockets it closed.
\<close>

definition pre_setup :: "int \<Rightarrow> int \<Rightarrow> int \<Rightarrow> int \<Rightarrow> (int + int) \<times> int list" where
  "pre_setup s_sock opt_stat bind_stat listen_stat =
     (if s_sock = - 1 then (Inl 1, [])
      else if opt_stat = - 1 then (Inl 1, [s_sock])
      else if bind_stat = - 1 then (Inl 1, [s_sock])
      else if listen_stat < 0 then (Inr s_sock, [s_sock])
      else (Inr s_sock, []))"

definition pre_accept :: "int \<Rightarrow> pre_server \<Rightarrow> pre_server" where
  "pre_accept client_sock sv =
     (if client_sock < 0 then sv
      else sv\<lparr>pre_threads := pre_threads sv @ [client_sock], pre_clients := pre_clients sv @ [client_sock],
              numConnections := numConnections sv + 1\<rparr>)"

lemma pre_setup_result:
  "pre_setup s opt b l = (Inr sock, cl) \<longleftrightarrow>
     sock = s \<and> s \<noteq> - 1 \<and> opt \<noteq> - 1 \<and> b \<noteq> - 1 \<and> cl = (if l < 0 then [s] else [])"
  "fst (pre_setup s opt b l) = Inl rc \<Longrightarrow> rc = 1 \<and> (s \<noteq> - 1 \<longrightarrow> snd (pre_setup s opt b l) = [s])"
  by (auto simp: pre_setup_def split: if_splits)

text \<open>
  After any number of results of \<open>accept\<close>: one thread for every connection, in order, and a
  counter that is their number modulo its width.
\<close>

lemma pre_accept_loop:
  "pre_threads (fold pre_accept socks sv) = pre_threads sv @ filter (\<lambda>s. 0 \<le> s) socks"
  "pre_clients (fold pre_accept socks sv) = pre_clients sv @ filter (\<lambda>s. 0 \<le> s) socks"
  "numConnections (fold pre_accept socks sv) = numConnections sv + word_of_nat (length (filter (\<lambda>s. 0 \<le> s) socks))"
  by (induction socks arbitrary: sv) (simp_all add: pre_accept_def not_less)

end
