(* ===== verification/Password_Tool.thy ===== *)
theory Password_Tool
  imports Auth
begin

text \<open>
  The tool that prints a password hash for the database (\<open>tests/pswd_hasher.c\<close>), and what
  becomes of a user whose row holds what it printed. \<open>crypto_pwhash_str\<close> is a parameter: from
  the output buffer, a password and the random salt it draws, whether it succeeded and what the
  buffer holds then.
\<close>

section \<open>The tool\<close>

type_synonym pwhash_str = "byte list \<Rightarrow> byte list \<Rightarrow> byte list \<Rightarrow> bool \<times> byte list"

text \<open>
  Documented behaviour of the password strings: they end with a zero octet inside the buffer,
  and verify for the password they were made from and for no other.
\<close>

definition pwhash_str_laws :: "'st sodium \<Rightarrow> pwhash_str \<Rightarrow> bool" where
  "pwhash_str_laws S hash_str \<longleftrightarrow>
     (\<forall>buf p salt out. hash_str buf p salt = (True, out) \<longrightarrow>
        (\<exists>h. c_str out = Some h \<and> (\<forall>q. pwhash_str_verify S h q \<longleftrightarrow> q = p)))"

text \<open>
  The printed text, with the results of the two calls, which the tool looks at and ignores.
  \<open>strbytes\<close> is the library's \<open>crypto_pwhash_STRBYTES\<close>.
\<close>

definition hasher_main ::
    "'st sodium \<Rightarrow> nat \<Rightarrow> pwhash_str \<Rightarrow> world \<Rightarrow> ((cpp_string \<times> bool \<times> bool) \<times> world) run" where
  "hasher_main S strbytes hash_str w =
     (let PASSWORD = str ''gourd'';
          (salt, w) = randombytes_buf (pwhash_SALTBYTES S) w;
          (made, hashed_password) = hash_str (uninit strbytes w) PASSWORD salt in
      case c_str hashed_password of
        None \<Rightarrow> fails Out_Of_Bounds
      | Some s \<Rightarrow> ret ((s, made, pwhash_str_verify S s (PASSWORD @ [0])), w))"

lemma hasher_prints:
  assumes "pwhash_str_laws S hash_str" "hasher_main S n hash_str w = ret ((printed, True, verified), w')"
  shows "\<forall>q. pwhash_str_verify S printed q \<longleftrightarrow> q = str ''gourd''" "\<not> verified"
proof -
  obtain buf salt out where h: "hash_str buf (str ''gourd'') salt = (True, out)" "c_str out = Some printed"
    and v: "verified \<longleftrightarrow> pwhash_str_verify S printed (str ''gourd'' @ [0])"
    using assms(2) by (auto simp: hasher_main_def Let_def ret_def split: option.splits prod.splits)
  from assms(1) h show law: "\<forall>q. pwhash_str_verify S printed q \<longleftrightarrow> q = str ''gourd''"
    unfolding pwhash_str_laws_def by fastforce
  with v show "\<not> verified" by simp
qed

section \<open>Logging in with a printed hash\<close>

text \<open>
  The tool hashes the password without its terminating zero, the client sends it with the zero
  and the server verifies what was sent. So a user whose row holds what the tool printed is
  refused with the very password that was hashed; the tool's own verification fails for the
  same reason.
\<close>

lemma hashed_password_refused:
  assumes S: "session_laws S" "length nonce = aead_NPUBBYTES S"
    and tool: "pwhash_str_laws S hash_str" "hasher_main S n hash_str v = ret ((printed, True, verified), v')"
    and user: "0 \<notin> set u" "length u < FILE_ENCRYPTED_CHUNK_SIZE S" "db_row DB u = Some (Some printed)"
    and recvd: "feeds w (credential_bytes S rxkey nonce u (str ''gourd'') @ rest)"
  shows "\<not> verified \<and> (\<exists>w'. verify_credentials S DB rxkey w = ret ((1, u), w') \<and> feeds w' rest)"
proof -
  have "\<not> accepts S DB u (str ''gourd'')" using user(3) hasher_prints(1) [OF tool] by (simp add: accepts_def)
  moreover have "length (str ''gourd'') < FILE_ENCRYPTED_CHUNK_SIZE S"
    using S(1) chunk_sizes [of S] by (simp add: str_def session_laws_def)
  moreover have "db_row DB u \<noteq> Some None" using user(3) by simp
  ultimately show ?thesis
    using verify_honest [OF S user(1,2) _ _ recvd, of DB] hasher_prints(2) [OF tool] by auto
qed

text \<open>The laws can hold with \<open>toy_sodium\<close>: there a password string is the password itself.\<close>

lemma toy_pwhash_str:
  "pwhash_str_laws toy_sodium (\<lambda>buf p salt. if 0 \<in> set p then (False, buf) else (True, p @ [0]))"
  "hasher_main toy_sodium 128 (\<lambda>buf p salt. if 0 \<in> set p then (False, buf) else (True, p @ [0])) w =
     ret ((str ''gourd'', True, False), w\<lparr>rnd_pos := rnd_pos w + 16\<rparr>)"
proof -
  have "0 \<notin> set (str ''gourd'')" by code_simp
  then show "hasher_main toy_sodium 128 (\<lambda>buf p salt. if 0 \<in> set p then (False, buf) else (True, p @ [0])) w =
     ret ((str ''gourd'', True, False), w\<lparr>rnd_pos := rnd_pos w + 16\<rparr>)"
    using c_str_terminated [of "str ''gourd''" "[]"]
    by (simp add: hasher_main_def randombytes_buf_def toy_sodium_def)
qed (auto simp: pwhash_str_laws_def toy_sodium_def c_str_terminated split: if_splits)

end
