(* ===== verification/Spec2Isabelle.thy ===== *)
theory Spec2Isabelle
  imports User_Session Worker_Pool Connection_Ends Disk_Invariant Prototype Password_Tool
begin

text \<open>
  Verification of MEFSC, a multi-threaded encrypted file server with its client, written in C++
  (the sources are under \<open>src/src\<close> and \<open>src/include\<close>; file names below are relative to those).

  \<^bold>\<open>The program.\<close> A client connects over TCP. Both sides exchange public keys and derive two
  session keys; everything after that travels in frames of the session layer. The user logs in
  with name and password, which the server checks against a database, and then makes requests
  in a loop: upload, download, list, delete. Uploads are encrypted by the client with a key
  derived from the password, chunk by chunk, and stored by the server as received, under the
  user's directory. On both sides a second thread writes the received chunks to disk through a
  buffer of two slots. The server accepts connections in its main thread and serves them with a
  pool of eight workers.

  \<^bold>\<open>The theories\<close>, in the order in which they build on each other:

  \<^item> \<open>MEFSC_Prelude\<close>: machine types, the outcome of running code (returns, faults, never
    returns), integers as bytes, C strings.
  \<^item> \<open>Sodium_API\<close>: libsodium as a record of its calls and sizes, its documented properties as
    named laws (\<open>session_laws\<close>, \<open>secretstream_laws\<close>, \<open>kx_laws\<close>), a small instance that satisfies
    them, and the constants of \<open>common/constants.h\<close>.
  \<^item> \<open>File_System\<close>: paths, streams and directories as the C++ library presents them.
  \<^item> \<open>Sock_IO\<close>: the environment of a connection (what arrives and in which pieces, what \<open>send\<close>
    accepts, randomness, uninitialised memory, disk, terminal), \<open>recv_fully\<close>, raw blobs; the
    interface \<open>wire_format\<close> of a reader and a writer that agree.
  \<^item> \<open>Session_Enc\<close>: class \<open>SessionEncWrapper\<close> (\<open>SessionEnc.cpp\<close>).
  \<^item> \<open>Transition\<close>: transition systems with an invariant, and with work that ends.
  \<^item> \<open>Two_Slot_Buffer\<close>: \<open>TwoSlotBuffer.h\<close> and the two threads around it.
  \<^item> \<open>File_Transfer\<close>: the messages of a transfer, shared by both directions.
  \<^item> \<open>FS_Operator\<close>, \<open>FS_Requests\<close>: class \<open>FS_Operator\<close> (\<open>read_write_handlers.cpp\<close>).
  \<^item> \<open>Key_Exchange\<close>: \<open>server_crypt_gen\<close> and \<open>client_crypt_gen\<close> (\<open>encryption_utils.cpp\<close>).
  \<^item> \<open>Auth\<close>: \<open>auth.cpp\<close> and \<open>verify_credentials\<close>; sqlite is a parameter.
  \<^item> \<open>Server\<close>: \<open>handle_conn\<close>, its session loop, setup, signal handler, logger (\<open>server.cpp\<close>,
    \<open>server_logger.cpp\<close>).
  \<^item> \<open>File_Store\<close>: the specification of a session as an abstract store, and the refinement.
  \<^item> \<open>Worker_Pool\<close>: the accept loop, the workers, the listeners and \<open>clean_all\<close> as a transition
    system (\<open>server.cpp\<close>).
  \<^item> \<open>Client_Agents\<close>: \<open>Comms_Agent\<close>, \<open>Sender_Agent\<close>, \<open>Receiver_Agent\<close> (\<open>authed_entry.cpp\<close>).
  \<^item> \<open>Client\<close>: \<open>client.cpp\<close>, with standard input.
  \<^item> \<open>Connection_Ends\<close>: when a connection comes to an end, and when it does not.
  \<^item> \<open>Disk_Invariant\<close>: a locale for properties of the disk that every file operation keeps, and the
    tree of files and directories as its instance.
  \<^item> \<open>End_To_End\<close>, \<open>Client_Session\<close> and this theory: client and server together, request by request.
  \<^item> \<open>User_Session\<close>: whole sessions, from what the user types to the files on both disks, against
    a specification in terms of plain files.
  \<^item> \<open>Prototype\<close>: the two programs under \<open>prehistoric\<close> the project started from.
  \<^item> \<open>Password_Tool\<close>: \<open>tests/pswd_hasher.c\<close>, and logins with what it prints.

  \<^bold>\<open>How code becomes definitions.\<close> A function of the program that uses the connection takes the
  environment (\<open>world\<close>) and gives back its result with the new environment, or a fault, or
  \<open>None\<close> if it never returns. Objects are records with the members of the class; a
  method returns the changed record. Every early return is a branch. Buffers nobody has written
  hold arbitrary bytes (\<open>uninit\<close>), output buffers of a failed library call hold whatever the
  library left. Loops that may run for ever are partial functions over \<open>option\<close>; that they end is
  proved or disproved (\<open>connection_ends\<close> says exactly which connections do not end,
  \<open>RFFS_directory_hangs\<close>; the end-to-end theorems include that both sides return).
  Code that runs concurrently is an inductive step relation with one rule per statement other
  threads can observe, so a theorem about reachable states is about every schedule. No fuel is
  used anywhere. Handlers are modelled with the writer thread scheduled eagerly, which
  \<open>schedules_equivalent\<close> justifies.

  \<^bold>\<open>What is shown.\<close>

  \<^item> Whatever sensible commands a user types, client and server, each fed with what the other
    sends, run to the end of the session and take the files of both sides through the states
    of a plain specification (\<open>user_session\<close>).
  \<^item> A file that is uploaded and downloaded again comes back byte for byte (\<open>file_round_trip\<close>);
    uploads, logins, listings and deletions work end to end; any sequence of requests takes the
    user's directory through the states of an abstract store (\<open>session_refines\<close>).
  \<^item> A connection changes nothing unless the stored hash of the user it names accepts the password
    it presents (\<open>no_effect_without_login\<close>, \<open>auth_sound\<close>); only authenticated messages start
    actions, are delivered or are written to a file.
  \<^item> Whatever a peer sends, the disk stays a tree (\<open>tree_preserved\<close>), and a connection ends unless
    a logged-in user asks for a directory (\<open>connection_ends\<close>).
  \<^item> No array is overrun by the session layer, also by forged frames; return codes on every
    branch; nonces do not repeat.
  \<^item> Both threads of a transfer never share a slot, never deadlock, and deliver every chunk in
    order; connections are served in order, by one worker each, and none waits in vain while a
    worker is not in a session. Where a thread's progress is bounded, the bound is for every
    schedule and says what events from outside may add to it.
  \<^item> Where the code does not do what it means to do, a theorem says so: a shutdown that hangs, a
    counter below zero, a request that never returns, truncated files accepted as complete,
    names that can be stored and never fetched, sides that lose step, input that never ends.

  \<^bold>\<open>Laws of the library.\<close> Authenticity is stated in the model's terms: \<open>aead_decrypt\<close> succeeds only
  on ciphertexts \<open>aead_encrypt\<close> makes under the same key and nonce. Laws are hypotheses of the
  theorems that need them, and \<open>toy_sodium\<close> satisfies them all, which the witnesses use.

  \<^bold>\<open>Not modelled.\<close> Prompts and log lines; the logger's sleep and colours; the contents of the
  sessions inside the pool's transition system (there the end of a session, in one of three
  ways, is an event that may or may not come; what a session does is in \<open>Server\<close>), and that an
  uncaught exception in a worker ends the whole process; that two sessions of the same user may
  run at the same time and interleave their file operations; file permissions, symbolic links
  and full disks; memory limits; the benchmark scripts and recorded outputs under \<open>tests\<close>, which
  are no part of the program.

  \<^bold>\<open>Left open.\<close> Two sessions of one user that interleave on one disk, and what the client does on
  connections that stop in the middle of each request.
\<close>

section \<open>Files survive the round trip\<close>

text \<open>
  C3. Upload, end to end: when the server receives what the client's upload sent, its handler
  returns 0 and the user's directory holds, under the file's name with \<open>.enc\<close> appended, an
  encrypted copy of the client's file; no other path has changed, nothing was sent back, and
  what follows on the connection is left unread.
\<close>

theorem upload_end_to_end:
  assumes "session_laws S" "secretstream_laws S" "client_tx CA = server_rx op"
    and "upload_ready S CA SA name password xs v"
    and "home op (disk w) p" "lookup (disk w) (p @ [name @ ext]) \<noteq> Some Dir"
    and "encrypt_and_send_to_server S CA name password SA v = ret ((rc, SA'), v')"
    and "feeds w (drop (length (tx v)) (tx v') @ rest)"
  shows "rc = 0 \<and> (\<exists>w' bs. WTFS_Handler__Server S op w = ret (0, w') \<and> feeds w' rest \<and> tx w' = tx w \<and>
     tx_plan w' = tx_plan w \<and> cwd (disk w') = cwd (disk w) \<and> encrypted_file S password xs bs \<and>
     lookup (disk w') (p @ [name @ ext]) = Some (File bs) \<and>
     (\<forall>q. q \<noteq> p @ [name @ ext] \<longrightarrow> lookup (disk w') q = lookup (disk w) q))"
  using assms by (rule upload_end_to_end_run)

lemma toy_upload_ready: "upload_ready toy_sodium toy_CA toy_SA (str ''g'') (str ''pw'') [1, 2, 3] (idle_world\<lparr>disk := toy_local\<rparr>)"
proof -
  have "resolve toy_local (str ''g'') = Inr [str ''g'']" "lookup toy_local [str ''g''] = Some (File [1, 2, 3])"
    "0 \<notin> set (str ''g'')" "slash \<notin> set (str ''g'')" by code_simp+
  moreover have "pwhash toy_sodium 32 (str ''pw'') s \<noteq> None" for s by (simp add: toy_sodium_def)
  moreover have "length (str ''g'') \<le> PRE_EXT_FILE_NAME_LEN" by (simp add: str_def PRE_EXT_FILE_NAME_LEN_def)
  ultimately show ?thesis by (auto simp: upload_ready_def toy_SA_def idle_world_def)
qed

lemma toy_upload_sent:
  obtains SA' v' where "encrypt_and_send_to_server toy_sodium toy_CA (str ''g'') (str ''pw'') toy_SA
      (idle_world\<lparr>disk := toy_local\<rparr>) = ret ((0, SA'), v')" "tx v' \<noteq> []"
proof -
  let ?v = "idle_world\<lparr>disk := toy_local\<rparr>"
  have r: "resolve (disk ?v) (c_path (str ''g'')) = Inr [str ''g'']"
    "lookup (disk ?v) [str ''g''] = Some (File [1, 2, 3])" by (simp, code_simp)+
  have p: "tx_plan ?v = []" by (simp add: idle_world_def)
  obtain key where k: "pwhash toy_sodium (box_SEEDBYTES toy_sodium) (str ''pw'') (file_salt toy_sodium ?v) = Some key"
    by (simp add: toy_sodium_def)
  have l: "length (str ''g'') \<le> FILE_ENCRYPTED_CHUNK_SIZE toy_sodium" by (simp add: str_def)
  from upload_run [OF toy_session toy_secretstream _ p _ l r k, of toy_SA toy_CA] that
  show ?thesis by (auto simp: toy_SA_def upload_bytes_def)
qed

lemma toy_room:
  "home toy_op (disk (idle_world\<lparr>disk := toy_disk, rx := es\<rparr>)) [str ''MEF_S'', str ''u'']"
  "lookup (disk (idle_world\<lparr>disk := toy_disk, rx := es\<rparr>)) ([str ''MEF_S'', str ''u''] @ [str ''g'' @ ext]) \<noteq> Some Dir"
proof -
  have "lookup toy_disk [str ''MEF_S'', str ''u'', str ''g'' @ ext] \<noteq> Some Dir" by code_simp
  then show "home toy_op (disk (idle_world\<lparr>disk := toy_disk, rx := es\<rparr>)) [str ''MEF_S'', str ''u'']"
    "lookup (disk (idle_world\<lparr>disk := toy_disk, rx := es\<rparr>)) ([str ''MEF_S'', str ''u''] @ [str ''g'' @ ext]) \<noteq> Some Dir"
    using toy_home by simp_all
qed

theorem upload_end_to_end_witness:
  "\<exists>SA' v' w' bs. encrypt_and_send_to_server toy_sodium toy_CA (str ''g'') (str ''pw'') toy_SA
       (idle_world\<lparr>disk := toy_local\<rparr>) = ret ((0, SA'), v') \<and>
     WTFS_Handler__Server toy_sodium toy_op (idle_world\<lparr>disk := toy_disk, rx := [Seg (tx v')]\<rparr>) = ret (0, w') \<and>
     encrypted_file toy_sodium (str ''pw'') [1, 2, 3] bs \<and>
     lookup (disk w') ([str ''MEF_S'', str ''u''] @ [str ''g'' @ ext]) = Some (File bs)"
proof -
  obtain SA' v' where v': "encrypt_and_send_to_server toy_sodium toy_CA (str ''g'') (str ''pw'') toy_SA
      (idle_world\<lparr>disk := toy_local\<rparr>) = ret ((0, SA'), v')" "tx v' \<noteq> []" using toy_upload_sent .
  let ?w = "idle_world\<lparr>disk := toy_disk, rx := [Seg (tx v')]\<rparr>"
  have f: "feeds ?w (drop (length (tx (idle_world\<lparr>disk := toy_local\<rparr>))) (tx v') @ [])"
    using v'(2) by (simp add: feeds_def idle_world_def)
  have keys: "client_tx toy_CA = server_rx toy_op" by (simp add: toy_CA_def toy_op_def)
  from upload_end_to_end [OF toy_session toy_secretstream keys toy_upload_ready toy_room v'(1) f] v'(1)
  show ?thesis by blast
qed

text \<open>
  C2. The round trip: the server receives what an upload sent and then a request for the same
  file (\<open>name.enc\<close>); a client that receives what the server sends in answer, and uses the
  same password, ends with exactly the bytes of the original file. This holds for every file
  content, however the network cuts either stream into pieces.
\<close>

theorem file_round_trip:
  assumes S: "session_laws S" "secretstream_laws S"
    and keys: "client_tx CA = server_rx op" "client_rx CA = server_tx op"
    and c: "upload_ready S CA SA name password xs v" "length (name @ ext) < PRE_EXT_FILE_NAME_LEN"
    and s: "home op (disk w) p" "lookup (disk w) (p @ [name @ ext]) \<noteq> Some Dir" "tx_plan w = []"
    and sent: "encrypt_and_send_to_server S CA name password SA v = ret ((rc, SA'), v')"
    and recvd: "feeds w (drop (length (tx v)) (tx v') @ frame S (server_rx op) nonce (name @ ext @ [0]) @ rest)"
    and nonce: "length nonce = aead_NPUBBYTES S"
  shows "\<exists>w1 op' w2. WTFS_Handler__Server S op w = ret (0, w1) \<and>
     RFFS_Handler__Server S op w1 = ret ((0, op'), w2) \<and> feeds w2 rest \<and>
     (\<forall>u q RA rest'. lookup (disk u) q = Some (File []) \<and> feeds u (drop (length (tx w)) (tx w2) @ rest') \<longrightarrow>
       (\<exists>RA' u'. decrypt_and_read_from_server S CA (Some q) password RA u = ret ((0, RA'), u') \<and>
          feeds u' rest' \<and> lookup (disk u') q = Some (File xs) \<and>
          (\<forall>r. r \<noteq> q \<longrightarrow> lookup (disk u') r = lookup (disk u) r)))"
proof -
  let ?p = "p @ [name @ ext]"
  have n: "0 \<notin> set (name @ ext)" "plain_name (name @ ext)"
    using c(1) plain_ext by (auto simp: upload_ready_def ext_def str_def)
  from upload_end_to_end_run [OF S keys(1) c(1) s(1,2) sent recvd]
  obtain w1 bs where w1: "WTFS_Handler__Server S op w = ret (0, w1)"
    "feeds w1 (frame S (server_rx op) nonce ((name @ ext) @ [0]) @ rest)" "tx w1 = tx w" "tx_plan w1 = []"
    "cwd (disk w1) = cwd (disk w)" "encrypted_file S password xs bs" "lookup (disk w1) ?p = Some (File bs)"
    "\<forall>q. q \<noteq> ?p \<longrightarrow> lookup (disk w1) q = lookup (disk w) q" using s(3) by auto
  have "lookup (disk w) r = Some Dir \<Longrightarrow> lookup (disk w1) r = Some Dir" for r
    using w1(8) s(2) by (cases "r = ?p") auto
  from home_keep_dirs [OF s(1) this w1(5)] have h: "home op (disk w1) p" .
  from download_end_to_end_run [OF S keys(2) w1(4) h w1(7,6) c(2) n nonce w1(2)] w1(1,3)
  show ?thesis by metis
qed

theorem file_round_trip_witness:
  "\<exists>SA' v' w1 op' w2. encrypt_and_send_to_server toy_sodium toy_CA (str ''g'') (str ''pw'') toy_SA
       (idle_world\<lparr>disk := toy_local\<rparr>) = ret ((0, SA'), v') \<and>
     WTFS_Handler__Server toy_sodium toy_op (idle_world\<lparr>disk := toy_disk, rx :=
       [Seg (tx v' @ frame toy_sodium [7] (replicate 8 0) (str ''g'' @ ext @ [0]))]\<rparr>) = ret (0, w1) \<and>
     RFFS_Handler__Server toy_sodium toy_op w1 = ret ((0, op'), w2) \<and>
     (\<forall>u q RA. lookup (disk u) q = Some (File []) \<and> feeds u (tx w2) \<longrightarrow>
       (\<exists>RA' u'. decrypt_and_read_from_server toy_sodium toy_CA (Some q) (str ''pw'') RA u = ret ((0, RA'), u') \<and>
          lookup (disk u') q = Some (File [1, 2, 3])))"
proof -
  obtain SA' v' where v': "encrypt_and_send_to_server toy_sodium toy_CA (str ''g'') (str ''pw'') toy_SA
      (idle_world\<lparr>disk := toy_local\<rparr>) = ret ((0, SA'), v')" "tx v' \<noteq> []" using toy_upload_sent .
  let ?r = "frame toy_sodium [7] (replicate 8 0) (str ''g'' @ ext @ [0])"
  let ?w = "idle_world\<lparr>disk := toy_disk, rx := [Seg (tx v' @ ?r)]\<rparr>"
  have f: "feeds ?w (drop (length (tx (idle_world\<lparr>disk := toy_local\<rparr>))) (tx v') @
      frame toy_sodium (server_rx toy_op) (replicate 8 0) (str ''g'' @ ext @ [0]) @ [])"
    by (simp add: feeds_def idle_world_def toy_op_def)
  have keys: "client_tx toy_CA = server_rx toy_op" "client_rx toy_CA = server_tx toy_op"
    by (simp_all add: toy_CA_def toy_op_def)
  have p: "tx_plan ?w = []" "tx ?w = []" by (simp_all add: idle_world_def)
  have l: "length (str ''g'' @ ext) < PRE_EXT_FILE_NAME_LEN"
    by (simp add: str_def ext_def PRE_EXT_FILE_NAME_LEN_def)
  have n: "length (replicate 8 0 :: byte list) = aead_NPUBBYTES toy_sodium" by simp
  from file_round_trip [OF toy_session toy_secretstream keys toy_upload_ready l toy_room p(1) v'(1) f n]
  obtain w1 op' w2 where w2: "WTFS_Handler__Server toy_sodium toy_op ?w = ret (0, w1)"
    "RFFS_Handler__Server toy_sodium toy_op w1 = ret ((0, op'), w2)"
    "\<forall>u q RA rest'. lookup (disk u) q = Some (File []) \<and> feeds u (drop (length (tx ?w)) (tx w2) @ rest') \<longrightarrow>
       (\<exists>RA' u'. decrypt_and_read_from_server toy_sodium toy_CA (Some q) (str ''pw'') RA u = ret ((0, RA'), u') \<and>
          feeds u' rest' \<and> lookup (disk u') q = Some (File [1, 2, 3]) \<and>
          (\<forall>r. r \<noteq> q \<longrightarrow> lookup (disk u') r = lookup (disk u) r))" by blast
  have "\<exists>RA' u'. decrypt_and_read_from_server toy_sodium toy_CA (Some q) (str ''pw'') RA u = ret ((0, RA'), u') \<and>
      lookup (disk u') q = Some (File [1, 2, 3])"
    if "lookup (disk u) q = Some (File [])" "feeds u (tx w2)" for u q RA
    using w2(3) [rule_format, of u q "[]" RA] that p(2) by auto
  with v'(1) w2(1,2) show ?thesis by blast
qed

end
